(* ===== verification/Prelude.thy ===== *)
theory Prelude
  imports Main "HOL-Library.Word" "HOL-Library.Sublist" "HOL-Library.List_Lexorder"
begin

text \<open>
  The shared vocabulary of the development: machine integers at the widths the Rust
  sources use, the fallible-result combinators, the parts of the Rust standard library the
  components call (ASCII case folding, slice access, partition points, saturating and
  checked arithmetic), and the generic list and word lemmas the component proofs rest on.
  A Rust \<^verbatim>\<open>Result<T, E>\<close> is the sum \<open>'e + 'a\<close> with \<open>Inl\<close> the error.
\<close>

unbundle bit_operations_syntax

section \<open>Types and collections\<close>

type_synonym u8 = "8 word"
type_synonym u16 = "16 word"
type_synonym u32 = "32 word"
type_synonym i32 = "32 word"
type_synonym u64 = "64 word"
type_synonym u128 = "128 word"

type_synonym label = "u8 list"
type_synonym name = "label list"

named_theorems word_bounds
named_theorems slice_simps
named_theorems name_simps

section \<open>Results\<close>

definition rbind :: "'e + 'a \<Rightarrow> ('a \<Rightarrow> 'e + 'b) \<Rightarrow> 'e + 'b" where
  "rbind r f = (case r of Inl e \<Rightarrow> Inl e | Inr a \<Rightarrow> f a)"

fun rfold :: "('a \<Rightarrow> 's \<Rightarrow> 'e + 's) \<Rightarrow> 'a list \<Rightarrow> 's \<Rightarrow> 'e + 's" where
  "rfold f [] s = Inr s"
| "rfold f (x # xs) s = rbind (f x s) (rfold f xs)"

fun rmap :: "('a \<Rightarrow> 'e + 'b) \<Rightarrow> 'a list \<Rightarrow> 'e + 'b list" where
  "rmap f [] = Inr []"
| "rmap f (x # xs) = rbind (f x) (\<lambda>y. rbind (rmap f xs) (\<lambda>ys. Inr (y # ys)))"

definition ok_or :: "'e \<Rightarrow> 'a option \<Rightarrow> 'e + 'a" where
  "ok_or e x = (case x of None \<Rightarrow> Inl e | Some a \<Rightarrow> Inr a)"

definition opt_or :: "'a option \<Rightarrow> 'a option \<Rightarrow> 'a option" where
  "opt_or x y = (case x of None \<Rightarrow> y | Some a \<Rightarrow> Some a)"

definition unwrap_or :: "'a \<Rightarrow> 'a option \<Rightarrow> 'a" where
  "unwrap_or d x = (case x of None \<Rightarrow> d | Some a \<Rightarrow> a)"

definition is_some_and :: "'a option \<Rightarrow> ('a \<Rightarrow> bool) \<Rightarrow> bool" where
  "is_some_and x p = (case x of None \<Rightarrow> False | Some a \<Rightarrow> p a)"

section \<open>Octets, slices and integers of the Rust standard library\<close>

definition to_ascii_lowercase :: "u8 \<Rightarrow> u8" where
  "to_ascii_lowercase c = (if 65 \<le> c \<and> c \<le> 90 then c + 32 else c)"

definition eq_ignore_ascii_case :: "label \<Rightarrow> label \<Rightarrow> bool" where
  "eq_ignore_ascii_case a b \<longleftrightarrow> map to_ascii_lowercase a = map to_ascii_lowercase b"

definition lower_name :: "name \<Rightarrow> name" where
  "lower_name n = map (map to_ascii_lowercase) n"

definition is_lower :: "name \<Rightarrow> bool" where
  "is_lower n \<longleftrightarrow> lower_name n = n"

definition slice_get :: "'a list \<Rightarrow> nat \<Rightarrow> nat \<Rightarrow> 'a list option" where
  "slice_get xs a b = (if a \<le> b \<and> b \<le> length xs then Some (take (b - a) (drop a xs)) else None)"

definition list_get :: "'a list \<Rightarrow> nat \<Rightarrow> 'a option" where
  "list_get xs i = (if i < length xs then Some (xs ! i) else None)"

definition partition_point :: "('a \<Rightarrow> bool) \<Rightarrow> 'a list \<Rightarrow> nat" where
  "partition_point p xs = length (takeWhile p xs)"

definition saturating_sub :: "'w::len word \<Rightarrow> 'w word \<Rightarrow> 'w word" where
  "saturating_sub a b = (if b \<le> a then a - b else 0)"

definition saturating_mul :: "'w::len word \<Rightarrow> 'w word \<Rightarrow> 'w word" where
  "saturating_mul a b = (if unat a * unat b < 2 ^ LENGTH('w) then a * b else - 1)"

definition saturating_add :: "'w::len word \<Rightarrow> 'w word \<Rightarrow> 'w word" where
  "saturating_add a b = (if unat a + unat b < 2 ^ LENGTH('w) then a + b else - 1)"

definition clamp_word :: "'w::len word \<Rightarrow> 'w word \<Rightarrow> 'w word \<Rightarrow> 'w word" where
  "clamp_word lo hi x = (if x < lo then lo else if hi < x then hi else x)"

fun position :: "'a \<Rightarrow> 'a list \<Rightarrow> nat option" where
  "position x [] = None"
| "position x (y # ys) = (if x = y then Some 0 else map_option Suc (position x ys))"

fun last_take :: "nat \<Rightarrow> 'a list \<Rightarrow> 'a list" where
  "last_take d xs = drop (length xs - d) xs"

section \<open>Text\<close>

text \<open>Configuration text is ASCII: \<^verbatim>\<open>str::trim\<close>, \<^verbatim>\<open>to_uppercase\<close> and the prefix operations on it.\<close>

definition is_whitespace :: "char \<Rightarrow> bool" where
  "is_whitespace c \<longleftrightarrow> c \<in> {CHR 0x09, CHR 0x0A, CHR 0x0B, CHR 0x0C, CHR 0x0D, CHR 0x20}"

definition trim_start :: "string \<Rightarrow> string" where
  "trim_start s = dropWhile is_whitespace s"

definition trim :: "string \<Rightarrow> string" where
  "trim s = rev (trim_start (rev (trim_start s)))"

definition trim_start_dots :: "string \<Rightarrow> string" where
  "trim_start_dots s = dropWhile (\<lambda>c. c = CHR ''.'') s"

definition starts_with :: "string \<Rightarrow> string \<Rightarrow> bool" where
  "starts_with p s \<longleftrightarrow> prefix p s"

definition ends_with :: "string \<Rightarrow> string \<Rightarrow> bool" where
  "ends_with p s \<longleftrightarrow> suffix p s"

definition ascii_upper :: "char \<Rightarrow> char" where
  "ascii_upper c = (if 97 \<le> (of_char c :: nat) \<and> (of_char c :: nat) \<le> 122
     then char_of ((of_char c :: nat) - 32) else c)"

definition to_uppercase :: "string \<Rightarrow> string" where
  "to_uppercase s = map ascii_upper s"

section \<open>Lemmas on results and options\<close>

lemma rbind_simps [simp]:
  "rbind (Inl e) f = Inl e"
  "rbind (Inr a) f = f a"
  by (simp_all add: rbind_def)

lemma rbind_eq_Inr: "rbind r f = Inr b \<longleftrightarrow> (\<exists>a. r = Inr a \<and> f a = Inr b)"
  by (cases r) auto

lemma rfold_invariant:
  assumes "rfold f xs s = Inr t" and "P s"
    and "\<And>x s t. x \<in> set xs \<Longrightarrow> f x s = Inr t \<Longrightarrow> P s \<Longrightarrow> P t"
  shows "P t"
  using assms
proof (induction xs arbitrary: s)
  case Nil
  then show ?case by simp
next
  case (Cons x xs)
  from Cons.prems(1) obtain u where u: "f x s = Inr u" "rfold f xs u = Inr t"
    by (auto simp: rbind_eq_Inr)
  have "P u" using Cons.prems(3)[OF _ u(1) Cons.prems(2)] by simp
  with u(2) show ?case using Cons.prems(3) by (intro Cons.IH) auto
qed

lemma rfold_enumerate:
  assumes "rfold f (enumerate k xs) s = Inr t" and "P k s"
    and "\<And>i s t. i < length xs \<Longrightarrow> f (k + i, xs ! i) s = Inr t \<Longrightarrow> P (k + i) s \<Longrightarrow> P (Suc (k + i)) t"
  shows "P (k + length xs) t"
  using assms
proof (induction xs arbitrary: k s)
  case (Cons x xs)
  from Cons.prems(1) obtain u where u: "f (k, x) s = Inr u" "rfold f (enumerate (Suc k) xs) u = Inr t"
    by (auto simp: rbind_eq_Inr)
  have "P (Suc k) u" using Cons.prems(3) [of 0 s u] u(1) Cons.prems(2) by simp
  then have "P (Suc k + length xs) t"
  proof (rule Cons.IH [OF u(2)])
    fix i s t
    assume "i < length xs" "f (Suc k + i, xs ! i) s = Inr t" "P (Suc k + i) s"
    then show "P (Suc (Suc k + i)) t" using Cons.prems(3) [of "Suc i" s t] by simp
  qed
  then show ?case by simp
qed simp

lemma rmap_length: "rmap f xs = Inr ys \<Longrightarrow> length ys = length xs"
  by (induction xs arbitrary: ys) (auto simp: rbind_eq_Inr)

lemma rmap_eq_Inr_mem: "rmap f xs = Inr ys \<Longrightarrow> y \<in> set ys \<Longrightarrow> \<exists>x \<in> set xs. f x = Inr y"
  by (induction xs arbitrary: ys) (auto simp: rbind_eq_Inr)

lemma is_some_and_simps [simp]:
  "is_some_and None p = False"
  "is_some_and (Some a) p = p a"
  by (simp_all add: is_some_and_def)

lemma opt_or_simps [simp]:
  "opt_or None y = y"
  "opt_or (Some a) y = Some a"
  by (simp_all add: opt_or_def)

lemma unwrap_or_simps [simp]:
  "unwrap_or d None = d"
  "unwrap_or d (Some a) = a"
  by (simp_all add: unwrap_or_def)

lemma ok_or_eq_Inr [simp]: "ok_or e x = Inr a \<longleftrightarrow> x = Some a"
  by (cases x) (auto simp: ok_or_def)

section \<open>Lemmas on octets and names\<close>

lemma to_ascii_lowercase_idem [simp]:
  "to_ascii_lowercase (to_ascii_lowercase c) = to_ascii_lowercase c"
proof (cases "65 \<le> c \<and> c \<le> 90")
  case True
  then have "65 \<le> unat c" "unat c \<le> 90" by (simp_all add: word_le_nat_alt)
  then have "unat (c + 32) = unat c + 32" by (simp add: unat_word_ariths)
  then show ?thesis using True \<open>65 \<le> unat c\<close>
    by (auto simp: to_ascii_lowercase_def word_le_nat_alt)
next
  case False
  then have "to_ascii_lowercase c = c" by (simp only: to_ascii_lowercase_def if_False)
  then show ?thesis by simp
qed

lemma lower_name_idem [simp]: "lower_name (lower_name n) = lower_name n"
  by (simp add: lower_name_def)

lemma is_lower_lower_name [simp]: "is_lower (lower_name n)"
  by (simp add: is_lower_def)

lemma length_lower_name [simp]: "length (lower_name n) = length n"
  by (simp add: lower_name_def)

lemma lower_name_Nil [simp]: "lower_name [] = []"
  and lower_name_Cons [simp]: "lower_name (l # n) = map to_ascii_lowercase l # lower_name n"
  and lower_name_append: "lower_name (m @ n) = lower_name m @ lower_name n"
  and lower_name_drop: "lower_name (drop k n) = drop k (lower_name n)"
  and lower_name_tl: "lower_name (tl n) = tl (lower_name n)"
  by (simp_all add: lower_name_def drop_map map_tl)

lemma is_lower_drop: "is_lower n \<Longrightarrow> is_lower (drop k n)"
  by (simp add: is_lower_def lower_name_drop)

lemma is_lower_tl: "is_lower n \<Longrightarrow> is_lower (tl n)"
  by (simp add: is_lower_def lower_name_tl)

lemma is_lower_Cons: "is_lower (l # n) \<longleftrightarrow> map to_ascii_lowercase l = l \<and> is_lower n"
  by (simp add: is_lower_def)

lemma is_lower_Nil [simp]: "is_lower []"
  by (simp add: is_lower_def)

section \<open>Lemmas on slices\<close>

lemma slice_get_all [slice_simps]: "slice_get xs 0 (length xs) = Some xs"
  by (simp add: slice_get_def)

lemma list_get_Some [slice_simps]: "list_get xs i = Some x \<longleftrightarrow> i < length xs \<and> xs ! i = x"
  by (auto simp: list_get_def)

lemma list_get_None [slice_simps]: "list_get xs i = None \<longleftrightarrow> length xs \<le> i"
  by (auto simp: list_get_def)

lemma list_get_append_last: "list_get (xs @ [x]) (length xs) = Some x"
  by (simp add: list_get_def)

text \<open>On a slice sorted by \<open>f\<close>, the two partition points cut out the run of one key.\<close>

lemma takeWhile_less_sorted:
  "sorted (map f xs) \<Longrightarrow> takeWhile (\<lambda>x. f x < k) xs = filter (\<lambda>x. f x < k) xs"
  for f :: "'a \<Rightarrow> 'b::linorder"
  by (induction xs) (auto simp: filter_empty_conv not_less not_le intro!: filter_False[symmetric]
      dest: order.trans less_le_trans)

lemma takeWhile_le_sorted:
  "sorted (map f xs) \<Longrightarrow> takeWhile (\<lambda>x. f x \<le> k) xs = filter (\<lambda>x. f x \<le> k) xs"
  for f :: "'a \<Rightarrow> 'b::linorder"
  by (induction xs) (auto simp: filter_empty_conv not_less not_le intro!: filter_False[symmetric]
      dest: order.trans less_le_trans)

lemma partition_run:
  fixes f :: "'a \<Rightarrow> 'b::linorder"
  assumes "sorted (map f xs)"
  shows "slice_get xs (partition_point (\<lambda>x. f x < k) xs) (partition_point (\<lambda>x. f x \<le> k) xs)
    = Some (filter (\<lambda>x. f x = k) xs)"
proof -
  let ?a = "takeWhile (\<lambda>x. f x < k) xs"
  let ?b = "takeWhile (\<lambda>x. f x \<le> k) xs"
  have le: "length ?b \<le> length xs" by (rule length_takeWhile_le)
  have split: "?b = ?a @ filter (\<lambda>x. f x = k) xs"
    using assms
  proof (induction xs)
    case (Cons x xs)
    have "f x \<ge> k \<Longrightarrow> filter (\<lambda>y. f y < k) xs = []"
      using Cons.prems by (auto simp: filter_empty_conv not_less dest: order.trans)
    moreover have "k < f x \<Longrightarrow> filter (\<lambda>y. f y = k) xs = []"
      using Cons.prems by (auto simp: filter_empty_conv)
    ultimately show ?case
      using Cons by (cases "f x < k"; cases "f x = k") (auto simp: takeWhile_less_sorted)
  qed simp
  have "take (length ?b) xs = ?b" by (rule takeWhile_eq_take [symmetric])
  then have "take (length ?b - length ?a) (drop (length ?a) xs) = drop (length ?a) ?b"
    by (metis drop_take)
  also have "\<dots> = filter (\<lambda>x. f x = k) xs" using split by simp
  finally show ?thesis
    using le split by (simp add: slice_get_def partition_point_def)
qed

section \<open>Lemmas on positions\<close>

lemma position_Some: "position x xs = Some i \<Longrightarrow> i < length xs \<and> xs ! i = x"
  by (induction xs arbitrary: i) (auto split: if_splits)

lemma position_None: "position x xs = None \<longleftrightarrow> x \<notin> set xs"
  by (induction xs) auto

lemma position_nth: "distinct xs \<Longrightarrow> i < length xs \<Longrightarrow> position (xs ! i) xs = Some i"
proof (induction xs arbitrary: i)
  case (Cons y ys)
  then show ?case by (cases i) auto
qed simp

section \<open>Lemmas on words\<close>

lemma of_nat_u32_eq: "a < 2 ^ 32 \<Longrightarrow> b < 2 ^ 32 \<Longrightarrow> (of_nat a :: u32) = of_nat b \<longleftrightarrow> a = b"
  by (simp add: word_unat_eq_iff unat_of_nat)

lemma unat_less_pow [word_bounds]: "unat (w :: 'w::len word) < 2 ^ LENGTH('w)"
  by (rule unsigned_less)

lemma unat_drop_bit [word_bounds]: "unat (drop_bit n w) = unat w div 2 ^ n" for w :: "'w::len word"
  by (simp add: unsigned_drop_bit_eq take_bit_nat_eq_self unat_less_pow) (rule drop_bit_eq_div)

lemma saturating_sub_unat [word_bounds]: "unat (saturating_sub a b) = unat a - unat b"
  by (auto simp: saturating_sub_def unat_sub word_le_nat_alt)

lemma clamp_word_bounds [word_bounds]: "lo \<le> hi \<Longrightarrow> lo \<le> clamp_word lo hi x \<and> clamp_word lo hi x \<le> hi"
  by (auto simp: clamp_word_def)

section \<open>Trimming\<close>

lemma trim_idem: "trim (trim s) = trim s"
proof -
  have front: "dropWhile P (rev (dropWhile P (rev t))) = rev (dropWhile P (rev t))" if "dropWhile P t = t" for P and t :: string
  proof (cases t)
    case (Cons a as)
    then have "\<not> P a" using that by (metis dropWhile_eq_self_iff list.distinct(1) list.sel(1))
    then show ?thesis using Cons by (simp add: dropWhile_append)
  qed simp
  show ?thesis using front [of is_whitespace "trim_start s"] by (simp add: trim_def trim_start_def)
qed

end
