(* ===== verification/Canonical.thy ===== *)
theory Canonical
  imports Prelude
begin

text \<open>
  \<^verbatim>\<open>src/canonical.rs\<close>: the byte key whose order is the RFC 4034 6.1 canonical name order. The
  key is written one label at a time from the rightmost, each octet lower-cased, a NUL octet
  escaped as 00 01 and every label ended by 00 00. The lemmas show that comparing keys octet by
  octet is comparing names canonically, that a key is a prefix of another exactly when its name
  is an ancestor, and that two names share a key exactly when they are equal up to case. The
  locale \<open>name_order_key\<close> is the contract the arena layout relies on.
\<close>

section \<open>The key\<close>

definition LABEL_END :: "u8 list" where
  "LABEL_END = [0, 0]"

definition ESCAPED_NUL :: "u8 list" where
  "ESCAPED_NUL = [0, 1]"

fun write_octets :: "label \<Rightarrow> u8 list \<Rightarrow> u8 list" where
  "write_octets [] key = key"
| "write_octets (octet # rest) key =
     (let octet = to_ascii_lowercase octet
      in write_octets rest (if octet = 0 then key @ ESCAPED_NUL else key @ [octet]))"

fun write_labels :: "label list \<Rightarrow> u8 list \<Rightarrow> u8 list" where
  "write_labels [] key = key"
| "write_labels (label # rest) key = write_labels rest (write_octets label key @ LABEL_END)"

definition write_canonical_sort_key :: "name \<Rightarrow> u8 list \<Rightarrow> u8 list" where
  "write_canonical_sort_key name key = write_labels (rev name) key"

abbreviation canonical_key_of :: "name \<Rightarrow> u8 list" where
  "canonical_key_of n \<equiv> write_canonical_sort_key n []"

section \<open>The order it has to reproduce\<close>

text \<open>
  RFC 4034 6.1: labels are compared from the rightmost, each as a string of lower-cased octets
  in which the absence of an octet sorts first. On lists that is the lexicographic order of the
  reversed label lists.
\<close>

definition canonical_less :: "name \<Rightarrow> name \<Rightarrow> bool" where
  "canonical_less a b \<longleftrightarrow> rev (lower_name a) < rev (lower_name b)"

section \<open>The key as a function of the labels\<close>

fun escaped :: "label \<Rightarrow> u8 list" where
  "escaped [] = []"
| "escaped (c # cs) = (if c = 0 then [0, 1] else [c]) @ escaped cs"

definition enc_label :: "label \<Rightarrow> u8 list" where
  "enc_label l = escaped l @ [0, 0]"

lemma write_octets_eq: "write_octets l key = key @ escaped (map to_ascii_lowercase l)"
  by (induction l arbitrary: key) (auto simp: ESCAPED_NUL_def Let_def)

lemma write_labels_eq:
  "write_labels ls key = key @ concat (map (\<lambda>l. enc_label (map to_ascii_lowercase l)) ls)"
  by (induction ls arbitrary: key) (auto simp: write_octets_eq enc_label_def LABEL_END_def)

lemma canonical_key_append:
  "write_canonical_sort_key n key = key @ canonical_key_of n"
  by (simp add: write_canonical_sort_key_def write_labels_eq)

lemma canonical_key_eq:
  "canonical_key_of n = concat (map enc_label (rev (lower_name n)))"
  by (simp add: write_canonical_sort_key_def write_labels_eq lower_name_def rev_map comp_def)

section \<open>One label against one label\<close>

lemma enc_label_less:
  "enc_label l @ x < enc_label m @ y \<longleftrightarrow> l < m \<or> l = m \<and> x < y"
proof (induction l arbitrary: m)
  case Nil
  show ?case
  proof (cases m)
    case (Cons d ds)
    have "d \<noteq> 0 \<Longrightarrow> 0 < d" by (simp add: word_neq_0_conv)
    with Cons show ?thesis by (auto simp: enc_label_def)
  qed (simp add: enc_label_def)
next
  case (Cons c cs)
  show ?case
  proof (cases m)
    case Nil
    then show ?thesis by (auto simp: enc_label_def)
  next
    case (Cons d ds)
    then show ?thesis
      using Cons.IH [of ds] by (auto simp: enc_label_def word_neq_0_conv)
  qed
qed

lemma enc_label_prefix:
  "prefix (enc_label l @ x) (enc_label m @ y) \<longleftrightarrow> l = m \<and> prefix x y"
proof (induction l arbitrary: m)
  case Nil
  show ?case by (cases m) (auto simp: enc_label_def)
next
  case (Cons c cs)
  show ?case
  proof (cases m)
    case Nil
    then show ?thesis by (auto simp: enc_label_def)
  next
    case (Cons d ds)
    then show ?thesis using Cons.IH [of ds] by (auto simp: enc_label_def)
  qed
qed

lemma enc_label_not_Nil [simp]: "enc_label l \<noteq> []"
  by (simp add: enc_label_def)

section \<open>Label lists\<close>

lemma Nil_less_iff: "([] :: 'a::linorder list) < xs \<longleftrightarrow> xs \<noteq> []"
  by (cases xs) auto

lemma append_not_less_self: "\<not> xs @ zs < (xs :: 'a::linorder list)"
  by (induction xs) auto

lemma enc_labels_less:
  "concat (map enc_label ls) < concat (map enc_label ms) \<longleftrightarrow> ls < ms"
proof (induction ls arbitrary: ms)
  case Nil
  show ?case by (cases ms) (auto simp: Nil_less_iff)
next
  case (Cons l ls)
  show ?case
  proof (cases ms)
    case (Cons m ms')
    then show ?thesis using Cons.IH [of ms'] by (auto simp: enc_label_less)
  qed simp
qed

lemma enc_labels_prefix:
  "prefix (concat (map enc_label ls)) (concat (map enc_label ms)) \<longleftrightarrow> prefix ls ms"
proof (induction ls arbitrary: ms)
  case (Cons l ls)
  show ?case
  proof (cases ms)
    case (Cons m ms')
    then show ?thesis using Cons.IH [of ms'] by (auto simp: enc_label_prefix)
  qed simp
qed simp

lemma key_less_iff: "canonical_key_of a < canonical_key_of b \<longleftrightarrow> canonical_less a b"
  by (simp add: canonical_key_eq enc_labels_less canonical_less_def)

lemma key_prefix_iff: "prefix (canonical_key_of a) (canonical_key_of b) \<longleftrightarrow> suffix (lower_name a) (lower_name b)"
  by (simp add: canonical_key_eq enc_labels_prefix suffix_to_prefix)

lemma key_eq_iff: "canonical_key_of a = canonical_key_of b \<longleftrightarrow> lower_name a = lower_name b"
  by (metis key_prefix_iff prefix_order.eq_iff suffix_order.eq_iff)

lemma prefix_between:
  fixes p :: "'a::linorder list"
  shows "prefix p x \<Longrightarrow> p \<le> y \<Longrightarrow> y \<le> x \<Longrightarrow> prefix p y"
proof (induction p arbitrary: x y)
  case (Cons c p)
  from Cons.prems(1) obtain x' where x: "x = c # x'" "prefix p x'"
    by (cases x) auto
  with Cons.prems obtain y' where "y = c # y'" "p \<le> y'" "y' \<le> x'"
    by (cases y) auto
  with Cons.IH x show ?case by auto
qed simp

section \<open>The contract of a sort key\<close>

text \<open>
  What a client that sorts by the key may rely on: the key orders names as \<open>less\<close> does, and a
  key extends another exactly when its name lies below the other's.
\<close>

locale name_order_key =
  fixes key :: "'n \<Rightarrow> 'b::linorder list"
    and less :: "'n \<Rightarrow> 'n \<Rightarrow> bool"
    and below :: "'n \<Rightarrow> 'n \<Rightarrow> bool"
  assumes key_orders: "key a < key b \<longleftrightarrow> less a b"
    and key_nests: "prefix (key a) (key b) \<longleftrightarrow> below a b"
begin

lemma below_not_less: "below a b \<Longrightarrow> \<not> less b a"
proof
  assume "below a b" and "less b a"
  then have "prefix (key a) (key b)" and "key b < key a"
    by (simp_all add: key_nests key_orders)
  then obtain z where "key b = key a @ z" by (auto elim: prefixE)
  with \<open>key b < key a\<close> show False by (simp add: append_not_less_self)
qed

lemma between_below:
  assumes "below a c" and "\<not> less b a" and "\<not> less c b"
  shows "below a b"
proof -
  from assms have "prefix (key a) (key c)" and "key a \<le> key b" and "key b \<le> key c"
    by (auto simp: key_nests key_orders [symmetric])
  then have "prefix (key a) (key b)" by (rule prefix_between)
  then show ?thesis by (simp add: key_nests)
qed

end

interpretation canon: name_order_key canonical_key_of canonical_less
  "\<lambda>a b. suffix (lower_name a) (lower_name b)"
  by unfold_locales (simp_all add: key_less_iff key_prefix_iff)

text \<open>C9: the key is the canonical order. Keys appended to buffers that held the same octets compare as
  RFC 4034 6.1 orders the names, whatever octets their labels hold, NUL included; equal keys mean names
  equal up to case, and one key extends another exactly when its name lies at or below the other's, so
  the descendants of a name are one run of the sorted names.\<close>

theorem canonical_key_order:
  "(write_canonical_sort_key a key < write_canonical_sort_key b key \<longleftrightarrow> canonical_less a b) \<and>
   (write_canonical_sort_key a key = write_canonical_sort_key b key \<longleftrightarrow> lower_name a = lower_name b) \<and>
   (prefix (write_canonical_sort_key a key) (write_canonical_sort_key b key) \<longleftrightarrow> suffix (lower_name a) (lower_name b))"
proof -
  have "write_canonical_sort_key n key = key @ canonical_key_of n" for n by (rule canonical_key_append)
  moreover have "key @ x < key @ y \<longleftrightarrow> x < y" for x y :: "u8 list" by (induction key) simp_all
  ultimately show ?thesis using canon.key_orders canon.key_nests key_eq_iff by simp
qed

end
