(* ===== verification/Hickory.thy ===== *)
theory Hickory
  imports Prelude
begin

text \<open>
  What the sources use of their third-party crates, as one record of functions that every
  definition relying on them takes as its argument: hickory's name type and parsers, and
  hashbrown's \<^verbatim>\<open>HashTable::find\<close>. A domain name is its list of labels, leftmost first,
  each a list of octets; every name the sources build is fully qualified, so the flag is not
  kept. A record type is its 16-bit code point: the sources observe a \<^verbatim>\<open>RecordType\<close> only by
  equality, by \<^verbatim>\<open>u16::from\<close> and by \<^verbatim>\<open>is_any\<close>. The order of \<^verbatim>\<open>LowerName\<close> is documented as the
  RFC 4034 6.1 canonical order.

  \<open>hickory_ok\<close> collects the documented behaviour the correctness of the sources rests on. It
  is a hypothesis of the theorems that need it, and \<open>demo_hickory\<close> is a concrete instance.
\<close>

section \<open>Data\<close>

datatype ip_addr = V4 u32 | V6 u128

type_synonym rtype = u16

abbreviation RT_A :: rtype where "RT_A \<equiv> 1"
abbreviation RT_NS :: rtype where "RT_NS \<equiv> 2"
abbreviation RT_CNAME :: rtype where "RT_CNAME \<equiv> 5"
abbreviation RT_SOA :: rtype where "RT_SOA \<equiv> 6"
abbreviation RT_TXT :: rtype where "RT_TXT \<equiv> 16"
abbreviation RT_AAAA :: rtype where "RT_AAAA \<equiv> 28"
abbreviation RT_OPT :: rtype where "RT_OPT \<equiv> 41"
abbreviation RT_TSIG :: rtype where "RT_TSIG \<equiv> 250"
abbreviation RT_IXFR :: rtype where "RT_IXFR \<equiv> 251"
abbreviation RT_AXFR :: rtype where "RT_AXFR \<equiv> 252"
abbreviation RT_ANY :: rtype where "RT_ANY \<equiv> 255"
abbreviation RT_ZERO :: rtype where "RT_ZERO \<equiv> 0"

datatype rdata =
    RD_A u32
  | RD_AAAA u128
  | RD_NS name
  | RD_CNAME name
  | RD_PTR name
  | RD_MX u16 name
  | RD_SRV u16 u16 u16 name
  | RD_SOA name name u32 i32 i32 i32 u32
  | RD_TXT "u8 list list"
  | RD_HINFO "u8 list" "u8 list"
  | RD_OTHER rtype "u8 list"

record dns_record =
  rec_name :: name
  rec_ttl :: u32
  rec_data :: rdata

definition from_rdata :: "name \<Rightarrow> u32 \<Rightarrow> rdata \<Rightarrow> dns_record" where
  "from_rdata n t d = \<lparr>rec_name = n, rec_ttl = t, rec_data = d\<rparr>"

section \<open>The functions of the crates\<close>

record hickory =
  lower_from :: "name \<Rightarrow> name"
  zone_of :: "name \<Rightarrow> name \<Rightarrow> bool"
  lower_less :: "name \<Rightarrow> name \<Rightarrow> bool"
  base_name :: "name \<Rightarrow> name"
  prepend_label :: "name \<Rightarrow> label \<Rightarrow> name option"
  name_from_str :: "string \<Rightarrow> name option"
  name_parse :: "string \<Rightarrow> name \<Rightarrow> name option"
  num_labels :: "name \<Rightarrow> nat"
  name_len :: "name \<Rightarrow> nat"
  rtype_from_str :: "string \<Rightarrow> rtype option"
  rdata_from_str :: "rtype \<Rightarrow> string \<Rightarrow> rdata option"
  rdata_wire_len :: "rdata \<Rightarrow> nat option"
  table_find :: "(u64 \<times> u32) list \<Rightarrow> u64 \<Rightarrow> (u32 \<Rightarrow> bool) \<Rightarrow> u32 option"

section \<open>The documented behaviour\<close>

text \<open>RFC 1035 2.3.4 and 3.1: a name of 255 octets has at most 127 labels.\<close>

definition valid_name :: "name \<Rightarrow> bool" where
  "valid_name n \<longleftrightarrow> length n \<le> 127"

definition lower_ok :: "hickory \<Rightarrow> bool" where
  "lower_ok E \<longleftrightarrow> (\<forall>n. lower_from E n = lower_name n)"

definition zone_of_ok :: "hickory \<Rightarrow> bool" where
  "zone_of_ok E \<longleftrightarrow> (\<forall>a b. is_lower a \<longrightarrow> is_lower b \<longrightarrow> zone_of E a b = suffix a b)"

definition lower_less_ok :: "hickory \<Rightarrow> bool" where
  "lower_less_ok E \<longleftrightarrow> (\<forall>a b. is_lower a \<longrightarrow> is_lower b \<longrightarrow> lower_less E a b = (rev a < rev b))"

definition base_name_ok :: "hickory \<Rightarrow> bool" where
  "base_name_ok E \<longleftrightarrow> (\<forall>n. base_name E n = tl n)"

definition prepend_label_ok :: "hickory \<Rightarrow> bool" where
  "prepend_label_ok E \<longleftrightarrow> (\<forall>n l m. prepend_label E n l = Some m \<longrightarrow> m = l # n \<and> valid_name m)"

definition name_from_str_ok :: "hickory \<Rightarrow> bool" where
  "name_from_str_ok E \<longleftrightarrow> (\<forall>s n. name_from_str E s = Some n \<longrightarrow> valid_name n)"

definition name_parse_ok :: "hickory \<Rightarrow> bool" where
  "name_parse_ok E \<longleftrightarrow> (\<forall>s orig n. s \<noteq> [] \<longrightarrow> last s \<noteq> CHR ''.'' \<longrightarrow> name_parse E s orig = Some n
     \<longrightarrow> valid_name n \<and> suffix orig n)"

text \<open>A parsed value carries the type it was parsed for, and the names inside it fit the wire.\<close>

definition rdata_ok :: "hickory \<Rightarrow> bool" where
  "rdata_ok E \<longleftrightarrow> (\<forall>t s d. rdata_from_str E t s = Some d \<longrightarrow>
     (case d of RD_CNAME n \<Rightarrow> t = RT_CNAME \<and> valid_name n | RD_NS n \<Rightarrow> t = RT_NS \<and> valid_name n
      | _ \<Rightarrow> t \<noteq> RT_NS \<and> t \<noteq> RT_CNAME))"

text \<open>
  \<^verbatim>\<open>HashTable::find(hash, eq)\<close>: what it returns is an entry that satisfies \<open>eq\<close>; an entry that
  was inserted under \<open>hash\<close> and satisfies \<open>eq\<close> is not missed.
\<close>

definition table_find_ok :: "hickory \<Rightarrow> bool" where
  "table_find_ok E \<longleftrightarrow>
     (\<forall>t h p i. table_find E t h p = Some i \<longrightarrow> i \<in> snd ` set t \<and> p i) \<and>
     (\<forall>t h p. table_find E t h p = None \<longrightarrow> (\<forall>i. (h, i) \<in> set t \<longrightarrow> \<not> p i))"

definition hickory_ok :: "hickory \<Rightarrow> bool" where
  "hickory_ok E \<longleftrightarrow> lower_ok E \<and> zone_of_ok E \<and> lower_less_ok E \<and> base_name_ok E \<and> prepend_label_ok E \<and>
     name_from_str_ok E \<and> name_parse_ok E \<and> rdata_ok E \<and> table_find_ok E"

named_theorems hickory_laws

lemma lower_from_eq [hickory_laws, simp]: "hickory_ok E \<Longrightarrow> lower_from E n = lower_name n"
  by (simp add: hickory_ok_def lower_ok_def)

lemma zone_of_eq [hickory_laws]:
  "hickory_ok E \<Longrightarrow> is_lower a \<Longrightarrow> is_lower b \<Longrightarrow> zone_of E a b \<longleftrightarrow> suffix a b"
  by (simp add: hickory_ok_def zone_of_ok_def)

lemma lower_less_eq [hickory_laws]:
  "hickory_ok E \<Longrightarrow> is_lower a \<Longrightarrow> is_lower b \<Longrightarrow> lower_less E a b \<longleftrightarrow> rev a < rev b"
  by (simp add: hickory_ok_def lower_less_ok_def)

lemma base_name_eq [hickory_laws, simp]: "hickory_ok E \<Longrightarrow> base_name E n = tl n"
  by (simp add: hickory_ok_def base_name_ok_def)

lemma prepend_label_Some [hickory_laws]:
  "hickory_ok E \<Longrightarrow> prepend_label E n l = Some m \<Longrightarrow> m = l # n \<and> valid_name m"
  by (simp add: hickory_ok_def prepend_label_ok_def)

lemma name_from_str_valid [hickory_laws]:
  "hickory_ok E \<Longrightarrow> name_from_str E s = Some n \<Longrightarrow> valid_name n"
  by (simp add: hickory_ok_def name_from_str_ok_def)

lemma name_parse_valid [hickory_laws]:
  "hickory_ok E \<Longrightarrow> s \<noteq> [] \<Longrightarrow> last s \<noteq> CHR ''.'' \<Longrightarrow> name_parse E s orig = Some n
     \<Longrightarrow> valid_name n \<and> suffix orig n"
  unfolding hickory_ok_def name_parse_ok_def by blast

lemma rdata_cname_valid [hickory_laws]:
  "hickory_ok E \<Longrightarrow> rdata_from_str E t s = Some (RD_CNAME n) \<Longrightarrow> t = RT_CNAME \<and> length n \<le> 127"
  and rdata_ns_valid [hickory_laws]:
  "hickory_ok E \<Longrightarrow> rdata_from_str E t s = Some (RD_NS n) \<Longrightarrow> t = RT_NS \<and> length n \<le> 127"
  unfolding hickory_ok_def rdata_ok_def valid_name_def by fastforce+

lemma rdata_ns_form [hickory_laws]:
  "hickory_ok E \<Longrightarrow> rdata_from_str E RT_NS s = Some d \<Longrightarrow> \<exists>n. d = RD_NS n"
  unfolding hickory_ok_def rdata_ok_def by (cases d) fastforce+

lemma table_find_Some [hickory_laws]:
  "hickory_ok E \<Longrightarrow> table_find E t h p = Some i \<Longrightarrow> i \<in> snd ` set t \<and> p i"
  unfolding hickory_ok_def table_find_ok_def by blast

lemma table_find_None [hickory_laws]:
  "hickory_ok E \<Longrightarrow> table_find E t h p = None \<Longrightarrow> (h, i) \<in> set t \<Longrightarrow> \<not> p i"
  unfolding hickory_ok_def table_find_ok_def by blast

section \<open>A concrete instance\<close>

text \<open>
  An executable stand-in for the crates on plain ASCII input: names are split at dots, the
  value parser knows the presentation forms of the few types the witnesses use, and the table
  is searched in insertion order. It satisfies every law above.
\<close>

fun split_dots :: "string \<Rightarrow> string \<Rightarrow> string list" where
  "split_dots acc [] = (if acc = [] then [] else [rev acc])"
| "split_dots acc (c # cs) =
     (if c = CHR ''.'' then (if acc = [] then split_dots [] cs else rev acc # split_dots [] cs)
      else split_dots (c # acc) cs)"

definition octets :: "string \<Rightarrow> label" where
  "octets s = map (\<lambda>c. of_nat (of_char c)) s"

definition demo_name :: "string \<Rightarrow> name option" where
  "demo_name s = (let n = map octets (split_dots [] s) in if length n \<le> 127 then Some n else None)"

definition demo_rtype :: "string \<Rightarrow> rtype option" where
  "demo_rtype s = map_of [(''A'', RT_A), (''NS'', RT_NS), (''CNAME'', RT_CNAME), (''SOA'', RT_SOA),
     (''TXT'', RT_TXT), (''AAAA'', RT_AAAA)] s"

definition demo_rdata :: "rtype \<Rightarrow> string \<Rightarrow> rdata option" where
  "demo_rdata t s =
     (if t = RT_A then Some (RD_A (of_nat (length s)))
      else if t = RT_AAAA then Some (RD_AAAA (of_nat (length s)))
      else if t = RT_NS then map_option RD_NS (demo_name s)
      else if t = RT_CNAME then map_option RD_CNAME (demo_name s)
      else if t = RT_TXT then Some (RD_TXT [octets s])
      else None)"

definition demo_hickory :: hickory where
  "demo_hickory = \<lparr>
     lower_from = lower_name,
     zone_of = suffix,
     lower_less = (\<lambda>a b. rev a < rev b),
     base_name = tl,
     prepend_label = (\<lambda>n l. if length n < 127 then Some (l # n) else None),
     name_from_str = demo_name,
     name_parse = (\<lambda>s orig. let n = map octets (split_dots [] s) @ orig
                            in if length n \<le> 127 then Some n else None),
     num_labels = (\<lambda>n. case n of [] \<Rightarrow> 0 | l # m \<Rightarrow> if l = [42] then length m else length n),
     name_len = (\<lambda>n. sum_list (map (\<lambda>l. length l + 1) n)),
     rtype_from_str = demo_rtype,
     rdata_from_str = demo_rdata,
     rdata_wire_len = (\<lambda>d. case d of RD_OTHER t bs \<Rightarrow> Some (length bs) | _ \<Rightarrow> None),
     table_find = (\<lambda>t h p. map_option snd (find (\<lambda>e. fst e = h \<and> p (snd e)) t))\<rparr>"

lemma demo_hickory_ok: "hickory_ok demo_hickory"
proof -
  have "table_find_ok demo_hickory"
    unfolding table_find_ok_def demo_hickory_def
    by (auto simp: find_Some_iff find_None_iff image_iff) (metis nth_mem snd_conv)+
  moreover have "rdata_ok demo_hickory"
    unfolding rdata_ok_def demo_hickory_def
    by (auto simp: demo_rdata_def demo_name_def valid_name_def Let_def split: if_splits)
  ultimately show ?thesis
    unfolding hickory_ok_def
    by (auto simp: lower_ok_def zone_of_ok_def lower_less_ok_def base_name_ok_def prepend_label_ok_def
        name_from_str_ok_def name_parse_ok_def demo_hickory_def demo_name_def valid_name_def
        Let_def suffix_def split: if_splits)
qed

end
