(* ===== verification/Zone_Data.thy ===== *)
theory Zone_Data
  imports Canonical Hickory
begin

text \<open>
  \<^verbatim>\<open>src/zone.rs\<close>, the data: node indices and flags, the per-label suffix hash, the answer type,
  and the zone as three arenas (nodes, RRsets, RDATA) with 32-bit spans between them and a hash
  index over the owner names. Shown here: one reverse pass over a name fills the hash of every
  suffix, and the flag operations read back exactly what was set.
\<close>

section \<open>Constants and small types\<close>

definition MAX_CNAME_DEPTH :: nat where "MAX_CNAME_DEPTH = 8"
definition MAX_LABELS :: nat where "MAX_LABELS = 127"
definition WILDCARD_LABEL :: label where "WILDCARD_LABEL = [42]"

definition label_count :: "name \<Rightarrow> nat" where
  "label_count n = length n"

type_synonym node_idx = u32

definition APEX :: node_idx where "APEX = 0"
definition NONE_IDX :: node_idx where "NONE_IDX = - 1"

definition is_none_idx :: "node_idx \<Rightarrow> bool" where
  "is_none_idx i \<longleftrightarrow> i = NONE_IDX"

definition idx_get :: "node_idx \<Rightarrow> nat" where
  "idx_get i = unat i"

type_synonym span = "u32 \<times> u32"

definition span_start :: "span \<Rightarrow> nat" where "span_start r = unat (fst r)"
definition span_end :: "span \<Rightarrow> nat" where "span_end r = unat (snd r)"

definition span_get :: "'a list \<Rightarrow> span \<Rightarrow> 'a list option" where
  "span_get xs r = slice_get xs (span_start r) (span_end r)"

type_synonym node_flags = u8

definition FLAG_NONE :: node_flags where "FLAG_NONE = 0"
definition DELEGATION :: node_flags where "DELEGATION = push_bit 1 1"
definition WILDCARD :: node_flags where "WILDCARD = push_bit 2 1"
definition HAS_CNAME :: node_flags where "HAS_CNAME = push_bit 3 1"
definition GLUE :: node_flags where "GLUE = push_bit 4 1"

definition flags_contains :: "node_flags \<Rightarrow> node_flags \<Rightarrow> bool" where
  "flags_contains self other \<longleftrightarrow> self AND other = other"

definition flags_insert :: "node_flags \<Rightarrow> node_flags \<Rightarrow> node_flags" where
  "flags_insert self other = self OR other"

section \<open>Hashing\<close>

definition FNV_PRIME :: u64 where "FNV_PRIME = 0x00000100000001b3"
definition GOLDEN :: u64 where "GOLDEN = 0x9e3779b97f4a7c15"

fun mix_octets :: "u64 \<Rightarrow> label \<Rightarrow> u64" where
  "mix_octets hash [] = hash"
| "mix_octets hash (octet # rest) = mix_octets ((hash XOR ucast octet) * FNV_PRIME) rest"

definition mix_label :: "u64 \<Rightarrow> label \<Rightarrow> u64" where
  "mix_label state label = (let hash = mix_octets state label * GOLDEN in hash XOR drop_bit 31 hash)"

fun mix_labels :: "u64 \<Rightarrow> label list \<Rightarrow> u64" where
  "mix_labels hash [] = hash"
| "mix_labels hash (label # rest) = mix_labels (mix_label hash label) rest"

definition name_hash :: "u64 \<Rightarrow> name \<Rightarrow> u64" where
  "name_hash seed n = mix_labels seed (rev n)"

record suffix_hashes =
  sh_h :: "u64 list"
  sh_labels :: nat

fun fill_hashes :: "label list \<Rightarrow> nat \<Rightarrow> u64 list \<Rightarrow> u64 list" where
  "fill_hashes [] filled h = h"
| "fill_hashes (label # rest) filled h =
     (let next_hash = mix_label (h ! filled) label
      in fill_hashes rest (filled + 1) (h[filled + 1 := next_hash]))"

definition suffix_hashes_new :: "u64 \<Rightarrow> name \<Rightarrow> suffix_hashes" where
  "suffix_hashes_new seed n = \<lparr>
     sh_h = fill_hashes (take MAX_LABELS (rev n)) 0 (replicate (MAX_LABELS + 1) seed),
     sh_labels = label_count n\<rparr>"

definition hash_at :: "suffix_hashes \<Rightarrow> nat \<Rightarrow> u64 option" where
  "hash_at hs depth = (if sh_labels hs < depth \<or> MAX_LABELS < depth then None else list_get (sh_h hs) depth)"

section \<open>Answers and the zone\<close>

datatype answer =
    Records "dns_record list"
  | Referral "dns_record list" "dns_record list" "dns_record list"
  | NoData
  | NxDomain

definition is_authoritative :: "answer \<Rightarrow> bool" where
  "is_authoritative a = (case a of Referral answers _ _ \<Rightarrow> answers \<noteq> [] | _ \<Rightarrow> True)"

record rrset =
  rr_type :: rtype
  rr_ttl :: u32
  rr_rdata :: span

record node =
  node_name :: name
  node_rrsets :: span
  node_cut :: node_idx
  node_flags :: node_flags

record referral_data =
  ref_authority :: "dns_record list"
  ref_additional :: "dns_record list"

datatype diagnostic = Occluded name rtype | MissingGlue name name

record zone =
  lower_origin :: name
  default_ttl :: u32
  soa :: dns_record
  nodes :: "node list"
  rrsets :: "rrset list"
  rdatas :: "rdata list"
  index :: "(u64 \<times> u32) list"
  hash_seed :: u64
  origin_depth :: u8
  max_depth :: u8
  referrals :: "u32 \<Rightarrow> referral_data option"
  diagnostics :: "diagnostic list"
  record_count :: nat

definition contains :: "hickory \<Rightarrow> zone \<Rightarrow> name \<Rightarrow> bool" where
  "contains E Z n = zone_of E (lower_origin Z) n"

datatype finding =
    TwoTtls name rtype
  | SoaNotApex name
  | WildcardNs name
  | CnameAlongside name "rtype list"
  | ManyCnames name nat
  | SoaTwice
  | ManySoa nat
  | MissingSoa
  | MissingApexNs

datatype zone_error =
    InvalidName string
  | NotInZone string
  | UnknownRecordType string
  | NoValues string string
  | InvalidValue string string string
  | ValueTooLong rtype string nat
  | CannotBeServed "finding list"
  | MissingSoaRecord
  | TooLarge nat

definition depth_byte :: "nat \<Rightarrow> u8" where
  "depth_byte depth = of_nat (min depth MAX_LABELS)"

definition arena_offset :: "nat \<Rightarrow> zone_error + u32" where
  "arena_offset len = (if int len < 2 ^ 32 then Inr (of_nat len) else Inl (TooLarge len))"

section \<open>Lemmas\<close>

lemmas flag_defs = FLAG_NONE_def DELEGATION_def WILDCARD_def HAS_CNAME_def GLUE_def

lemma single_bit: "f AND 2 ^ k = 2 ^ k \<longleftrightarrow> bit f k" if "k < 8" for f :: u8
proof
  assume "f AND 2 ^ k = 2 ^ k"
  then have "bit (f AND 2 ^ k) k = bit (2 ^ k :: u8) k" by simp
  with that show "bit f k" by (auto simp: bit_simps)
next
  assume "bit f k"
  then show "f AND 2 ^ k = 2 ^ k" by (intro bit_word_eqI) (auto simp: bit_simps)
qed

lemma flags_contains_bit [simp]:
  "flags_contains f DELEGATION \<longleftrightarrow> bit f 1"
  "flags_contains f WILDCARD \<longleftrightarrow> bit f 2"
  "flags_contains f HAS_CNAME \<longleftrightarrow> bit f 3"
  "flags_contains f GLUE \<longleftrightarrow> bit f 4"
  using single_bit [of 1 f] single_bit [of 2 f] single_bit [of 3 f] single_bit [of 4 f]
  by (simp_all add: flags_contains_def flag_defs)

lemma flags_insert_bit [simp]:
  "bit (flags_insert f WILDCARD) j \<longleftrightarrow> bit f j \<or> j = 2"
  "bit (flags_insert f HAS_CNAME) j \<longleftrightarrow> bit f j \<or> j = 3"
  using bit_exp_iff [where 'a = u8, of 2 j] bit_exp_iff [where 'a = u8, of 3 j]
  by (auto simp: flags_insert_def flag_defs bit_or_iff)

lemma flag_bits [simp]:
  "bit DELEGATION j \<longleftrightarrow> j = 1" "bit GLUE j \<longleftrightarrow> j = 4" "\<not> bit FLAG_NONE j"
  using bit_exp_iff [where 'a = u8, of 1 j] bit_exp_iff [where 'a = u8, of 4 j]
  by (auto simp: flag_defs)

lemma arena_offset_Inr: "arena_offset n = Inr i \<longleftrightarrow> n < 2 ^ 32 \<and> i = of_nat n"
  by (auto simp: arena_offset_def)

lemma unat_arena_offset: "arena_offset n = Inr i \<Longrightarrow> unat i = n"
  by (auto simp: arena_offset_Inr unat_of_nat)

lemma depth_byte_unat [simp]: "unat (depth_byte d) = min d 127"
  by (simp add: depth_byte_def MAX_LABELS_def unat_of_nat)

lemma span_get_arena:
  "arena_offset a = Inr i \<Longrightarrow> arena_offset b = Inr j \<Longrightarrow> span_get xs (i, j) = slice_get xs a b"
  by (simp add: span_get_def span_start_def span_end_def unat_arena_offset)

section \<open>One reverse pass fills every suffix hash\<close>

lemma mix_labels_append: "mix_labels s (xs @ ys) = mix_labels (mix_labels s xs) ys"
  by (induction xs arbitrary: s) auto

lemma mix_labels_snoc: "mix_labels s (xs @ [l]) = mix_label (mix_labels s xs) l"
  by (simp add: mix_labels_append)

lemma fill_hashes_inv:
  assumes "k + length ls < length h" and "\<forall>i \<le> k. h ! i = mix_labels seed (take i done)"
    and "length done = k"
  shows "\<forall>i \<le> k + length ls. fill_hashes ls k h ! i = mix_labels seed (take i (done @ ls))"
  using assms
proof (induction ls arbitrary: k h "done")
  case (Cons l ls)
  let ?h = "h[k + 1 := mix_label (h ! k) l]"
  have hk: "h ! k = mix_labels seed done" using Cons.prems by simp
  have "\<forall>i \<le> k + 1. ?h ! i = mix_labels seed (take i (done @ [l]))"
  proof (intro allI impI)
    fix i
    assume "i \<le> k + 1"
    then consider "i \<le> k" | "i = k + 1" by linarith
    then show "?h ! i = mix_labels seed (take i (done @ [l]))"
    proof cases
      case 1
      then show ?thesis using Cons.prems by simp
    next
      case 2
      then show ?thesis using Cons.prems hk by (simp add: mix_labels_snoc)
    qed
  qed
  then show ?case
    using Cons.IH [of "k + 1" ?h "done @ [l]"] Cons.prems by (simp add: Let_def)
qed simp

lemma length_fill_hashes [simp]: "length (fill_hashes ls k h) = length h"
  by (induction ls arbitrary: k h) (auto simp: Let_def)

lemma hash_at_suffix:
  assumes "length n \<le> MAX_LABELS" and "d \<le> length n"
  shows "hash_at (suffix_hashes_new seed n) d = Some (name_hash seed (drop (length n - d) n))"
proof -
  let ?h = "fill_hashes (rev n) 0 (replicate (MAX_LABELS + 1) seed)"
  have "\<forall>i \<le> 0 + length (rev n). ?h ! i = mix_labels seed (take i ([] @ rev n))"
    by (rule fill_hashes_inv) (use assms in simp_all)
  then have "?h ! d = mix_labels seed (take d (rev n))" using assms by simp
  also have "take d (rev n) = rev (drop (length n - d) n)" by (simp add: take_rev)
  finally show ?thesis
    using assms by (simp add: hash_at_def suffix_hashes_new_def list_get_def label_count_def name_hash_def)
qed

lemma hash_at_beyond: "length n < d \<Longrightarrow> hash_at (suffix_hashes_new seed n) d = None"
  by (simp add: hash_at_def suffix_hashes_new_def label_count_def)

lemma sh_labels_new [simp]: "sh_labels (suffix_hashes_new seed n) = length n"
  by (simp add: suffix_hashes_new_def label_count_def)

lemma name_hash_Cons: "name_hash seed (l # n) = mix_label (name_hash seed n) l"
  by (simp add: name_hash_def mix_labels_snoc)

end
