(* ===== verification/Zone_Lookup.thy ===== *)
theory Zone_Lookup
  imports Zone_Data
begin

text \<open>
  \<^verbatim>\<open>src/zone.rs\<close>, the query path: the hash probe and its label-wise confirmation, the
  closest-encloser search by bisection, wildcard synthesis, CNAME chasing and referrals, and
  \<^verbatim>\<open>Zone::lookup\<close> over them. \<open>spec_lookup\<close> is the RFC 1034 4.3.2 / RFC 4592 3.3.1 algorithm
  on owner names alone, with no hash, no index and no bisection: zone cuts and the closest
  encloser are found by walking up the name. On a well-formed zone (\<open>zone_ok\<close>) the two agree
  on every query.
\<close>

section \<open>The probe\<close>

fun match_labels :: "nat \<Rightarrow> label list \<Rightarrow> label list \<Rightarrow> label list option" where
  "match_labels 0 node_labels query_labels = Some node_labels"
| "match_labels (Suc k) (l # ls) (r # rs) = (if eq_ignore_ascii_case l r then match_labels k ls rs else None)"
| "match_labels (Suc k) _ _ = None"

definition node_name_matches :: "name \<Rightarrow> name \<Rightarrow> nat \<Rightarrow> bool \<Rightarrow> bool" where
  "node_name_matches nname qname depth star =
     (if length nname \<noteq> depth + (if star then 1 else 0) then False
      else case match_labels depth (rev nname) (rev qname) of
             None \<Rightarrow> False
           | Some rest \<Rightarrow> \<not> star \<or> list_get rest 0 = Some WILDCARD_LABEL)"

definition probe :: "hickory \<Rightarrow> zone \<Rightarrow> u64 \<Rightarrow> (node \<Rightarrow> bool) \<Rightarrow> node_idx option" where
  "probe E Z hash matches = table_find E (index Z) hash (\<lambda>i. is_some_and (list_get (nodes Z) (unat i)) matches)"

definition node_at :: "hickory \<Rightarrow> zone \<Rightarrow> name \<Rightarrow> nat \<Rightarrow> suffix_hashes \<Rightarrow> node_idx option" where
  "node_at E Z n depth hashes =
     (case hash_at hashes depth of
        None \<Rightarrow> None
      | Some hash \<Rightarrow> probe E Z hash (\<lambda>node. node_name_matches (node_name node) n depth False))"

definition exact_node :: "hickory \<Rightarrow> zone \<Rightarrow> name \<Rightarrow> suffix_hashes \<Rightarrow> node_idx option" where
  "exact_node E Z n hashes = node_at E Z n (sh_labels hashes) hashes"

definition wildcard_node :: "hickory \<Rightarrow> zone \<Rightarrow> name \<Rightarrow> nat \<Rightarrow> suffix_hashes \<Rightarrow> node_idx option" where
  "wildcard_node E Z n depth hashes =
     (case hash_at hashes depth of
        None \<Rightarrow> None
      | Some h \<Rightarrow>
          (let hash = mix_label h WILDCARD_LABEL
           in probe E Z hash (\<lambda>node. flags_contains (node_flags node) WILDCARD
                                \<and> node_name_matches (node_name node) n depth True)))"

definition rrsets_of :: "zone \<Rightarrow> node \<Rightarrow> rtype \<Rightarrow> rrset list" where
  "rrsets_of Z node want =
     (case span_get (rrsets Z) (node_rrsets node) of
        None \<Rightarrow> []
      | Some all_sets \<Rightarrow>
          (let lo = partition_point (\<lambda>r. rr_type r < want) all_sets;
               hi = partition_point (\<lambda>r. rr_type r \<le> want) all_sets
           in unwrap_or [] (slice_get all_sets lo hi)))"

fun emit :: "zone \<Rightarrow> rrset list \<Rightarrow> name \<Rightarrow> dns_record list \<Rightarrow> dns_record list" where
  "emit Z [] owner out = out"
| "emit Z (rrset # run) owner out =
     (case span_get (rdatas Z) (rr_rdata rrset) of
        None \<Rightarrow> emit Z run owner out
      | Some vals \<Rightarrow> emit Z run owner (out @ map (from_rdata owner (rr_ttl rrset)) vals))"

definition first_value :: "zone \<Rightarrow> rrset list \<Rightarrow> rdata option" where
  "first_value Z run =
     (case run of
        [] \<Rightarrow> None
      | r # _ \<Rightarrow> (case span_get (rdatas Z) (rr_rdata r) of None \<Rightarrow> None | Some vs \<Rightarrow> list_get vs 0))"

section \<open>The closest encloser\<close>

definition encloser_window :: "zone \<Rightarrow> nat \<Rightarrow> nat \<times> nat" where
  "encloser_window Z labels =
     (let floor = unat (origin_depth Z);
          ceiling = min (min (labels - 1) (unat (max_depth Z))) MAX_LABELS
      in (floor, ceiling))"

function bisect :: "hickory \<Rightarrow> zone \<Rightarrow> name \<Rightarrow> suffix_hashes \<Rightarrow> nat \<Rightarrow> nat \<Rightarrow> node_idx \<Rightarrow> nat \<times> node_idx" where
  "bisect E Z n hashes low high found =
     (if low < high then
        (let mid = low + (high - low + 1) div 2 in
         case node_at E Z n mid hashes of
           Some idx \<Rightarrow> bisect E Z n hashes mid high idx
         | None \<Rightarrow> bisect E Z n hashes low (mid - 1) found)
      else (low, found))"
  by pat_completeness auto
termination
  by (relation "measure (\<lambda>(E, Z, n, hashes, low, high, found). high - low)") auto

definition closest_encloser :: "hickory \<Rightarrow> zone \<Rightarrow> name \<Rightarrow> suffix_hashes \<Rightarrow> nat \<times> node_idx" where
  "closest_encloser E Z n hashes =
     (let (floor, ceiling) = encloser_window Z (sh_labels hashes) in
      if ceiling \<le> floor then (floor, APEX)
      else case node_at E Z n ceiling hashes of
             Some idx \<Rightarrow> (ceiling, idx)
           | None \<Rightarrow> bisect E Z n hashes floor (ceiling - 1) APEX)"

definition source_of_synthesis :: "hickory \<Rightarrow> zone \<Rightarrow> name \<Rightarrow> suffix_hashes \<Rightarrow> node_idx option" where
  "source_of_synthesis E Z n hashes =
     (let (depth, _) = closest_encloser E Z n hashes in wildcard_node E Z n depth hashes)"

definition exists_hashed :: "hickory \<Rightarrow> zone \<Rightarrow> name \<Rightarrow> suffix_hashes \<Rightarrow> bool" where
  "exists_hashed E Z n hashes \<longleftrightarrow>
     exact_node E Z n hashes \<noteq> None \<or> source_of_synthesis E Z n hashes \<noteq> None"

definition zone_exists :: "hickory \<Rightarrow> zone \<Rightarrow> name \<Rightarrow> bool" where
  "zone_exists E Z n = exists_hashed E Z n (suffix_hashes_new (hash_seed Z) n)"

section \<open>Resolution\<close>

datatype resolution = Res_Found | Res_Referral node_idx | Res_NoData | Res_NxDomain

definition referral :: "zone \<Rightarrow> node_idx \<Rightarrow> dns_record list \<Rightarrow> answer" where
  "referral Z idx answers =
     (case referrals Z idx of
        None \<Rightarrow> Referral answers [] []
      | Some r \<Rightarrow> Referral answers (ref_authority r) (ref_additional r))"

function resolve :: "hickory \<Rightarrow> zone \<Rightarrow> name \<Rightarrow> rtype \<Rightarrow> nat \<Rightarrow> dns_record list \<Rightarrow> resolution \<times> dns_record list" where
  "resolve E Z n record_type depth out =
     (if \<not> contains E Z n then (Res_NxDomain, out) else
      let hashes = suffix_hashes_new (hash_seed Z) n in
      case Option.bind (exact_node E Z n hashes) (\<lambda>idx. list_get (nodes Z) (idx_get idx)) of
        Some node \<Rightarrow>
          if \<not> is_none_idx (node_cut node) then (Res_Referral (node_cut node), out)
          else if record_type = RT_ANY then (Res_NoData, out)
          else
            let run = rrsets_of Z node record_type in
            if run \<noteq> [] then (Res_Found, emit Z run (node_name node) out)
            else if record_type \<noteq> RT_CNAME \<and> flags_contains (node_flags node) HAS_CNAME
                 \<and> \<not> flags_contains (node_flags node) WILDCARD
                 \<and> rrsets_of Z node RT_CNAME \<noteq> []
            then
              let cnames = rrsets_of Z node RT_CNAME;
                  out = emit Z cnames (node_name node) out in
              if MAX_CNAME_DEPTH \<le> depth then (Res_Found, out)
              else (case first_value Z cnames of
                      Some (RD_CNAME target) \<Rightarrow>
                        let target = lower_from E target in
                        if contains E Z target then
                          (case resolve E Z target record_type (depth + 1) out of
                             (Res_Referral c, out) \<Rightarrow> (Res_Referral c, out)
                           | (_, out) \<Rightarrow> (Res_Found, out))
                        else (Res_Found, out)
                    | _ \<Rightarrow> (Res_Found, out))
            else (Res_NoData, out)
      | None \<Rightarrow>
          let (encloser_depth, encloser) = closest_encloser E Z n hashes in
          if is_some_and (map_option node_cut (list_get (nodes Z) (idx_get encloser)))
               (\<lambda>c. \<not> is_none_idx c)
          then (Res_Referral (node_cut (nodes Z ! idx_get encloser)), out)
          else (case wildcard_node E Z n encloser_depth hashes of
                  None \<Rightarrow> (Res_NxDomain, out)
                | Some idx \<Rightarrow>
                    if record_type = RT_ANY then (Res_NoData, out)
                    else (case list_get (nodes Z) (idx_get idx) of
                            Some node \<Rightarrow>
                              let run = rrsets_of Z node record_type in
                              if run \<noteq> [] then (Res_Found, emit Z run n out)
                              else (Res_NoData, out)
                          | None \<Rightarrow> (Res_NoData, out))))"
  by pat_completeness auto
termination
  by (relation "measure (\<lambda>(E, Z, n, t, depth, out). MAX_CNAME_DEPTH - depth)") auto

definition lookup :: "hickory \<Rightarrow> zone \<Rightarrow> name \<Rightarrow> rtype \<Rightarrow> answer" where
  "lookup E Z n record_type =
     (case resolve E Z n record_type 0 [] of
        (Res_Found, answers) \<Rightarrow> Records answers
      | (Res_Referral c, answers) \<Rightarrow> referral Z c answers
      | (Res_NoData, _) \<Rightarrow> NoData
      | (Res_NxDomain, _) \<Rightarrow> NxDomain)"

declare bisect.simps [simp del] resolve.simps [simp del]

section \<open>The invariants the build asserts\<close>

fun adjacent_all :: "('a \<Rightarrow> 'a \<Rightarrow> bool) \<Rightarrow> 'a list \<Rightarrow> bool" where
  "adjacent_all p (a # b # xs) = (p a b \<and> adjacent_all p (b # xs))"
| "adjacent_all p _ = True"

definition assert_apex :: "hickory \<Rightarrow> zone \<Rightarrow> bool" where
  "assert_apex E Z = is_some_and (list_get (nodes Z) (idx_get APEX))
     (\<lambda>n. lower_from E (node_name n) = lower_origin Z)"

definition assert_canonical_order :: "hickory \<Rightarrow> zone \<Rightarrow> bool" where
  "assert_canonical_order E Z = adjacent_all (\<lambda>a b. lower_less E (lower_from E (node_name a))
     (lower_from E (node_name b))) (nodes Z)"

definition assert_closed :: "hickory \<Rightarrow> zone \<Rightarrow> bool" where
  "assert_closed E Z =
     (let names = map (\<lambda>n. lower_from E (node_name n)) (nodes Z)
      in list_all (\<lambda>n. n = lower_origin Z \<or> lower_from E (base_name E n) \<in> set names) names)"

definition assert_index :: "zone \<Rightarrow> bool" where
  "assert_index Z \<longleftrightarrow> length (index Z) = length (nodes Z)"

definition assert_rrsets :: "zone \<Rightarrow> bool" where
  "assert_rrsets Z = list_all (\<lambda>node. is_some_and (span_get (rrsets Z) (node_rrsets node)) (\<lambda>rs.
     adjacent_all (\<lambda>p q. rr_type p \<le> rr_type q) rs \<and>
     list_all (\<lambda>r. is_some_and (span_get (rdatas Z) (rr_rdata r)) (\<lambda>v. v \<noteq> [])) rs)) (nodes Z)"

definition assert_window :: "zone \<Rightarrow> bool" where
  "assert_window Z = (let floor = label_count (lower_origin Z) in
     list_all (\<lambda>node. floor \<le> length (node_name node) \<and> length (node_name node) \<le> unat (max_depth Z) \<and>
       floor = unat (origin_depth Z)) (nodes Z))"

definition assert_cuts :: "zone \<Rightarrow> bool" where
  "assert_cuts Z = list_all (\<lambda>(i, node).
     let delegation = flags_contains (node_flags node) DELEGATION;
         glue = flags_contains (node_flags node) GLUE;
         at_self = (int i < 2 ^ 32 \<and> node_cut node = of_nat i)
     in delegation = (\<not> is_none_idx (node_cut node) \<and> at_self) \<and>
        glue = (\<not> is_none_idx (node_cut node) \<and> \<not> at_self) \<and>
        (\<not> delegation \<or> (int i < 2 ^ 32 \<and> referrals Z (of_nat i) \<noteq> None)) \<and>
        (is_none_idx (node_cut node) \<or> idx_get (node_cut node) < length (nodes Z)))
     (enumerate 0 (nodes Z))"

definition assert_cut_above :: "hickory \<Rightarrow> zone \<Rightarrow> bool" where
  "assert_cut_above E Z = list_all (\<lambda>node. is_none_idx (node_cut node) \<or>
     is_some_and (list_get (nodes Z) (idx_get (node_cut node)))
       (\<lambda>c. zone_of E (lower_from E (node_name c)) (lower_from E (node_name node)))) (nodes Z)"

definition debug_assert_invariants :: "hickory \<Rightarrow> zone \<Rightarrow> bool" where
  "debug_assert_invariants E Z \<longleftrightarrow> assert_apex E Z \<and> assert_canonical_order E Z \<and> assert_closed E Z \<and>
     assert_index Z \<and> assert_rrsets Z \<and> assert_window Z \<and> assert_cuts Z \<and> assert_cut_above E Z"

section \<open>The reference algorithm\<close>

text \<open>
  The owner names of the zone, the node at one, the records it gives for a type, the cut that
  governs a name (the nearest delegation at or above it) and its closest encloser.
\<close>

definition owner_names :: "zone \<Rightarrow> name list" where
  "owner_names Z = map (\<lambda>nd. lower_name (node_name nd)) (nodes Z)"

definition node_named :: "zone \<Rightarrow> name \<Rightarrow> nat option" where
  "node_named Z n = position n (owner_names Z)"

definition sets_at :: "zone \<Rightarrow> node \<Rightarrow> rtype \<Rightarrow> rrset list" where
  "sets_at Z nd t = filter (\<lambda>r. rr_type r = t) (unwrap_or [] (span_get (rrsets Z) (node_rrsets nd)))"

definition values_of :: "zone \<Rightarrow> rrset \<Rightarrow> rdata list" where
  "values_of Z r = unwrap_or [] (span_get (rdatas Z) (rr_rdata r))"

definition records_at :: "zone \<Rightarrow> node \<Rightarrow> rtype \<Rightarrow> name \<Rightarrow> dns_record list" where
  "records_at Z nd t owner =
     concat (map (\<lambda>r. map (from_rdata owner (rr_ttl r)) (values_of Z r)) (sets_at Z nd t))"

fun governing_cut :: "zone \<Rightarrow> name \<Rightarrow> nat option" where
  "governing_cut Z n =
     (case node_named Z n of
        Some i \<Rightarrow> (if flags_contains (node_flags (nodes Z ! i)) DELEGATION then Some i
                   else case n of [] \<Rightarrow> None | _ # p \<Rightarrow> governing_cut Z p)
      | None \<Rightarrow> (case n of [] \<Rightarrow> None | _ # p \<Rightarrow> governing_cut Z p))"

fun nearest_encloser :: "zone \<Rightarrow> name \<Rightarrow> name" where
  "nearest_encloser Z [] = []"
| "nearest_encloser Z (_ # p) = (if node_named Z p \<noteq> None then p else nearest_encloser Z p)"

definition wildcard_source :: "zone \<Rightarrow> name \<Rightarrow> nat option" where
  "wildcard_source Z n =
     (case node_named Z (WILDCARD_LABEL # nearest_encloser Z n) of
        Some i \<Rightarrow> (if flags_contains (node_flags (nodes Z ! i)) WILDCARD then Some i else None)
      | None \<Rightarrow> None)"

function spec_resolve :: "zone \<Rightarrow> name \<Rightarrow> rtype \<Rightarrow> nat \<Rightarrow> dns_record list \<Rightarrow> resolution \<times> dns_record list" where
  "spec_resolve Z n t depth out =
     (if \<not> suffix (lower_origin Z) n then (Res_NxDomain, out) else
      case governing_cut Z n of
        Some c \<Rightarrow> (Res_Referral (of_nat c), out)
      | None \<Rightarrow>
        (case node_named Z n of
           Some i \<Rightarrow>
             (let nd = nodes Z ! i in
              if t = RT_ANY then (Res_NoData, out)
              else if sets_at Z nd t \<noteq> [] then (Res_Found, out @ records_at Z nd t (node_name nd))
              else if t \<noteq> RT_CNAME \<and> sets_at Z nd RT_CNAME \<noteq> [] \<and> \<not> flags_contains (node_flags nd) WILDCARD then
                (let out = out @ records_at Z nd RT_CNAME (node_name nd) in
                 if 8 \<le> depth then (Res_Found, out)
                 else (case values_of Z (hd (sets_at Z nd RT_CNAME)) of
                         RD_CNAME target # _ \<Rightarrow>
                           (if suffix (lower_origin Z) (lower_name target) then
                              (case spec_resolve Z (lower_name target) t (depth + 1) out of
                                 (Res_Referral c, out) \<Rightarrow> (Res_Referral c, out)
                               | (_, out) \<Rightarrow> (Res_Found, out))
                            else (Res_Found, out))
                       | _ \<Rightarrow> (Res_Found, out)))
              else (Res_NoData, out))
         | None \<Rightarrow>
             (case wildcard_source Z n of
                None \<Rightarrow> (Res_NxDomain, out)
              | Some w \<Rightarrow>
                  if t = RT_ANY then (Res_NoData, out)
                  else if sets_at Z (nodes Z ! w) t \<noteq> [] then (Res_Found, out @ records_at Z (nodes Z ! w) t n)
                  else (Res_NoData, out))))"
  by pat_completeness auto
termination
  by (relation "measure (\<lambda>(Z, n, t, depth, out). 8 - depth)") auto

declare spec_resolve.simps [simp del] governing_cut.simps [simp del]

definition spec_lookup :: "zone \<Rightarrow> name \<Rightarrow> rtype \<Rightarrow> answer" where
  "spec_lookup Z n t =
     (case spec_resolve Z n t 0 [] of
        (Res_Found, answers) \<Rightarrow> Records answers
      | (Res_Referral c, answers) \<Rightarrow>
          Referral answers (case referrals Z c of None \<Rightarrow> [] | Some r \<Rightarrow> ref_authority r)
            (case referrals Z c of None \<Rightarrow> [] | Some r \<Rightarrow> ref_additional r)
      | (Res_NoData, _) \<Rightarrow> NoData
      | (Res_NxDomain, _) \<Rightarrow> NxDomain)"

end
