(* ===== verification/Config.thy ===== *)
theory Config
  imports Hickory
begin

text \<open>
  \<^verbatim>\<open>src/config.rs\<close>: the raw command line and file tiers, the validated configuration, and
  \<^verbatim>\<open>Config::merge\<close>, the one place precedence and validation are decided. Reading the file and
  deserialising its TOML are the operating system's and a crate's work and enter as arguments
  of \<open>resolve_config\<close>. A duration is a number of seconds.
\<close>

section \<open>Data\<close>

type_synonym sock_addr = "ip_addr \<times> u16"

definition DEFAULT_TTL :: u32 where "DEFAULT_TTL = 300"
definition DEFAULT_TCP_TIMEOUT :: nat where "DEFAULT_TCP_TIMEOUT = 10"
definition DEFAULT_SHUTDOWN_DRAIN :: nat where "DEFAULT_SHUTDOWN_DRAIN = 15"
definition MAX_SHUTDOWN_DRAIN :: nat where "MAX_SHUTDOWN_DRAIN = 300"
definition TCP_RESPONSE_BUFFER :: nat where "TCP_RESPONSE_BUFFER = 32"
definition DEFAULT_LOG_FILTER :: string where
  "DEFAULT_LOG_FILTER = ''info,hickory_server=warn,hickory_proto=warn''"

datatype log_format = Pretty | Json

record global_args =
  cli_config :: "string option"
  cli_udp :: "sock_addr list"
  cli_tcp :: "sock_addr list"
  cli_admin_listen :: "sock_addr option"
  cli_domain :: "string option"
  cli_rate_limit_qps :: "u32 option"
  cli_rate_limit_burst :: "u32 option"
  cli_tcp_timeout_secs :: "u64 option"
  cli_shutdown_drain_secs :: "u64 option"
  cli_no_builtins :: bool
  cli_log_format :: "log_format option"
  cli_log_level :: "string option"
  cli_admin_token :: "string option"

record soa_spec =
  mname :: string
  rname :: string
  serial :: u32
  refresh :: i32
  retry_secs :: i32
  expire :: i32
  minimum :: u32

record record_spec =
  spec_name :: string
  spec_type :: string
  spec_ttl :: "u32 option"
  spec_values :: "string list"

record rate_limit_section =
  qps :: "u32 option"
  burst :: "u32 option"

record server_section =
  srv_udp :: "sock_addr list"
  srv_tcp :: "sock_addr list"
  srv_admin_listen :: "sock_addr option"
  srv_tcp_timeout_secs :: "u64 option"
  srv_shutdown_drain_secs :: "int option"
  srv_log_format :: "log_format option"
  srv_log_level :: "string option"
  srv_admin_token :: "string option"
  srv_rate_limit :: rate_limit_section

record zone_section =
  sec_origin :: "string option"
  sec_default_ttl :: "u32 option"
  sec_builtins :: "bool option"
  sec_soa :: "soa_spec option"
  sec_records :: "record_spec list"

record file_config =
  fc_server :: server_section
  fc_zone :: zone_section

definition file_config_default :: file_config where
  "file_config_default = \<lparr>
     fc_server = \<lparr>srv_udp = [], srv_tcp = [], srv_admin_listen = None, srv_tcp_timeout_secs = None,
       srv_shutdown_drain_secs = None, srv_log_format = None, srv_log_level = None,
       srv_admin_token = None, srv_rate_limit = \<lparr>qps = None, burst = None\<rparr>\<rparr>,
     fc_zone = \<lparr>sec_origin = None, sec_default_ttl = None, sec_builtins = None, sec_soa = None,
       sec_records = []\<rparr>\<rparr>"

record zone_config =
  zc_origin :: string
  zc_default_ttl :: u32
  zc_builtins :: bool
  zc_soa :: "soa_spec option"
  zc_records :: "record_spec list"

record rate_limit_config =
  rl_qps :: u32
  rl_burst :: u32

record config =
  cfg_source :: "string option"
  cfg_udp :: "sock_addr list"
  cfg_tcp :: "sock_addr list"
  cfg_admin_listen :: "sock_addr option"
  cfg_tcp_timeout :: nat
  cfg_shutdown_drain :: nat
  cfg_tcp_response_buffer :: nat
  cfg_zone :: zone_config
  cfg_rate_limit :: "rate_limit_config option"
  cfg_log_format :: log_format
  cfg_log_level :: string
  cfg_admin_token :: "string option"

datatype load_stage = Read | Parse | Validate

datatype config_error =
    DuplicateListen string sock_addr
  | EmptyOrigin
  | ZeroTtl
  | ZeroTcpTimeout
  | DrainOutOfRange int
  | ZeroBurst
  | Unreadable string
  | BadToml string

record file_settings =
  fs_origin :: "string option"
  fs_udp :: "sock_addr list"
  fs_tcp :: "sock_addr list"
  fs_admin_listen :: "sock_addr option"
  fs_tcp_timeout_secs :: "u64 option"
  fs_shutdown_drain_secs :: "int option"
  fs_log_format :: "log_format option"
  fs_log_level :: "string option"
  fs_admin_token :: "string option"
  fs_rate_limit_qps :: "u32 option"
  fs_rate_limit_burst :: "u32 option"

section \<open>Operations\<close>

definition file_settings_of :: "file_config \<Rightarrow> file_settings" where
  "file_settings_of f = (let s = fc_server f in \<lparr>
     fs_origin = sec_origin (fc_zone f),
     fs_udp = srv_udp s,
     fs_tcp = srv_tcp s,
     fs_admin_listen = srv_admin_listen s,
     fs_tcp_timeout_secs = srv_tcp_timeout_secs s,
     fs_shutdown_drain_secs = srv_shutdown_drain_secs s,
     fs_log_format = srv_log_format s,
     fs_log_level = srv_log_level s,
     fs_admin_token = srv_admin_token s,
     fs_rate_limit_qps = qps (srv_rate_limit s),
     fs_rate_limit_burst = burst (srv_rate_limit s)\<rparr>)"

definition pick_addrs :: "sock_addr list \<Rightarrow> sock_addr list \<Rightarrow> sock_addr list" where
  "pick_addrs cli file = (if cli = [] then file else cli)"

definition shutdown_drain :: "global_args \<Rightarrow> int option \<Rightarrow> config_error + nat" where
  "shutdown_drain cli file =
     (case cli_shutdown_drain_secs cli of
        Some secs \<Rightarrow> (if MAX_SHUTDOWN_DRAIN < unat secs then Inl (DrainOutOfRange (uint secs))
                      else Inr (unat secs))
      | None \<Rightarrow>
          (case file of
             None \<Rightarrow> Inr DEFAULT_SHUTDOWN_DRAIN
           | Some secs \<Rightarrow> (if 0 \<le> secs \<and> nat secs \<le> MAX_SHUTDOWN_DRAIN then Inr (nat secs)
                           else Inl (DrainOutOfRange secs))))"

fun reject_duplicates_from :: "string \<Rightarrow> sock_addr list \<Rightarrow> sock_addr list \<Rightarrow> config_error + unit" where
  "reject_duplicates_from what seen [] = Inr ()"
| "reject_duplicates_from what seen (addr # addrs) =
     (if addr \<in> set seen then Inl (DuplicateListen what addr)
      else reject_duplicates_from what (addr # seen) addrs)"

definition reject_duplicates :: "string \<Rightarrow> sock_addr list \<Rightarrow> config_error + unit" where
  "reject_duplicates what addrs = reject_duplicates_from what [] addrs"

definition tcp_timeout_of :: "u64 option \<Rightarrow> config_error + nat" where
  "tcp_timeout_of secs = (case secs of
       None \<Rightarrow> Inr DEFAULT_TCP_TIMEOUT
     | Some secs \<Rightarrow> (if secs = 0 then Inl ZeroTcpTimeout else Inr (unat secs)))"

definition rate_limit_of :: "u32 option \<Rightarrow> u32 option \<Rightarrow> config_error + rate_limit_config option" where
  "rate_limit_of q b = (case q of
       None \<Rightarrow> Inr None
     | Some q \<Rightarrow> (if q = 0 then Inr None
         else let b = unwrap_or (saturating_mul q 2) b
              in if b = 0 then Inl ZeroBurst else Inr (Some \<lparr>rl_qps = q, rl_burst = b\<rparr>)))"

definition default_listener :: sock_addr where
  "default_listener = (V4 0, 1053)"

definition merge :: "global_args \<Rightarrow> file_config \<Rightarrow> config_error + config" where
  "merge cli file =
     (let server = fc_server file; zone = fc_zone file;
          udp = pick_addrs (cli_udp cli) (srv_udp server);
          tcp = pick_addrs (cli_tcp cli) (srv_tcp server);
          udp = (if udp = [] \<and> tcp = [] then [default_listener] else udp) in
      rbind (reject_duplicates ''udp'' udp) (\<lambda>_.
      rbind (reject_duplicates ''tcp'' tcp) (\<lambda>_.
      let origin = unwrap_or ''dnsserver.dev'' (opt_or (cli_domain cli) (sec_origin zone)) in
      if trim origin = [] then Inl EmptyOrigin else
      let default_ttl = unwrap_or DEFAULT_TTL (sec_default_ttl zone) in
      if default_ttl = 0 then Inl ZeroTtl else
      let builtins = (if cli_no_builtins cli then False else unwrap_or True (sec_builtins zone)) in
      rbind (tcp_timeout_of (opt_or (cli_tcp_timeout_secs cli) (srv_tcp_timeout_secs server))) (\<lambda>tcp_timeout.
      rbind (shutdown_drain cli (srv_shutdown_drain_secs server)) (\<lambda>drain.
      rbind (rate_limit_of (opt_or (cli_rate_limit_qps cli) (qps (srv_rate_limit server)))
               (opt_or (cli_rate_limit_burst cli) (burst (srv_rate_limit server)))) (\<lambda>rate_limit.
      Inr \<lparr>cfg_source = cli_config cli,
           cfg_udp = udp,
           cfg_tcp = tcp,
           cfg_admin_listen = opt_or (cli_admin_listen cli) (srv_admin_listen server),
           cfg_tcp_timeout = tcp_timeout,
           cfg_shutdown_drain = drain,
           cfg_tcp_response_buffer = TCP_RESPONSE_BUFFER,
           cfg_zone = \<lparr>zc_origin = origin, zc_default_ttl = default_ttl, zc_builtins = builtins,
             zc_soa = sec_soa zone, zc_records = sec_records zone\<rparr>,
           cfg_rate_limit = rate_limit,
           cfg_log_format = unwrap_or Pretty (opt_or (cli_log_format cli) (srv_log_format server)),
           cfg_log_level = unwrap_or DEFAULT_LOG_FILTER (opt_or (cli_log_level cli) (srv_log_level server)),
           cfg_admin_token = opt_or (cli_admin_token cli) (srv_admin_token server)\<rparr>))))))"

definition read_file :: "(string \<Rightarrow> string option) \<Rightarrow> (string \<Rightarrow> file_config option) \<Rightarrow> string
    \<Rightarrow> (load_stage \<times> config_error) + file_config" where
  "read_file read_to_string deserialize path =
     (case read_to_string path of
        None \<Rightarrow> Inl (Read, Unreadable path)
      | Some raw \<Rightarrow> ok_or (Parse, BadToml path) (deserialize raw))"

definition resolve_config :: "(string \<Rightarrow> string option) \<Rightarrow> (string \<Rightarrow> file_config option) \<Rightarrow> global_args
    \<Rightarrow> (load_stage \<times> config_error) + (config \<times> file_settings)" where
  "resolve_config read_to_string deserialize cli =
     rbind (case cli_config cli of
              Some path \<Rightarrow> read_file read_to_string deserialize path
            | None \<Rightarrow> Inr file_config_default) (\<lambda>file.
     let stated = file_settings_of file in
     case merge cli file of
       Inl e \<Rightarrow> Inl (Validate, e)
     | Inr config \<Rightarrow> Inr (config, stated))"

section \<open>Validity\<close>

definition config_ok :: "config \<Rightarrow> bool" where
  "config_ok c \<longleftrightarrow> distinct (cfg_udp c) \<and> distinct (cfg_tcp c) \<and> (cfg_udp c \<noteq> [] \<or> cfg_tcp c \<noteq> []) \<and>
     trim (zc_origin (cfg_zone c)) \<noteq> [] \<and> 0 < zc_default_ttl (cfg_zone c) \<and> 0 < cfg_tcp_timeout c \<and>
     cfg_shutdown_drain c \<le> 300 \<and>
     (case cfg_rate_limit c of None \<Rightarrow> True | Some r \<Rightarrow> 0 < rl_qps r \<and> 0 < rl_burst r)"

lemma reject_duplicates_from_iff:
  "reject_duplicates_from what seen addrs = Inr u \<longleftrightarrow> distinct addrs \<and> set addrs \<inter> set seen = {}"
  by (induction what seen addrs rule: reject_duplicates_from.induct) auto

lemma reject_duplicates_iff: "reject_duplicates what addrs = Inr u \<longleftrightarrow> distinct addrs"
  by (simp add: reject_duplicates_def reject_duplicates_from_iff)

lemma tcp_timeout_of_Inr: "tcp_timeout_of s = Inr t \<Longrightarrow> 0 < t"
  by (auto simp: tcp_timeout_of_def DEFAULT_TCP_TIMEOUT_def unat_gt_0 split: option.splits if_splits)

lemma shutdown_drain_Inr: "shutdown_drain cli f = Inr d \<Longrightarrow> d \<le> 300"
  by (auto simp: shutdown_drain_def MAX_SHUTDOWN_DRAIN_def DEFAULT_SHUTDOWN_DRAIN_def
      split: option.splits if_splits)

lemma rate_limit_of_Inr:
  "rate_limit_of q b = Inr r \<Longrightarrow> case r of None \<Rightarrow> True | Some r \<Rightarrow> 0 < rl_qps r \<and> 0 < rl_burst r"
  by (auto simp: rate_limit_of_def Let_def word_neq_0_conv split: option.splits if_splits)

lemma resolve_config_ok:
  assumes "resolve_config rd de cli = Inr (c, stated)"
  shows "config_ok c"
proof -
  from assms obtain fc where "(case merge cli fc of Inl e \<Rightarrow> Inl (Validate, e)
      | Inr config \<Rightarrow> Inr (config, file_settings_of fc)) = Inr (c, stated)"
    by (auto simp: resolve_config_def rbind_eq_Inr Let_def)
  then have "merge cli fc = Inr c" by (cases "merge cli fc") simp_all
  then show ?thesis
    by (auto simp: merge_def Let_def rbind_eq_Inr config_ok_def reject_duplicates_iff word_neq_0_conv
        dest: tcp_timeout_of_Inr shutdown_drain_Inr rate_limit_of_Inr split: if_splits)
qed

text \<open>C16: a configuration that resolves is one the server can run on: at least one listener and
  no duplicate, a zone origin that is not blank, a positive default TTL and TCP timeout, a drain
  of at most five minutes, and a rate limit, when there is one, with a positive rate and burst.\<close>

theorem resolved_config_ok: "resolve_config rd de cli = Inr (c, stated) \<Longrightarrow> config_ok c"
  by (rule resolve_config_ok)

definition demo_args :: global_args where
  "demo_args = \<lparr>cli_config = None, cli_udp = [(V4 0x7f000001, 5353)], cli_tcp = [], cli_admin_listen = None,
     cli_domain = Some ''example.com'', cli_rate_limit_qps = Some 20, cli_rate_limit_burst = None,
     cli_tcp_timeout_secs = None, cli_shutdown_drain_secs = Some 0, cli_no_builtins = True,
     cli_log_format = None, cli_log_level = None, cli_admin_token = None\<rparr>"

lemmas merge_eval = merge_def file_config_default_def demo_args_def pick_addrs_def
  reject_duplicates_def tcp_timeout_of_def shutdown_drain_def rate_limit_of_def trim_def trim_start_def
  is_whitespace_def DEFAULT_TTL_def MAX_SHUTDOWN_DRAIN_def saturating_mul_def

theorem resolved_config_ok_witness:
  "\<exists>c s. resolve_config (\<lambda>_. None) (\<lambda>_. None) demo_args = Inr (c, s) \<and> config_ok c \<and>
     cfg_rate_limit c = Some \<lparr>rl_qps = 20, rl_burst = 40\<rparr>"
proof -
  have "\<exists>c s. resolve_config (\<lambda>_. None) (\<lambda>_. None) demo_args = Inr (c, s) \<and>
     cfg_rate_limit c = Some \<lparr>rl_qps = 20, rl_burst = 40\<rparr>"
    by (simp add: resolve_config_def merge_eval)
  then show ?thesis using resolved_config_ok by blast
qed

section \<open>Precedence\<close>

text \<open>What the command line sets, the file cannot change.\<close>

definition shadowed :: "global_args \<Rightarrow> file_config \<Rightarrow> file_config \<Rightarrow> bool" where
  "shadowed cli f g \<longleftrightarrow> (let s = fc_server f; t = fc_server g; y = fc_zone f; z = fc_zone g in
     (cli_udp cli = [] \<longrightarrow> srv_udp s = srv_udp t) \<and>
     (cli_tcp cli = [] \<longrightarrow> srv_tcp s = srv_tcp t) \<and>
     (cli_admin_listen cli = None \<longrightarrow> srv_admin_listen s = srv_admin_listen t) \<and>
     (cli_domain cli = None \<longrightarrow> sec_origin y = sec_origin z) \<and>
     (cli_rate_limit_qps cli = None \<longrightarrow> qps (srv_rate_limit s) = qps (srv_rate_limit t)) \<and>
     (cli_rate_limit_burst cli = None \<longrightarrow> burst (srv_rate_limit s) = burst (srv_rate_limit t)) \<and>
     (cli_tcp_timeout_secs cli = None \<longrightarrow> srv_tcp_timeout_secs s = srv_tcp_timeout_secs t) \<and>
     (cli_shutdown_drain_secs cli = None \<longrightarrow> srv_shutdown_drain_secs s = srv_shutdown_drain_secs t) \<and>
     (\<not> cli_no_builtins cli \<longrightarrow> sec_builtins y = sec_builtins z) \<and>
     (cli_log_format cli = None \<longrightarrow> srv_log_format s = srv_log_format t) \<and>
     (cli_log_level cli = None \<longrightarrow> srv_log_level s = srv_log_level t) \<and>
     (cli_admin_token cli = None \<longrightarrow> srv_admin_token s = srv_admin_token t) \<and>
     sec_default_ttl y = sec_default_ttl z \<and> sec_soa y = sec_soa z \<and> sec_records y = sec_records z)"

lemma pick_addrs_cong: "(cli = [] \<longrightarrow> a = b) \<Longrightarrow> pick_addrs cli a = pick_addrs cli b"
  by (auto simp: pick_addrs_def)

lemma opt_or_cong: "(x = None \<longrightarrow> a = b) \<Longrightarrow> opt_or x a = opt_or x b"
  by (cases x) auto

lemma shutdown_drain_cong:
  "(cli_shutdown_drain_secs cli = None \<longrightarrow> a = b) \<Longrightarrow> shutdown_drain cli a = shutdown_drain cli b"
  by (auto simp: shutdown_drain_def split: option.split)

text \<open>C17: the command line wins: two files that differ only in settings the command line states
  resolve to the same configuration, or to the same refusal.\<close>

theorem cli_shadows_file:
  assumes "shadowed cli f g"
  shows "merge cli f = merge cli g"
proof -
  let ?s = "fc_server f" and ?t = "fc_server g" and ?y = "fc_zone f" and ?z = "fc_zone g"
  have "pick_addrs (cli_udp cli) (srv_udp ?s) = pick_addrs (cli_udp cli) (srv_udp ?t)"
    "pick_addrs (cli_tcp cli) (srv_tcp ?s) = pick_addrs (cli_tcp cli) (srv_tcp ?t)"
    "opt_or (cli_domain cli) (sec_origin ?y) = opt_or (cli_domain cli) (sec_origin ?z)"
    "opt_or (cli_tcp_timeout_secs cli) (srv_tcp_timeout_secs ?s) =
       opt_or (cli_tcp_timeout_secs cli) (srv_tcp_timeout_secs ?t)"
    "shutdown_drain cli (srv_shutdown_drain_secs ?s) = shutdown_drain cli (srv_shutdown_drain_secs ?t)"
    "opt_or (cli_rate_limit_qps cli) (qps (srv_rate_limit ?s)) =
       opt_or (cli_rate_limit_qps cli) (qps (srv_rate_limit ?t))"
    "opt_or (cli_rate_limit_burst cli) (burst (srv_rate_limit ?s)) =
       opt_or (cli_rate_limit_burst cli) (burst (srv_rate_limit ?t))"
    "opt_or (cli_admin_listen cli) (srv_admin_listen ?s) = opt_or (cli_admin_listen cli) (srv_admin_listen ?t)"
    "opt_or (cli_log_format cli) (srv_log_format ?s) = opt_or (cli_log_format cli) (srv_log_format ?t)"
    "opt_or (cli_log_level cli) (srv_log_level ?s) = opt_or (cli_log_level cli) (srv_log_level ?t)"
    "opt_or (cli_admin_token cli) (srv_admin_token ?s) = opt_or (cli_admin_token cli) (srv_admin_token ?t)"
    using assms
    by (auto simp: shadowed_def Let_def intro!: pick_addrs_cong opt_or_cong shutdown_drain_cong)
  moreover have "(if cli_no_builtins cli then False else unwrap_or True (sec_builtins ?y)) =
      (if cli_no_builtins cli then False else unwrap_or True (sec_builtins ?z))"
    and "sec_default_ttl ?y = sec_default_ttl ?z" "sec_soa ?y = sec_soa ?z" "sec_records ?y = sec_records ?z"
    using assms by (auto simp: shadowed_def Let_def)
  ultimately show ?thesis by (simp only: merge_def Let_def)
qed

theorem cli_shadows_file_witness:
  "merge demo_args (file_config_default\<lparr>fc_zone := (fc_zone file_config_default)\<lparr>sec_origin := Some ''x''\<rparr>\<rparr>) =
     merge demo_args file_config_default"
  by (rule cli_shadows_file) (simp add: shadowed_def demo_args_def file_config_default_def)

end
