(* ===== verification/Rdata.thy ===== *)
theory Rdata
  imports Hickory
begin

text \<open>
  \<^verbatim>\<open>src/rdata.rs\<close>: the one gate every record value passes on its way to the presentation-format
  parser, whose lexer aborts the process on a token of 4095 characters.
\<close>

definition MAX_VALUE_CHARS :: nat where "MAX_VALUE_CHARS = 4090"
definition LEXER_ABORTS_AT :: nat where "LEXER_ABORTS_AT = 4095"

datatype value_error = TooLong rtype string nat | Unparsable

definition parse_value :: "hickory \<Rightarrow> rtype \<Rightarrow> string \<Rightarrow> string \<Rightarrow> value_error + rdata" where
  "parse_value E record_type owner val =
     (let chars = length val
      in if MAX_VALUE_CHARS < chars then Inl (TooLong record_type owner chars)
         else ok_or Unparsable (rdata_from_str E record_type val))"

lemma parse_value_TooLong_iff:
  "(\<exists>t o' n. parse_value E t0 ow v = Inl (TooLong t o' n)) \<longleftrightarrow> MAX_VALUE_CHARS < length v"
  by (auto simp: parse_value_def ok_or_def Let_def split: option.splits)

text \<open>The gate holds: what it returns is decided without asking the parser about any value
  long enough to abort its lexer. Two parsers that agree on the shorter values give the same
  verdict on every value, and a value is refused as too long exactly past the bound.\<close>

lemma parse_value_guards_lexer:
  assumes "\<forall>t v. length v < LEXER_ABORTS_AT \<longrightarrow> rdata_from_str E t v = rdata_from_str E' t v"
  shows "parse_value E t ow v = parse_value E' t ow v \<and>
    ((\<exists>t' o' n. parse_value E t ow v = Inl (TooLong t' o' n)) \<longleftrightarrow> MAX_VALUE_CHARS < length v)"
proof -
  have "length v < LEXER_ABORTS_AT" if "\<not> MAX_VALUE_CHARS < length v"
    using that by (simp add: MAX_VALUE_CHARS_def LEXER_ABORTS_AT_def)
  with assms show ?thesis
    by (auto simp: parse_value_def Let_def ok_or_def split: option.splits)
qed

end
