(* ===== verification/Zone_Build.thy ===== *)
theory Zone_Build
  imports Zone_Lookup Config Rdata
begin

text \<open>
  \<^verbatim>\<open>src/zone.rs\<close>, the build: \<^verbatim>\<open>ZoneBuilder\<close> collects the configured record sets in a scratch map,
  closes it under ancestry, refuses what cannot be served, sorts it into canonical order with the
  zone cuts, and lays it out as the three arenas with their index and referrals.

  The scratch \<^verbatim>\<open>HashMap\<close> is an association list with distinct keys; the order its iterators
  yield is not specified, so it is the argument \<open>iter\<close>, a permutation. The hash seed the
  operating system provides is the argument \<open>seed\<close>. A refusal is a value of \<open>zone_error\<close>; the
  messages are reduced to the facts they state. Log lines are not modelled, the diagnostics are.
\<close>

section \<open>Scratch data\<close>

record scratch_rrset =
  s_type :: rtype
  s_ttl :: u32
  s_rdata :: "rdata list"

record scratch_node =
  s_name :: name
  s_wildcard :: bool
  s_rrsets :: "scratch_rrset list"

type_synonym entry = "name \<times> scratch_node"

record zone_builder =
  b_origin :: name
  b_lower_origin :: name
  b_default_ttl :: u32
  b_nodes :: "entry list"
  b_record_count :: nat

definition builder_new :: "name \<Rightarrow> name \<Rightarrow> u32 \<Rightarrow> zone_builder" where
  "builder_new origin lower ttl =
     \<lparr>b_origin = origin, b_lower_origin = lower, b_default_ttl = ttl, b_nodes = [], b_record_count = 0\<rparr>"

section \<open>Inserting a record set\<close>

definition parse_name :: "hickory \<Rightarrow> string \<Rightarrow> zone_error + name" where
  "parse_name E input = ok_or (InvalidName input) (name_from_str E input)"

definition qualify :: "hickory \<Rightarrow> zone_builder \<Rightarrow> string \<Rightarrow> zone_error + name" where
  "qualify E b label =
     (let label = trim label in
      if label = [] \<or> label = ''@'' then Inr (b_origin b)
      else if ends_with ''.'' label then
        rbind (parse_name E label) (\<lambda>n.
          if \<not> zone_of E (b_lower_origin b) (lower_from E n) then Inl (NotInZone label) else Inr n)
      else ok_or (InvalidName label) (name_parse E label (b_origin b)))"

fun rposition :: "('a \<Rightarrow> bool) \<Rightarrow> 'a list \<Rightarrow> nat option" where
  "rposition p [] = None"
| "rposition p (x # xs) =
     (case rposition p xs of Some i \<Rightarrow> Some (Suc i) | None \<Rightarrow> if p x then Some 0 else None)"

definition add_run :: "rtype \<Rightarrow> u32 \<Rightarrow> rdata list \<Rightarrow> scratch_rrset list \<Rightarrow> scratch_rrset list" where
  "add_run t ttl rd rs =
     (case rposition (\<lambda>r. s_type r = t) rs of
        Some i \<Rightarrow>
          (if s_ttl (rs ! i) = ttl then rs[i := (rs ! i)\<lparr>s_rdata := s_rdata (rs ! i) @ rd\<rparr>]
           else rs @ [\<lparr>s_type = t, s_ttl = ttl, s_rdata = rd\<rparr>])
      | None \<Rightarrow> rs @ [\<lparr>s_type = t, s_ttl = ttl, s_rdata = rd\<rparr>])"

fun entry_update :: "name \<Rightarrow> scratch_node \<Rightarrow> (scratch_node \<Rightarrow> scratch_node) \<Rightarrow> entry list \<Rightarrow> entry list" where
  "entry_update key fresh f [] = [(key, f fresh)]"
| "entry_update key fresh f ((k, nd) # es) =
     (if k = key then (k, f nd) # es else (k, nd) # entry_update key fresh f es)"

definition value_of_spec :: "hickory \<Rightarrow> record_spec \<Rightarrow> rtype \<Rightarrow> string \<Rightarrow> zone_error + rdata" where
  "value_of_spec E spec t v =
     (case parse_value E t (spec_name spec) v of
        Inr d \<Rightarrow> Inr d
      | Inl Unparsable \<Rightarrow> Inl (InvalidValue (spec_type spec) v (spec_name spec))
      | Inl (TooLong t' ow n) \<Rightarrow> Inl (ValueTooLong t' ow n))"

text \<open>A name reached both with a star and without one, an escaped star, stops a debug build on an assertion; here, as in
  a release build, the node keeps the flag it was made with.\<close>

definition insert_spec :: "hickory \<Rightarrow> record_spec \<Rightarrow> zone_builder \<Rightarrow> zone_error + zone_builder" where
  "insert_spec E spec b =
     rbind (ok_or (UnknownRecordType (spec_type spec)) (rtype_from_str E (to_uppercase (spec_type spec)))) (\<lambda>t.
     if spec_values spec = [] then Inl (NoValues (spec_name spec) (spec_type spec)) else
     let ttl = unwrap_or (b_default_ttl b) (spec_ttl spec);
         label = trim (spec_name spec);
         is_wildcard = (label = ''*'' \<or> starts_with ''*.'' label);
         owner_label = (if is_wildcard then trim_start_dots (tl label) else label)
     in rbind (qualify E b owner_label) (\<lambda>owner.
        rbind (rmap (value_of_spec E spec t) (spec_values spec)) (\<lambda>rd.
        let b = b\<lparr>b_record_count := b_record_count b + length rd\<rparr> in
        case (if is_wildcard then prepend_label E owner WILDCARD_LABEL else Some owner) of
          None \<Rightarrow> Inr b
        | Some nname \<Rightarrow>
            Inr (b\<lparr>b_nodes := entry_update (lower_from E nname)
                    \<lparr>s_name = nname, s_wildcard = is_wildcard, s_rrsets = []\<rparr>
                    (\<lambda>nd. nd\<lparr>s_rrsets := add_run t ttl rd (s_rrsets nd)\<rparr>) (b_nodes b)\<rparr>))))"

section \<open>Closing the node set under ancestry\<close>

definition has_key :: "name \<Rightarrow> entry list \<Rightarrow> bool" where
  "has_key key es \<longleftrightarrow> map_of es key \<noteq> None"

definition implied_node :: "name \<Rightarrow> entry" where
  "implied_node key = (key, \<lparr>s_name = key, s_wildcard = (list_get key 0 = Some WILDCARD_LABEL), s_rrsets = []\<rparr>)"

text \<open>The first argument bounds the passes by the label count of the name the walk starts from.\<close>

fun climb :: "hickory \<Rightarrow> nat \<Rightarrow> nat \<Rightarrow> name \<Rightarrow> entry list \<Rightarrow> entry list" where
  "climb E 0 floor current es = es"
| "climb E (Suc k) floor current es =
     (if floor + 1 < length current then
        (let key = lower_from E (base_name E current) in
         if has_key key es then es else climb E k floor key (es @ [implied_node key]))
      else es)"

definition materialise_ancestors :: "hickory \<Rightarrow> (entry list \<Rightarrow> entry list) \<Rightarrow> name \<Rightarrow> entry list \<Rightarrow> entry list" where
  "materialise_ancestors E iter lower es =
     (let floor = label_count lower;
          pending = map (\<lambda>e. s_name (snd e)) (filter (\<lambda>e. floor + 1 < length (s_name (snd e))) (iter es))
      in fold (\<lambda>n. climb E (length n) floor n) pending es)"

section \<open>What cannot be served\<close>

definition apex_soa_record :: "name \<Rightarrow> entry list \<Rightarrow> dns_record option" where
  "apex_soa_record lower es =
     (case map_of es lower of
        None \<Rightarrow> None
      | Some nd \<Rightarrow>
          (case find (\<lambda>r. s_type r = RT_SOA) (s_rrsets nd) of
             None \<Rightarrow> None
           | Some run \<Rightarrow> map_option (from_rdata (s_name nd) (s_ttl run)) (list_get (s_rdata run) 0)))"

record check_state =
  c_findings :: "finding list"
  c_apex_soa :: nat
  c_apex_ns :: bool

definition check_run :: "name \<Rightarrow> bool \<Rightarrow> bool \<Rightarrow> rtype list \<Rightarrow> scratch_rrset \<Rightarrow> check_state \<Rightarrow> check_state" where
  "check_run owner at_apex wild seen run c =
     (let t = s_type run;
          c = (if t \<in> set seen then c\<lparr>c_findings := c_findings c @ [TwoTtls owner t]\<rparr> else c);
          c = (if t = RT_SOA then
                 (if at_apex then c\<lparr>c_apex_soa := c_apex_soa c + length (s_rdata run)\<rparr>
                  else c\<lparr>c_findings := c_findings c @ [SoaNotApex owner]\<rparr>)
               else c)
      in if t = RT_NS then
           (if at_apex then c\<lparr>c_apex_ns := True\<rparr>
            else if wild then c\<lparr>c_findings := c_findings c @ [WildcardNs owner]\<rparr>
            else c)
         else c)"

fun check_runs :: "name \<Rightarrow> bool \<Rightarrow> bool \<Rightarrow> rtype list \<Rightarrow> scratch_rrset list \<Rightarrow> check_state \<Rightarrow> check_state" where
  "check_runs owner at_apex wild seen [] c = c"
| "check_runs owner at_apex wild seen (run # runs) c =
     check_runs owner at_apex wild (seen @ [s_type run]) runs (check_run owner at_apex wild seen run c)"

definition cname_count :: "scratch_rrset list \<Rightarrow> nat" where
  "cname_count rs = sum_list (map (\<lambda>r. length (s_rdata r)) (filter (\<lambda>r. s_type r = RT_CNAME) rs))"

definition check_cnames :: "name \<Rightarrow> scratch_rrset list \<Rightarrow> check_state \<Rightarrow> check_state" where
  "check_cnames owner rs c =
     (let cnames = cname_count rs;
          c = (if 0 < cnames \<and> 1 < length rs then
                 c\<lparr>c_findings := c_findings c @ [CnameAlongside owner (map s_type (filter (\<lambda>r. s_type r \<noteq> RT_CNAME) rs))]\<rparr>
               else c)
      in if 1 < cnames then c\<lparr>c_findings := c_findings c @ [ManyCnames owner cnames]\<rparr> else c)"

definition check_node :: "name \<Rightarrow> entry \<Rightarrow> check_state \<Rightarrow> check_state" where
  "check_node lower e c =
     (let owner = fst e; nd = snd e
      in check_cnames owner (s_rrsets nd) (check_runs owner (owner = lower) (s_wildcard nd) [] (s_rrsets nd) c))"

definition check_findings :: "name \<Rightarrow> bool \<Rightarrow> entry list \<Rightarrow> finding list" where
  "check_findings lower soa_in_config es =
     (let c = fold (check_node lower) es \<lparr>c_findings = [], c_apex_soa = 0, c_apex_ns = False\<rparr>;
          fs = c_findings c;
          fs = (if soa_in_config \<and> 0 < c_apex_soa c then fs @ [SoaTwice]
                else if 1 < c_apex_soa c then fs @ [ManySoa (c_apex_soa c)]
                else if \<not> soa_in_config \<and> c_apex_soa c = 0 then fs @ [MissingSoa]
                else fs)
      in if \<not> c_apex_ns c then fs @ [MissingApexNs] else fs)"

definition check_invariants :: "(entry list \<Rightarrow> entry list) \<Rightarrow> name \<Rightarrow> bool \<Rightarrow> entry list \<Rightarrow> zone_error + unit" where
  "check_invariants iter lower soa_in_config es =
     (let fs = check_findings lower soa_in_config (iter es)
      in if fs = [] then Inr () else Inl (CannotBeServed fs))"

section \<open>Canonical order and zone cuts\<close>

fun write_keys :: "entry list \<Rightarrow> u8 list \<Rightarrow> span list \<Rightarrow> zone_error + (u8 list \<times> span list)" where
  "write_keys [] keys spans = Inr (keys, spans)"
| "write_keys (e # es) keys spans =
     rbind (arena_offset (length keys)) (\<lambda>start.
     let keys = write_canonical_sort_key (fst e) keys in
     rbind (arena_offset (length keys)) (\<lambda>stop. write_keys es keys (spans @ [(start, stop)])))"

definition key_of :: "u8 list \<Rightarrow> span list \<Rightarrow> nat \<Rightarrow> u8 list" where
  "key_of keys spans i = unwrap_or [] (Option.bind (list_get spans i) (span_get keys))"

definition is_strict_prefix :: "u8 list \<Rightarrow> u8 list \<Rightarrow> bool" where
  "is_strict_prefix parent child \<longleftrightarrow> length parent < length child \<and> prefix parent child"

definition ns_targets :: "hickory \<Rightarrow> scratch_node \<Rightarrow> name list option" where
  "ns_targets E nd =
     (let runs = filter (\<lambda>r. s_type r = RT_NS) (s_rrsets nd)
      in if runs = [] then None
         else Some (concat (map (\<lambda>r. List.map_filter (\<lambda>v. case v of RD_NS n \<Rightarrow> Some (lower_from E n) | _ \<Rightarrow> None)
                                  (s_rdata r)) runs)))"

record layout_state =
  l_cut_of :: "u32 list"
  l_ancestry :: "nat list"
  l_delegations :: "u32 \<Rightarrow> name list option"

definition layout_step :: "hickory \<Rightarrow> entry list \<Rightarrow> (nat \<Rightarrow> u8 list) \<Rightarrow> nat list \<Rightarrow> nat \<times> nat
    \<Rightarrow> layout_state \<Rightarrow> zone_error + layout_state" where
  "layout_step E es key order rp s =
     (let (rank, position) = rp;
          ancestry = dropWhile (\<lambda>a. is_some_and (list_get order a)
                       (\<lambda>p. \<not> is_strict_prefix (key p) (key position))) (l_ancestry s);
          inherited = unwrap_or NONE_IDX (Option.bind (list_get ancestry 0) (list_get (l_cut_of s)));
          targets = (if rank = 0 then None
                     else Option.bind (list_get es position) (\<lambda>e. ns_targets E (snd e)))
      in case targets of
           Some ts \<Rightarrow>
             rbind (arena_offset rank) (\<lambda>here.
               Inr \<lparr>l_cut_of = l_cut_of s @ [here], l_ancestry = rank # ancestry,
                    l_delegations = (l_delegations s)(here := Some ts)\<rparr>)
         | None \<Rightarrow>
             Inr \<lparr>l_cut_of = l_cut_of s @ [inherited], l_ancestry = rank # ancestry,
                  l_delegations = l_delegations s\<rparr>)"

definition layout :: "hickory \<Rightarrow> entry list \<Rightarrow> zone_error + (nat list \<times> u32 list \<times> (u32 \<Rightarrow> name list option))" where
  "layout E es =
     rbind (write_keys es [] []) (\<lambda>(keys, spans).
     let order = sort_key (key_of keys spans) [0..<length es] in
     rbind (rfold (layout_step E es (key_of keys spans) order) (enumerate 0 order)
              \<lparr>l_cut_of = [], l_ancestry = [], l_delegations = Map.empty\<rparr>) (\<lambda>s.
     Inr (order, l_cut_of s, l_delegations s)))"

section \<open>Laying the arenas out\<close>

record arena =
  a_slots :: "entry option list"
  a_nodes :: "node list"
  a_rrsets :: "rrset list"
  a_rdata :: "rdata list"
  a_hashes :: "u64 list"
  a_max_depth :: nat
  a_dropped :: nat
  a_diagnostics :: "diagnostic list"

definition keep_run :: "bool \<Rightarrow> bool \<Rightarrow> scratch_rrset \<Rightarrow> bool" where
  "keep_run at_the_cut is_glue_name run \<longleftrightarrow>
     at_the_cut \<and> s_type run = RT_NS \<or> is_glue_name \<and> (s_type run = RT_A \<or> s_type run = RT_AAAA)"

definition apply_cut :: "scratch_node \<Rightarrow> name \<Rightarrow> u32 \<Rightarrow> u32 \<Rightarrow> (u32 \<Rightarrow> name list option) \<Rightarrow> nat \<Rightarrow> diagnostic list
    \<Rightarrow> node_flags \<times> scratch_node \<times> nat \<times> diagnostic list" where
  "apply_cut scratch owner c here delegations dropped diags =
     (if c = NONE_IDX then (FLAG_NONE, scratch, dropped, diags)
      else
        let at_the_cut = (c = here);
            targets = unwrap_or [] (delegations c);
            is_glue_name = owner \<in> set targets;
            keep = keep_run at_the_cut is_glue_name;
            gone = filter (\<lambda>r. \<not> keep r) (s_rrsets scratch)
        in (if at_the_cut then DELEGATION else GLUE,
            scratch\<lparr>s_rrsets := filter keep (s_rrsets scratch)\<rparr>,
            dropped + sum_list (map (\<lambda>r. length (s_rdata r)) gone),
            diags @ map (\<lambda>r. Occluded owner (s_type r)) gone))"

fun lay_runs :: "scratch_rrset list \<Rightarrow> rrset list \<times> rdata list \<Rightarrow> zone_error + (rrset list \<times> rdata list)" where
  "lay_runs [] st = Inr st"
| "lay_runs (run # runs) st =
     rbind (arena_offset (length (snd st))) (\<lambda>start.
     let rd = snd st @ s_rdata run in
     rbind (arena_offset (length rd)) (\<lambda>stop.
     lay_runs runs (fst st @ [\<lparr>rr_type = s_type run, rr_ttl = s_ttl run, rr_rdata = (start, stop)\<rparr>], rd)))"

definition cname_flag :: "scratch_rrset list \<Rightarrow> node_flags \<Rightarrow> node_flags" where
  "cname_flag rs flags = fold (\<lambda>r f. if s_type r = RT_CNAME then flags_insert f HAS_CNAME else f) rs flags"

definition lay_node :: "u64 \<Rightarrow> u32 list \<Rightarrow> (u32 \<Rightarrow> name list option) \<Rightarrow> nat \<times> nat \<Rightarrow> arena \<Rightarrow> zone_error + arena" where
  "lay_node seed cut_of delegations rp a =
     (let (rank, position) = rp in
      case Option.bind (list_get (a_slots a) position) id of
        None \<Rightarrow> Inr a
      | Some (lower, scratch) \<Rightarrow>
          (let a = a\<lparr>a_slots := (a_slots a)[position := None]\<rparr>;
               scratch = scratch\<lparr>s_rrsets := sort_key s_type (s_rrsets scratch)\<rparr>;
               c = unwrap_or NONE_IDX (list_get cut_of rank)
           in rbind (arena_offset rank) (\<lambda>here.
              let (flags, scratch, dropped, diags) =
                    apply_cut scratch lower c here delegations (a_dropped a) (a_diagnostics a);
                  flags = (if s_wildcard scratch then flags_insert flags WILDCARD else flags)
              in rbind (arena_offset (length (a_rrsets a))) (\<lambda>start.
                 rbind (lay_runs (s_rrsets scratch) (a_rrsets a, a_rdata a)) (\<lambda>(rrs, rd).
                 rbind (arena_offset (length rrs)) (\<lambda>stop.
                 Inr \<lparr>a_slots = a_slots a,
                      a_nodes = a_nodes a @ [\<lparr>node_name = s_name scratch, node_rrsets = (start, stop),
                         node_cut = c, node_flags = cname_flag (s_rrsets scratch) flags\<rparr>],
                      a_rrsets = rrs, a_rdata = rd,
                      a_hashes = a_hashes a @ [name_hash seed lower],
                      a_max_depth = max (a_max_depth a) (length (s_name scratch)),
                      a_dropped = dropped, a_diagnostics = diags\<rparr>))))))"

fun build_index_from :: "nat \<Rightarrow> u64 list \<Rightarrow> zone_error + (u64 \<times> u32) list" where
  "build_index_from i [] = Inr []"
| "build_index_from i (hash # hashes) =
     rbind (arena_offset i) (\<lambda>k. rbind (build_index_from (i + 1) hashes) (\<lambda>t. Inr ((hash, k) # t)))"

definition build_index :: "u64 list \<Rightarrow> zone_error + (u64 \<times> u32) list" where
  "build_index hashes = build_index_from 0 hashes"

section \<open>Referrals\<close>

record glue_state =
  g_seen :: "name list"
  g_additional :: "dns_record list"
  g_notes :: "diagnostic list"

definition glue_for :: "hickory \<Rightarrow> zone \<Rightarrow> name \<Rightarrow> name \<Rightarrow> glue_state \<Rightarrow> glue_state" where
  "glue_for E Z cut_name target g =
     (let lower = lower_from E target in
      if lower \<in> set (g_seen g) then g
      else
        let added = (if contains E Z lower then
                       (case Option.bind (exact_node E Z lower (suffix_hashes_new (hash_seed Z) lower))
                               (\<lambda>idx. list_get (nodes Z) (idx_get idx)) of
                          None \<Rightarrow> g_additional g
                        | Some glue \<Rightarrow>
                            fold (\<lambda>t. emit Z (rrsets_of Z glue t) (node_name glue)) [RT_A, RT_AAAA] (g_additional g))
                     else g_additional g)
        in \<lparr>g_seen = g_seen g @ [lower], g_additional = added,
            g_notes = (if length added = length (g_additional g) \<and> zone_of E cut_name lower
                       then g_notes g @ [MissingGlue cut_name lower] else g_notes g)\<rparr>)"

definition referral_of :: "hickory \<Rightarrow> zone \<Rightarrow> node \<Rightarrow> diagnostic list \<Rightarrow> referral_data \<times> diagnostic list" where
  "referral_of E Z nd diags =
     (let ns = rrsets_of Z nd RT_NS;
          authority = emit Z ns (node_name nd) [];
          cut_name = lower_from E (node_name nd);
          vals = concat (List.map_filter (\<lambda>run. span_get (rdatas Z) (rr_rdata run)) ns);
          g = fold (\<lambda>v g. case v of RD_NS target \<Rightarrow> glue_for E Z cut_name target g | _ \<Rightarrow> g) vals
                \<lparr>g_seen = [], g_additional = [], g_notes = diags\<rparr>
      in (\<lparr>ref_authority = authority, ref_additional = g_additional g\<rparr>, g_notes g))"

fun build_referrals_from :: "hickory \<Rightarrow> zone \<Rightarrow> nat \<Rightarrow> node list \<Rightarrow> (u32 \<Rightarrow> referral_data option) \<times> diagnostic list
    \<Rightarrow> (u32 \<Rightarrow> referral_data option) \<times> diagnostic list" where
  "build_referrals_from E Z i [] st = st"
| "build_referrals_from E Z i (nd # nds) st =
     build_referrals_from E Z (i + 1) nds
       (if flags_contains (node_flags nd) DELEGATION \<and> int i < 2 ^ 32 then
          (let (r, diags) = referral_of E Z nd (snd st) in ((fst st)(of_nat i := Some r), diags))
        else st)"

definition build_referrals :: "hickory \<Rightarrow> zone \<Rightarrow> diagnostic list \<Rightarrow> (u32 \<Rightarrow> referral_data option) \<times> diagnostic list" where
  "build_referrals E Z diags = build_referrals_from E Z 0 (nodes Z) (Map.empty, diags)"

section \<open>The whole build\<close>

definition with_apex :: "zone_builder \<Rightarrow> entry list" where
  "with_apex b = (if has_key (b_lower_origin b) (b_nodes b) then b_nodes b
     else b_nodes b @ [(b_lower_origin b, \<lparr>s_name = b_origin b, s_wildcard = False, s_rrsets = []\<rparr>)])"

definition arena_new :: "entry list \<Rightarrow> arena" where
  "arena_new entries = \<lparr>a_slots = map Some entries, a_nodes = [], a_rrsets = [], a_rdata = [], a_hashes = [],
     a_max_depth = 0, a_dropped = 0, a_diagnostics = []\<rparr>"

definition assemble :: "zone_builder \<Rightarrow> dns_record \<Rightarrow> u64 \<Rightarrow> arena \<Rightarrow> (u64 \<times> u32) list \<Rightarrow> zone" where
  "assemble b the_soa seed a idx =
     \<lparr>lower_origin = b_lower_origin b, default_ttl = b_default_ttl b, soa = the_soa,
      nodes = a_nodes a, rrsets = a_rrsets a, rdatas = a_rdata a, index = idx, hash_seed = seed,
      origin_depth = depth_byte (label_count (b_lower_origin b)), max_depth = depth_byte (a_max_depth a),
      referrals = Map.empty, diagnostics = [],
      record_count = b_record_count b - a_dropped a\<rparr>"

definition finish :: "hickory \<Rightarrow> (entry list \<Rightarrow> entry list) \<Rightarrow> u64 \<Rightarrow> zone_builder \<Rightarrow> dns_record option
    \<Rightarrow> zone_error + zone" where
  "finish E iter seed b soa_config =
     (let lower = b_lower_origin b;
          es = materialise_ancestors E iter lower (with_apex b) in
      rbind (check_invariants iter lower (soa_config \<noteq> None) es) (\<lambda>_.
      rbind (ok_or MissingSoaRecord (opt_or soa_config (apex_soa_record lower es))) (\<lambda>the_soa.
      let entries = iter es in
      rbind (layout E entries) (\<lambda>(order, cut_of, delegations).
      rbind (rfold (lay_node seed cut_of delegations) (enumerate 0 order) (arena_new entries)) (\<lambda>a.
      rbind (build_index (a_hashes a)) (\<lambda>idx.
      let Z = assemble b the_soa seed a idx;
          (refs, diags) = build_referrals E Z (a_diagnostics a)
      in Inr (Z\<lparr>referrals := refs, diagnostics := diags\<rparr>)))))))"

definition build_soa :: "hickory \<Rightarrow> name \<Rightarrow> soa_spec \<Rightarrow> zone_error + dns_record" where
  "build_soa E origin spec =
     rbind (parse_name E (mname spec)) (\<lambda>mn.
     rbind (parse_name E (rname spec)) (\<lambda>rn.
     Inr (from_rdata origin (minimum spec)
            (RD_SOA mn rn (serial spec) (refresh spec) (retry_secs spec) (expire spec) (minimum spec)))))"

definition ns_record :: "hickory \<Rightarrow> name \<Rightarrow> u32 \<Rightarrow> string \<Rightarrow> zone_error + dns_record" where
  "ns_record E owner ttl target = rbind (parse_name E target) (\<lambda>t. Inr (from_rdata owner ttl (RD_NS t)))"

definition from_config :: "hickory \<Rightarrow> (entry list \<Rightarrow> entry list) \<Rightarrow> u64 \<Rightarrow> zone_config \<Rightarrow> zone_error + zone" where
  "from_config E iter seed cfg =
     rbind (parse_name E (zc_origin cfg)) (\<lambda>origin.
     let lower = lower_from E origin in
     rbind (case zc_soa cfg of
              Some spec \<Rightarrow> rbind (build_soa E origin spec) (\<lambda>r. Inr (Some r))
            | None \<Rightarrow> Inr None) (\<lambda>soa_config.
     rbind (rfold (insert_spec E) (zc_records cfg) (builder_new origin lower (zc_default_ttl cfg))) (\<lambda>b.
     finish E iter seed b soa_config)))"

end
