(* ===== verification/Zone_Entries.thy ===== *)
theory Zone_Entries
  imports Zone_Build "HOL-Library.Multiset"
begin

text \<open>
  The scratch map of the build: what \<open>insert_spec\<close> and the ancestor closure keep true of it.
  \<open>entries_ok\<close> holds of every builder the configuration reaches, and \<open>closed_entries\<close> of what
  \<open>materialise_ancestors\<close> returns.
\<close>

section \<open>Iteration order\<close>

definition iter_ok :: "(entry list \<Rightarrow> entry list) \<Rightarrow> bool" where
  "iter_ok iter \<longleftrightarrow> (\<forall>es. mset (iter es) = mset es)"

lemma iter_set [simp]: "iter_ok iter \<Longrightarrow> set (iter es) = set es"
  using mset_eq_setD [of "iter es" es] by (simp add: iter_ok_def)

lemma iter_mset: "iter_ok iter \<Longrightarrow> mset (iter es) = mset es"
  by (simp add: iter_ok_def)

lemma iter_distinct: "iter_ok iter \<Longrightarrow> distinct (map f (iter es)) \<longleftrightarrow> distinct (map f es)"
  by (metis iter_ok_def mset_eq_imp_distinct_iff mset_map)

section \<open>Well-formed entries\<close>

definition value_ok :: "rtype \<Rightarrow> rdata \<Rightarrow> bool" where
  "value_ok t d = (case d of RD_CNAME n \<Rightarrow> t = RT_CNAME \<and> length n \<le> 127
     | RD_NS n \<Rightarrow> t = RT_NS \<and> length n \<le> 127 | _ \<Rightarrow> t \<noteq> RT_NS \<and> t \<noteq> RT_CNAME)"

definition runs_ok :: "scratch_rrset list \<Rightarrow> bool" where
  "runs_ok rs \<longleftrightarrow> (\<forall>r \<in> set rs. s_rdata r \<noteq> [] \<and> (\<forall>v \<in> set (s_rdata r). value_ok (s_type r) v))"

definition entry_ok :: "name \<Rightarrow> entry \<Rightarrow> bool" where
  "entry_ok lower e \<longleftrightarrow> fst e = lower_name (s_name (snd e)) \<and> suffix lower (fst e) \<and> length (fst e) \<le> 127 \<and>
     runs_ok (s_rrsets (snd e))"

definition entries_ok :: "name \<Rightarrow> entry list \<Rightarrow> bool" where
  "entries_ok lower es \<longleftrightarrow> distinct (map fst es) \<and> (\<forall>e \<in> set es. entry_ok lower e)"

definition builder_ok :: "zone_builder \<Rightarrow> bool" where
  "builder_ok b \<longleftrightarrow> b_lower_origin b = lower_name (b_origin b) \<and> length (b_origin b) \<le> 127 \<and>
     entries_ok (b_lower_origin b) (b_nodes b)"

lemma has_key_iff: "has_key k es \<longleftrightarrow> k \<in> fst ` set es"
  by (simp add: has_key_def map_of_eq_None_iff)

section \<open>Inserting a record set\<close>

lemma ends_with_dot: "ends_with ''.'' s \<longleftrightarrow> s \<noteq> [] \<and> last s = CHR ''.''"
  by (cases s rule: rev_cases) (auto simp: ends_with_def suffix_def)

lemma suffix_lower_name: "suffix a b \<Longrightarrow> suffix (lower_name a) (lower_name b)"
  by (auto simp: suffix_def lower_name_append)

lemma qualify_ok:
  assumes "hickory_ok E" and "builder_ok b" and "qualify E b label = Inr n"
  shows "length n \<le> 127" and "suffix (b_lower_origin b) (lower_name n)"
proof -
  have low: "b_lower_origin b = lower_name (b_origin b)" "length (b_origin b) \<le> 127"
    using assms(2) by (simp_all add: builder_ok_def)
  let ?l = "trim label"
  consider "n = b_origin b" | "name_from_str E ?l = Some n" "zone_of E (b_lower_origin b) (lower_from E n)"
    | "?l \<noteq> []" "last ?l \<noteq> CHR ''.''" "name_parse E ?l (b_origin b) = Some n"
    using assms(3) by (auto simp: qualify_def Let_def parse_name_def rbind_eq_Inr ends_with_dot split: if_splits)
  then have "length n \<le> 127 \<and> suffix (b_lower_origin b) (lower_name n)"
  proof cases
    case 2
    then show ?thesis
      using name_from_str_valid [OF assms(1)] zone_of_eq [OF assms(1)] low assms(1) by (auto simp: valid_name_def)
  next
    case 3
    then show ?thesis
      using name_parse_valid [OF assms(1) 3] low by (auto simp: valid_name_def intro: suffix_lower_name)
  qed (simp add: low)
  then show "length n \<le> 127" and "suffix (b_lower_origin b) (lower_name n)" by simp_all
qed

lemma value_of_spec_Inr:
  "value_of_spec E spec t v = Inr d \<longleftrightarrow> length v \<le> MAX_VALUE_CHARS \<and> rdata_from_str E t v = Some d"
  by (auto simp: value_of_spec_def parse_value_def ok_or_def Let_def split: option.splits)

lemma values_typed:
  assumes "hickory_ok E" and "rmap (value_of_spec E spec t) vs = Inr rd" and "d \<in> set rd"
  shows "value_ok t d"
proof -
  from rmap_eq_Inr_mem [OF assms(2,3)] obtain v where "rdata_from_str E t v = Some d"
    by (auto simp: value_of_spec_Inr)
  then show ?thesis
    using assms(1) unfolding hickory_ok_def rdata_ok_def valid_name_def value_ok_def by blast
qed

lemma rposition_bound: "rposition p xs = Some i \<Longrightarrow> i < length xs \<and> p (xs ! i)"
  by (induction xs arbitrary: i) (auto split: option.splits if_splits)

lemma add_run_ok:
  assumes "runs_ok rs" and "rd \<noteq> []" and "\<forall>d \<in> set rd. value_ok t d"
  shows "runs_ok (add_run t ttl rd rs)"
proof -
  have new: "runs_ok (rs @ [\<lparr>s_type = t, s_ttl = ttl, s_rdata = rd\<rparr>])"
    using assms by (auto simp: runs_ok_def)
  show ?thesis
  proof (cases "rposition (\<lambda>r. s_type r = t) rs")
    case (Some i)
    from rposition_bound [OF Some] have i: "rs ! i \<in> set rs" "s_type (rs ! i) = t" by simp_all
    then have "runs_ok (rs[i := (rs ! i)\<lparr>s_rdata := s_rdata (rs ! i) @ rd\<rparr>])"
      using assms by (auto simp: runs_ok_def dest!: set_update_subset_insert [THEN subsetD])
    with Some new show ?thesis by (simp add: add_run_def)
  qed (use new in \<open>simp add: add_run_def\<close>)
qed

lemma entry_update_keys: "set (map fst (entry_update k fresh f es)) = insert k (set (map fst es))"
  by (induction k fresh f es rule: entry_update.induct) auto

lemma entry_update_distinct: "distinct (map fst es) \<Longrightarrow> distinct (map fst (entry_update k fresh f es))"
proof (induction k fresh f es rule: entry_update.induct)
  case (2 key fresh f k nd es)
  then show ?case using entry_update_keys [of key fresh f es] by auto
qed simp

lemma entry_update_mem:
  "e \<in> set (entry_update k fresh f es) \<Longrightarrow> e \<in> set es \<or> e = (k, f fresh) \<or> (\<exists>nd. (k, nd) \<in> set es \<and> e = (k, f nd))"
  by (induction k fresh f es rule: entry_update.induct) (auto split: if_splits)

lemma map_of_entry_update:
  "map_of (entry_update k fresh f es) j =
     (if j = k then Some (f (case map_of es k of Some nd \<Rightarrow> nd | None \<Rightarrow> fresh)) else map_of es j)"
  by (induction k fresh f es rule: entry_update.induct) auto

lemma insert_spec_Inr:
  assumes "insert_spec E spec b = Inr b'"
  obtains t owner rd where
    "rtype_from_str E (to_uppercase (spec_type spec)) = Some t" "spec_values spec \<noteq> []"
    "qualify E b (if trim (spec_name spec) = ''*'' \<or> starts_with ''*.'' (trim (spec_name spec))
       then trim_start_dots (tl (trim (spec_name spec))) else trim (spec_name spec)) = Inr owner"
    "rmap (value_of_spec E spec t) (spec_values spec) = Inr rd"
    "b' = (let w = (trim (spec_name spec) = ''*'' \<or> starts_with ''*.'' (trim (spec_name spec)));
            b1 = b\<lparr>b_record_count := b_record_count b + length rd\<rparr>
        in case (if w then prepend_label E owner WILDCARD_LABEL else Some owner) of
            None \<Rightarrow> b1
          | Some n \<Rightarrow> b1\<lparr>b_nodes := entry_update (lower_from E n) \<lparr>s_name = n, s_wildcard = w, s_rrsets = []\<rparr>
              (\<lambda>nd. nd\<lparr>s_rrsets := add_run t (unwrap_or (b_default_ttl b) (spec_ttl spec)) rd (s_rrsets nd)\<rparr>)
              (b_nodes b)\<rparr>)"
  using assms unfolding insert_spec_def
  by (auto simp: rbind_eq_Inr Let_def split: if_splits option.splits)

lemma insert_spec_ok:
  assumes E: "hickory_ok E" and b: "builder_ok b" and step: "insert_spec E spec b = Inr b'"
  shows "builder_ok b'"
  using step
proof (cases rule: insert_spec_Inr)
  case (1 t owner rd)
  let ?w = "trim (spec_name spec) = ''*'' \<or> starts_with ''*.'' (trim (spec_name spec))"
  let ?ttl = "unwrap_or (b_default_ttl b) (spec_ttl spec)"
  note owner = qualify_ok [OF E b 1(3)]
  have rd: "rd \<noteq> []" "\<forall>d \<in> set rd. value_ok t d"
    using 1(2) rmap_length [OF 1(4)] values_typed [OF E 1(4)] by auto
  show ?thesis
  proof (cases "if ?w then prepend_label E owner WILDCARD_LABEL else Some owner")
    case None
    with 1(5) b show ?thesis by (auto simp: Let_def builder_ok_def)
  next
    case (Some n)
    have n: "length n \<le> 127" "suffix (b_lower_origin b) (lower_name n)"
      using Some owner prepend_label_Some [OF E, of owner WILDCARD_LABEL n]
      by (auto simp: valid_name_def suffix_ConsI split: if_splits)
    let ?f = "\<lambda>nd. nd\<lparr>s_rrsets := add_run t ?ttl rd (s_rrsets nd)\<rparr>"
    let ?es = "entry_update (lower_name n) \<lparr>s_name = n, s_wildcard = ?w, s_rrsets = []\<rparr> ?f (b_nodes b)"
    have es: "entries_ok (b_lower_origin b) (b_nodes b)" using b unfolding builder_ok_def by blast
    have "entry_ok (b_lower_origin b) e" if "e \<in> set ?es" for e
      using entry_update_mem [OF that] es n rd
      by (auto simp: entries_ok_def entry_ok_def runs_ok_def [of "[]"] intro!: add_run_ok)
    then have "entries_ok (b_lower_origin b) ?es"
      using es entry_update_distinct by (auto simp: entries_ok_def)
    then show ?thesis using 1(5) b Some E by (simp add: Let_def builder_ok_def)
  qed
qed

lemma insert_spec_frame:
  assumes "insert_spec E spec b = Inr b'"
  shows "b_lower_origin b' = b_lower_origin b" and "b_origin b' = b_origin b"
    and "b_default_ttl b' = b_default_ttl b"
  by (rule insert_spec_Inr [OF assms], simp add: Let_def split: option.split)+

lemma builder_new_ok: "length origin \<le> 127 \<Longrightarrow> builder_ok (builder_new origin (lower_name origin) ttl)"
  by (simp add: builder_ok_def builder_new_def entries_ok_def)

lemma with_apex_ok:
  assumes "builder_ok b"
  shows "entries_ok (b_lower_origin b) (with_apex b)" and "has_key (b_lower_origin b) (with_apex b)"
  using assms by (auto simp: with_apex_def builder_ok_def entries_ok_def entry_ok_def runs_ok_def has_key_iff)

section \<open>Ancestor closure\<close>

definition parent_present :: "name \<Rightarrow> entry list \<Rightarrow> name \<Rightarrow> bool" where
  "parent_present lower es k \<longleftrightarrow> k = lower \<or> has_key (tl k) es"

lemma shallow_parent:
  assumes "suffix lower k" and "length k \<le> length lower + 1" and "has_key lower es"
  shows "parent_present lower es k"
proof -
  from assms(1) obtain zs where k: "k = zs @ lower" by (auto simp: suffix_def)
  with assms(2) have "zs = [] \<or> length zs = 1" by (cases zs) auto
  with k assms(3) show ?thesis by (cases zs) (auto simp: parent_present_def)
qed

lemma key_facts: "entries_ok lower es \<Longrightarrow> has_key k es \<Longrightarrow> suffix lower k \<and> length k \<le> 127"
  by (auto simp: entries_ok_def entry_ok_def has_key_iff)

lemma implied_node_ok:
  "is_lower k \<Longrightarrow> suffix lower k \<Longrightarrow> length k \<le> 127 \<Longrightarrow> entry_ok lower (implied_node k)"
  by (simp add: entry_ok_def implied_node_def is_lower_def runs_ok_def)

lemma climb_inv:
  assumes E: "hickory_ok E"
    and "entries_ok lower es" and "has_key lower es" and "has_key (lower_name cur) es" and "length cur \<le> fuel"
    and "\<forall>k \<in> fst ` set es. k = lower_name cur \<or> k \<in> R \<or> parent_present lower es k"
  shows "entries_ok lower (climb E fuel (length lower) cur es) \<and>
    (\<exists>ks. climb E fuel (length lower) cur es = es @ map implied_node ks \<and> (\<forall>k \<in> set ks. suffix k (lower_name cur))) \<and>
    (\<forall>k \<in> fst ` set (climb E fuel (length lower) cur es).
       k \<in> R \<or> parent_present lower (climb E fuel (length lower) cur es) k)"
  using assms(2-)
proof (induction fuel arbitrary: cur es)
  case 0
  then have "parent_present lower es (lower_name cur)"
    using key_facts [OF 0(1,3)] by (intro shallow_parent) simp_all
  with 0 show ?case by (auto intro!: exI [of _ "[]"])
next
  case (Suc fuel)
  have cur: "suffix lower (lower_name cur)" "length cur \<le> 127"
    using key_facts [OF Suc.prems(1,3)] by simp_all
  let ?key = "tl (lower_name cur)"
  have key: "lower_from E (base_name E cur) = ?key" using E by (simp add: lower_name_tl)
  consider "\<not> length lower + 1 < length cur" | "length lower + 1 < length cur" "has_key ?key es"
    | "length lower + 1 < length cur" "\<not> has_key ?key es" by blast
  then show ?case
  proof cases
    case 1
    then have "parent_present lower es (lower_name cur)"
      using shallow_parent [OF cur(1) _ Suc.prems(2)] by simp
    with 1 Suc.prems show ?thesis by (auto intro!: exI [of _ "[]"])
  next
    case 2
    then have "parent_present lower es (lower_name cur)" by (simp add: parent_present_def)
    with 2 key Suc.prems show ?thesis by (auto intro!: exI [of _ "[]"])
  next
    case 3
    let ?es = "es @ [implied_node ?key]"
    have low: "is_lower ?key" by (simp add: is_lower_tl)
    then have lk: "lower_name ?key = ?key" by (simp add: is_lower_def)
    obtain l p where split: "lower_name cur = l # p" using 3(1) by (cases cur) auto
    have "lower \<noteq> l # p" using 3(1) split length_lower_name [of cur] by auto
    then have suf: "suffix lower ?key" using cur(1) by (simp add: split suffix_Cons)
    have new: "entry_ok lower (implied_node ?key)"
      using low suf cur(2) by (intro implied_node_ok) simp_all
    have mono: "parent_present lower es k \<Longrightarrow> parent_present lower ?es k" for k
      by (auto simp: parent_present_def has_key_iff)
    have here: "parent_present lower ?es (lower_name cur)"
      by (simp add: parent_present_def has_key_iff implied_node_def)
    have keys: "fst ` set ?es = insert ?key (fst ` set es)" by (auto simp: implied_node_def)
    have inv: "\<forall>k \<in> fst ` set ?es. k = lower_name ?key \<or> k \<in> R \<or> parent_present lower ?es k"
    proof
      fix k assume "k \<in> fst ` set ?es"
      then consider "k = ?key" | "k \<in> fst ` set es" unfolding keys by blast
      then show "k = lower_name ?key \<or> k \<in> R \<or> parent_present lower ?es k"
        by cases (use lk Suc.prems(5) here mono [of k] in auto)
    qed
    have "entries_ok lower ?es"
      using Suc.prems(1) 3(2) new by (auto simp: entries_ok_def has_key_iff implied_node_def)
    moreover have "has_key lower ?es" "has_key (lower_name ?key) ?es" "length ?key \<le> fuel"
      using Suc.prems(2,4) lk by (auto simp: has_key_iff implied_node_def)
    ultimately have IH: "entries_ok lower (climb E fuel (length lower) ?key ?es)"
      "\<exists>ks. climb E fuel (length lower) ?key ?es = ?es @ map implied_node ks \<and> (\<forall>k \<in> set ks. suffix k ?key)"
      "\<forall>k \<in> fst ` set (climb E fuel (length lower) ?key ?es).
         k \<in> R \<or> parent_present lower (climb E fuel (length lower) ?key ?es) k"
      using Suc.IH [of ?es ?key] inv lk by simp_all
    have step: "climb E (Suc fuel) (length lower) cur es = climb E fuel (length lower) ?key ?es"
      using 3 key by (simp add: Let_def)
    from IH(2) obtain ks where ks: "climb E fuel (length lower) ?key ?es = ?es @ map implied_node ks"
      "\<forall>k \<in> set ks. suffix k ?key" by blast
    have "suffix ?key (lower_name cur)" by (simp add: split suffix_ConsI)
    then have "\<exists>ks'. climb E fuel (length lower) ?key ?es = es @ map implied_node ks' \<and>
        (\<forall>k \<in> set ks'. suffix k (lower_name cur))"
      using ks by (intro exI [of _ "?key # ks"]) (auto intro: suffix_order.trans)
    with IH(1,3) show ?thesis unfolding step by blast
  qed
qed

definition closed_entries :: "name \<Rightarrow> entry list \<Rightarrow> bool" where
  "closed_entries lower es \<longleftrightarrow> entries_ok lower es \<and> has_key lower es \<and>
     (\<forall>k \<in> fst ` set es. parent_present lower es k)"

lemma climb_fold:
  assumes E: "hickory_ok E"
    and "entries_ok lower es" and "has_key lower es" and "\<forall>n \<in> set pending. has_key (lower_name n) es"
    and "\<forall>k \<in> fst ` set es. k \<in> lower_name ` set pending \<or> parent_present lower es k"
  shows "closed_entries lower (fold (\<lambda>n. climb E (length n) (length lower) n) pending es) \<and>
    (\<exists>ks. fold (\<lambda>n. climb E (length n) (length lower) n) pending es = es @ map implied_node ks \<and>
       (\<forall>k \<in> set ks. \<exists>n \<in> set pending. suffix k (lower_name n)))"
  using assms(2-)
proof (induction pending arbitrary: es)
  case Nil
  then show ?case by (simp add: closed_entries_def)
next
  case (Cons n ns)
  let ?es = "climb E (length n) (length lower) n es"
  have c: "entries_ok lower ?es"
    "\<exists>ks. ?es = es @ map implied_node ks \<and> (\<forall>k \<in> set ks. suffix k (lower_name n))"
    "\<forall>k \<in> fst ` set ?es. k \<in> lower_name ` set ns \<or> parent_present lower ?es k"
    using climb_inv [OF E Cons.prems(1,2), of n "length n" "lower_name ` set ns"] Cons.prems(3,4) by auto
  from c(2) obtain ks where ks: "?es = es @ map implied_node ks" "\<forall>k \<in> set ks. suffix k (lower_name n)" by blast
  then have "has_key lower ?es" "\<forall>m \<in> set ns. has_key (lower_name m) ?es"
    using Cons.prems(2,3) by (auto simp: has_key_iff)
  from Cons.IH [OF c(1) this c(3)] obtain ks' where
    IH: "closed_entries lower (fold (\<lambda>n. climb E (length n) (length lower) n) ns ?es)"
      "fold (\<lambda>n. climb E (length n) (length lower) n) ns ?es = ?es @ map implied_node ks'"
      "\<forall>k \<in> set ks'. \<exists>n \<in> set ns. suffix k (lower_name n)" by blast
  have "?es @ map implied_node ks' = es @ map implied_node (ks @ ks')" using ks(1) by simp
  moreover have "\<forall>k \<in> set (ks @ ks'). \<exists>m \<in> set (n # ns). suffix k (lower_name m)" using ks(2) IH(3) by auto
  ultimately show ?case using IH(1,2) by (metis (no_types, lifting) fold_simps(2))
qed

lemma materialise_closed:
  assumes E: "hickory_ok E" and it: "iter_ok iter" and es: "entries_ok lower es" "has_key lower es"
  shows "closed_entries lower (materialise_ancestors E iter lower es)"
    and "\<exists>ks. materialise_ancestors E iter lower es = es @ map implied_node ks \<and>
      (\<forall>k \<in> set ks. \<exists>e \<in> set es. suffix k (fst e))"
proof -
  let ?p = "map (\<lambda>e. s_name (snd e)) (filter (\<lambda>e. length lower + 1 < length (s_name (snd e))) (iter es))"
  have keys: "fst e = lower_name (s_name (snd e))" if "e \<in> set es" for e
    using that es(1) by (auto simp: entries_ok_def entry_ok_def)
  have 1: "\<forall>n \<in> set ?p. has_key (lower_name n) es"
  proof
    fix n assume "n \<in> set ?p"
    then obtain e where "e \<in> set es" "n = s_name (snd e)" using it by auto
    then show "has_key (lower_name n) es" using keys [of e] by (metis has_key_iff imageI)
  qed
  have 2: "\<forall>k \<in> fst ` set es. k \<in> lower_name ` set ?p \<or> parent_present lower es k"
  proof
    fix k assume "k \<in> fst ` set es"
    then obtain e where e: "e \<in> set es" "k = fst e" by auto
    show "k \<in> lower_name ` set ?p \<or> parent_present lower es k"
    proof (cases "length lower + 1 < length (s_name (snd e))")
      case True
      then show ?thesis using e keys [OF e(1)] it by auto
    next
      case False
      then have "parent_present lower es k"
        using e keys [OF e(1)] es by (intro shallow_parent) (auto simp: entries_ok_def entry_ok_def)
      then show ?thesis by blast
    qed
  qed
  note cf = climb_fold [OF E es 1 2]
  have eq: "materialise_ancestors E iter lower es = fold (\<lambda>n. climb E (length n) (length lower) n) ?p es"
    by (simp add: materialise_ancestors_def label_count_def Let_def)
  show "closed_entries lower (materialise_ancestors E iter lower es)" unfolding eq using cf by blast
  from cf obtain ks where ks: "fold (\<lambda>n. climb E (length n) (length lower) n) ?p es = es @ map implied_node ks"
    "\<forall>k \<in> set ks. \<exists>n \<in> set ?p. suffix k (lower_name n)" by blast
  have "\<exists>e \<in> set es. suffix k (fst e)" if "k \<in> set ks" for k
  proof -
    from that ks(2) obtain n where "n \<in> set ?p" "suffix k (lower_name n)" by blast
    then obtain e where "e \<in> set es" "suffix k (lower_name (s_name (snd e)))" using it by auto
    then show ?thesis using keys by metis
  qed
  with ks(1) show "\<exists>ks. materialise_ancestors E iter lower es = es @ map implied_node ks \<and>
      (\<forall>k \<in> set ks. \<exists>e \<in> set es. suffix k (fst e))" unfolding eq by blast
qed

lemma closed_iter:
  assumes "iter_ok iter" and "closed_entries lower es"
  shows "closed_entries lower (iter es)"
  using assms by (simp add: closed_entries_def entries_ok_def iter_distinct parent_present_def has_key_iff)

end
