(* ===== verification/Zone_Layout.thy ===== *)
theory Zone_Layout
  imports Zone_Entries
begin

text \<open>
  The layout pass: the byte keys put the entries in canonical order with the apex first, and the
  single pass over that order, keeping the ancestors of the current node on a stack, gives every
  node the nearest delegation at or above it.
\<close>

section \<open>Keys\<close>

lemma slice_middle: "slice_get (a @ b @ c) (length a) (length a + length b) = Some b"
  by (simp add: slice_get_def)

lemma write_keys_Inr:
  assumes "write_keys es keys spans = Inr (keys', spans')"
  shows "\<exists>zs sp. keys' = keys @ zs \<and> spans' = spans @ sp \<and> length sp = length es \<and>
    (\<forall>i < length es. span_get keys' (sp ! i) = Some (canonical_key_of (fst (es ! i)))) \<and>
    zs = concat (map (\<lambda>e. canonical_key_of (fst e)) es) \<and> (es \<noteq> [] \<longrightarrow> length keys' < 2 ^ 32)"
  using assms
proof (induction es arbitrary: keys spans)
  case (Cons e es)
  let ?k = "canonical_key_of (fst e)"
  have w: "write_canonical_sort_key (fst e) keys = keys @ ?k" by (rule canonical_key_append)
  from Cons.prems obtain a b where a: "arena_offset (length keys) = Inr a"
    and b: "arena_offset (length keys + length ?k) = Inr b"
    and rec: "write_keys es (keys @ ?k) (spans @ [(a, b)]) = Inr (keys', spans')"
    by (auto simp: rbind_eq_Inr Let_def w)
  from Cons.IH [OF rec] obtain zs sp where IH: "keys' = (keys @ ?k) @ zs" "spans' = (spans @ [(a, b)]) @ sp"
    "length sp = length es" "\<forall>i < length es. span_get keys' (sp ! i) = Some (canonical_key_of (fst (es ! i)))"
    "zs = concat (map (\<lambda>e. canonical_key_of (fst e)) es)" "es \<noteq> [] \<longrightarrow> length keys' < 2 ^ 32" by blast
  have "span_get keys' (a, b) = Some ?k"
    using span_get_arena [OF a b, of keys'] slice_middle [of keys ?k zs] IH(1) by simp
  with IH(4) have "\<forall>i < length (e # es). span_get keys' (((a, b) # sp) ! i) = Some (canonical_key_of (fst ((e # es) ! i)))"
    by (auto simp: nth_Cons split: nat.split)
  moreover have "length keys' < 2 ^ 32"
    using IH(1,5,6) b by (cases "es = []") (auto simp: arena_offset_Inr)
  ultimately show ?case
    using IH by (intro exI [of _ "?k @ zs"] exI [of _ "(a, b) # sp"]) simp
qed simp

lemma key_of_eq:
  assumes "write_keys es [] [] = Inr (keys, spans)" and "i < length es"
  shows "key_of keys spans i = canonical_key_of (fst (es ! i))"
proof -
  from write_keys_Inr [OF assms(1)] have "length spans = length es"
    "span_get keys (spans ! i) = Some (canonical_key_of (fst (es ! i)))"
    using assms(2) by auto
  then show ?thesis using assms(2) by (simp add: key_of_def list_get_def)
qed

lemma key_length: "n \<noteq> [] \<Longrightarrow> 2 \<le> length (canonical_key_of n)"
  by (cases n) (simp_all add: canonical_key_eq enc_label_def)

text \<open>The shared key buffer bounds the number of nodes well below the sentinel index.\<close>

lemma sum_list_two:
  "(\<forall>x \<in> set xs. x \<noteq> [] \<longrightarrow> 2 \<le> f x) \<Longrightarrow> distinct xs \<Longrightarrow> 2 * length xs \<le> sum_list (map f xs) + 2"
  for f :: "'a list \<Rightarrow> nat"
proof (induction xs)
  case (Cons x xs)
  show ?case
  proof (cases "x = []")
    case True
    with Cons.prems have "\<forall>y \<in> set xs. 2 \<le> f y" by auto
    then have "2 * length xs \<le> sum_list (map f xs)"
      by (induction xs) auto
    then show ?thesis by simp
  qed (use Cons in auto)
qed simp

lemma write_keys_bound:
  assumes "write_keys es [] [] = Inr (keys, spans)" and "distinct (map fst es)"
  shows "length es < 2 ^ 32 - 1"
proof (cases "es = []")
  case False
  with write_keys_Inr [OF assms(1)]
  have "length (concat (map (\<lambda>e. canonical_key_of (fst e)) es)) < 2 ^ 32" by auto
  then have "sum_list (map (\<lambda>n. length (canonical_key_of n)) (map fst es)) < 2 ^ 32"
    by (simp add: length_concat comp_def)
  moreover have "2 * length (map fst es) \<le> sum_list (map (\<lambda>n. length (canonical_key_of n)) (map fst es)) + 2"
    using assms(2) by (intro sum_list_two) (auto intro: key_length)
  ultimately show ?thesis by simp
qed simp

section \<open>The canonical order\<close>

definition ranked :: "entry list \<Rightarrow> nat list \<Rightarrow> name list" where
  "ranked es order = map (\<lambda>p. fst (es ! p)) order"

definition order_ok :: "name \<Rightarrow> entry list \<Rightarrow> nat list \<Rightarrow> bool" where
  "order_ok lower es order \<longleftrightarrow> mset order = mset [0..<length es] \<and>
     (\<forall>i < length es. \<forall>j < i. canonical_less (ranked es order ! j) (ranked es order ! i)) \<and>
     ranked es order ! 0 = lower"

lemma entry_key_lower: "entries_ok lower es \<Longrightarrow> e \<in> set es \<Longrightarrow> lower_name (fst e) = fst e"
  by (simp add: entries_ok_def entry_ok_def)

lemma entry_key_facts:
  assumes "entries_ok lower es" and "k \<in> fst ` set es"
  shows "lower_name k = k" and "suffix lower k" and "length k \<le> 127"
  using assms by (auto simp: entries_ok_def entry_ok_def)

lemma order_facts:
  assumes "order_ok lower es order"
  shows "length order = length es" and "set order = {0..<length es}" and "distinct order"
proof -
  have m: "mset order = mset [0..<length es]" using assms by (simp add: order_ok_def)
  from mset_eq_length [OF m] show "length order = length es" by simp
  from mset_eq_setD [OF m] show "set order = {0..<length es}" by simp
  from mset_eq_imp_distinct_iff [OF m] show "distinct order" by simp
qed

lemma ranked_facts:
  assumes ok: "order_ok lower es order" and es: "entries_ok lower es"
  shows "length (ranked es order) = length es" and "set (ranked es order) = fst ` set es"
    and "distinct (ranked es order)"
proof -
  show "length (ranked es order) = length es" using order_facts(1) [OF ok] by (simp add: ranked_def)
  have "set (ranked es order) = (\<lambda>p. fst (es ! p)) ` {0..<length es}"
    using order_facts(2) [OF ok] by (simp add: ranked_def)
  also have "\<dots> = fst ` (\<lambda>p. es ! p) ` {0..<length es}" by (simp add: image_image)
  also have "(\<lambda>p. es ! p) ` {0..<length es} = set es"
    by (metis list.set_map map_nth set_upt)
  finally show "set (ranked es order) = fst ` set es" .
  have "inj_on (\<lambda>p. fst (es ! p)) (set order)"
    using es order_facts(2) [OF ok] nth_eq_iff_index_eq [of "map fst es"]
    by (auto simp: inj_on_def entries_ok_def)
  then show "distinct (ranked es order)"
    using order_facts(3) [OF ok] by (simp add: ranked_def distinct_map)
qed

lemma sorted_order_ok:
  assumes es: "closed_entries lower es"
    and key: "\<And>i. i < length es \<Longrightarrow> key i = canonical_key_of (fst (es ! i))"
  shows "order_ok lower es (sort_key key [0..<length es])"
proof -
  let ?o = "sort_key key [0..<length es]"
  let ?N = "ranked es ?o"
  have eok: "entries_ok lower es" using es by (simp add: closed_entries_def)
  have len: "length ?o = length es" and set_o: "set ?o = {0..<length es}" and d: "distinct ?o" by simp_all
  have N: "?N ! i = fst (es ! (?o ! i))" "?o ! i < length es" if "i < length es" for i
  proof -
    show "?N ! i = fst (es ! (?o ! i))" using that by (simp add: ranked_def)
    have "?o ! i \<in> set ?o" using that by (metis len nth_mem)
    then show "?o ! i < length es" by simp
  qed
  have low: "lower_name (?N ! i) = ?N ! i" if "i < length es" for i
    using N [OF that] eok by (simp add: entry_key_lower)
  have inj: "?N ! i \<noteq> ?N ! j" if "i < length es" "j < length es" "i \<noteq> j" for i j
    using N [OF that(1)] N [OF that(2)] that d eok len
    by (auto simp: entries_ok_def distinct_conv_nth)
  have sorted: "canonical_less (?N ! j) (?N ! i)" if "i < length es" "j < i" for i j
  proof -
    have "sorted (map key ?o)" by simp
    then have "key (?o ! j) \<le> key (?o ! i)" using that by (simp add: sorted_iff_nth_mono)
    then have "canonical_key_of (?N ! j) \<le> canonical_key_of (?N ! i)"
      using that N key by simp
    moreover have "canonical_key_of (?N ! j) \<noteq> canonical_key_of (?N ! i)"
      using that inj [of j i] low [of i] low [of j] by (simp add: key_eq_iff)
    ultimately show ?thesis by (simp add: key_less_iff [symmetric])
  qed
  have "?N ! 0 = lower"
  proof -
    have "has_key lower es" using es by (simp add: closed_entries_def)
    then obtain p where p: "p < length es" "fst (es ! p) = lower" by (auto simp: has_key_iff in_set_conv_nth)
    with set_o have "p \<in> set ?o" by simp
    then obtain q where q: "q < length es" "?o ! q = p" using len by (metis in_set_conv_nth)
    with N [OF q(1)] p have nq: "?N ! q = lower" by simp
    have "suffix lower (?N ! 0)" if "0 < q"
    proof -
      have "0 < length es" using q(1) by linarith
      then have "es ! (?o ! 0) \<in> set es" "?N ! 0 = fst (es ! (?o ! 0))" using N [of 0] by simp_all
      then show ?thesis using entry_key_facts(2) [OF eok] by simp
    qed
    then have "\<not> canonical_less (?N ! 0) (?N ! q)" if "0 < q"
    proof -
      have "0 < length es" using q(1) by linarith
      then show ?thesis
        using that \<open>0 < q \<Longrightarrow> suffix lower (?N ! 0)\<close> canon.below_not_less [of lower "?N ! 0"]
          low [of 0] low [of q] q(1) nq by simp
    qed
    with sorted [of q 0] q(1) nq show ?thesis by (cases "q = 0") auto
  qed
  with sorted show ?thesis by (simp add: order_ok_def)
qed

section \<open>Ancestor chains\<close>

fun ancs :: "nat \<Rightarrow> name \<Rightarrow> name list" where
  "ancs f [] = [[]]"
| "ancs f (l # p) = (l # p) # (if f < length (l # p) then ancs f p else [])"

lemma ancs_head: "\<exists>zs. ancs f n = n # zs"
  by (cases n) auto

lemma ancs_tl: "f < length n \<Longrightarrow> ancs f n = n # ancs f (tl n)"
  by (cases n) auto

lemma ancs_floor: "length n \<le> f \<Longrightarrow> ancs f n = [n]"
  by (cases n) auto

lemma ancs_split:
  assumes "suffix p x" and "f \<le> length p"
  shows "\<exists>zs. ancs f x = zs @ ancs f p \<and> (\<forall>z \<in> set zs. length p < length z)"
  using assms
proof (induction x)
  case (Cons l x)
  show ?case
  proof (cases "p = l # x")
    case False
    with Cons.prems have "suffix p x" by (simp add: suffix_Cons)
    with Cons obtain zs where zs: "ancs f x = zs @ ancs f p" "\<forall>z \<in> set zs. length p < length z" by blast
    moreover have "length p \<le> length x" using \<open>suffix p x\<close> by (rule suffix_length_le)
    ultimately show ?thesis
      using Cons.prems(2) by (intro exI [of _ "(l # x) # zs"]) auto
  qed simp
qed simp

lemma dropWhile_ancs:
  assumes "suffix (tl m) x" and "f \<le> length (tl m)" and "m \<noteq> []"
  shows "dropWhile (\<lambda>z. \<not> strict_suffix z m) (ancs f x) = ancs f (tl m)"
proof -
  from ancs_split [OF assms(1,2)] obtain zs where zs: "ancs f x = zs @ ancs f (tl m)"
    "\<forall>z \<in> set zs. length (tl m) < length z" by blast
  have "\<not> strict_suffix z m" if "z \<in> set zs" for z
  proof
    assume s: "strict_suffix z m"
    then have "length z < length m" by (auto simp: strict_suffix_def suffix_def)
    with zs(2) that show False by fastforce
  qed
  then have "dropWhile (\<lambda>z. \<not> strict_suffix z m) (ancs f x) = dropWhile (\<lambda>z. \<not> strict_suffix z m) (ancs f (tl m))"
    unfolding zs(1) by (intro dropWhile_append2) blast
  moreover have "strict_suffix (tl m) m" using assms(3) by (cases m) (auto simp: strict_suffix_def suffix_ConsI)
  ultimately show ?thesis using ancs_head [of f "tl m"] by auto
qed

lemma is_strict_prefix_iff:
  assumes "lower_name a = a" and "lower_name b = b"
  shows "is_strict_prefix (canonical_key_of a) (canonical_key_of b) \<longleftrightarrow> strict_suffix a b"
proof -
  have p: "prefix (canonical_key_of a) (canonical_key_of b) \<longleftrightarrow> suffix a b"
    and q: "canonical_key_of a = canonical_key_of b \<longleftrightarrow> a = b"
    using assms by (simp_all add: key_prefix_iff key_eq_iff)
  have "is_strict_prefix (canonical_key_of a) (canonical_key_of b) \<longleftrightarrow>
      prefix (canonical_key_of a) (canonical_key_of b) \<and> canonical_key_of a \<noteq> canonical_key_of b"
    unfolding is_strict_prefix_def by (metis nat_less_le prefix_length_less prefix_order.dual_order.strict_iff_order prefix_length_le)
  then show ?thesis by (auto simp: p q strict_suffix_def)
qed

section \<open>The nearest delegation\<close>

fun cut_by :: "(name \<Rightarrow> nat option) \<Rightarrow> name \<Rightarrow> nat option" where
  "cut_by d [] = d []"
| "cut_by d (l # p) = (case d (l # p) of Some r \<Rightarrow> Some r | None \<Rightarrow> cut_by d p)"

definition enc_cut :: "nat option \<Rightarrow> u32" where
  "enc_cut c = (case c of None \<Rightarrow> NONE_IDX | Some r \<Rightarrow> of_nat r)"

definition deleg_rank :: "hickory \<Rightarrow> entry list \<Rightarrow> nat list \<Rightarrow> nat \<Rightarrow> bool" where
  "deleg_rank E es order r \<longleftrightarrow> r \<noteq> 0 \<and> ns_targets E (snd (es ! (order ! r))) \<noteq> None"

definition deleg_named :: "hickory \<Rightarrow> entry list \<Rightarrow> nat list \<Rightarrow> name \<Rightarrow> nat option" where
  "deleg_named E es order n =
     (case position n (ranked es order) of
        Some r \<Rightarrow> (if deleg_rank E es order r then Some r else None)
      | None \<Rightarrow> None)"

lemma cut_by_None: "(\<And>k. d (drop k n) = None) \<Longrightarrow> cut_by d n = None"
proof (induction n)
  case Nil
  from Nil [of 0] show ?case by simp
next
  case (Cons l p)
  have "d (drop k p) = None" for k using Cons.prems [of "Suc k"] by simp
  then have "cut_by d p = None" by (rule Cons.IH)
  with Cons.prems [of 0] show ?case by simp
qed

lemma cut_by_Some: "cut_by d n = Some r \<Longrightarrow> \<exists>k. d (drop k n) = Some r"
proof (induction n)
  case Nil
  then show ?case by simp
next
  case (Cons l p)
  show ?case
  proof (cases "d (l # p)")
    case None
    with Cons obtain k where "d (drop k p) = Some r" by auto
    then show ?thesis by (intro exI [of _ "Suc k"]) simp
  next
    case (Some r')
    with Cons.prems show ?thesis by (intro exI [of _ 0]) simp
  qed
qed

section \<open>The pass\<close>

definition layout_inv :: "hickory \<Rightarrow> name \<Rightarrow> entry list \<Rightarrow> nat list \<Rightarrow> nat \<Rightarrow> layout_state \<Rightarrow> bool" where
  "layout_inv E lower es order R s \<longleftrightarrow>
     l_cut_of s = map (\<lambda>r. enc_cut (cut_by (deleg_named E es order) (ranked es order ! r))) [0..<R] \<and>
     (\<forall>a \<in> set (l_ancestry s). a < R) \<and>
     map (\<lambda>a. ranked es order ! a) (l_ancestry s) =
       (if R = 0 then [] else ancs (length lower) (ranked es order ! (R - 1))) \<and>
     (\<forall>r < R. deleg_rank E es order r \<longrightarrow> l_delegations s (of_nat r) = ns_targets E (snd (es ! (order ! r))))"

lemma ranked_parent:
  assumes ok: "order_ok lower es order" and es: "closed_entries lower es" and r: "0 < r" "r < length es"
  obtains q where "q < r" and "ranked es order ! q = tl (ranked es order ! r)"
    and "length lower \<le> length (tl (ranked es order ! r))" and "ranked es order ! r \<noteq> []"
    and "suffix (tl (ranked es order ! r)) (ranked es order ! (r - 1))"
proof -
  let ?N = "ranked es order"
  have eok: "entries_ok lower es" using es by (simp add: closed_entries_def)
  note N = ranked_facts [OF ok eok]
  have n0: "?N ! 0 = lower" using ok by (simp add: order_ok_def)
  have ne: "?N ! r \<noteq> lower" using N(1,3) r n0 by (metis nth_eq_iff_index_eq less_trans not_less_zero nat_neq_iff)
  have mem: "?N ! i \<in> fst ` set es" if "i < length es" for i using that N(1,2) by (metis nth_mem)
  have low: "lower_name (?N ! i) = ?N ! i" if "i < length es" for i
    by (rule entry_key_facts(1) [OF eok mem [OF that]])
  have suf: "suffix lower (?N ! r)" using mem [OF r(2)] eok by (auto simp: entries_ok_def entry_ok_def)
  have nn: "?N ! r \<noteq> []" using suf ne by auto
  then obtain l p where lp: "?N ! r = l # p" by (cases "?N ! r") auto
  have sp: "suffix lower p" using suf ne lp by (simp add: suffix_Cons)
  have "parent_present lower es (?N ! r)" using es mem [OF r(2)] unfolding closed_entries_def by blast
  then have "p \<in> set ?N" using ne lp N(2) by (simp add: parent_present_def has_key_iff)
  then obtain q where q: "q < length es" "?N ! q = p" using N(1) by (metis in_set_conv_nth)
  have less: "j < i \<Longrightarrow> i < length es \<Longrightarrow> canonical_less (?N ! j) (?N ! i)" for i j
    using ok by (simp add: order_ok_def)
  have below: "suffix (lower_name (?N ! q)) (lower_name (?N ! r))"
    using low [OF q(1)] low [OF r(2)] q(2) lp by (simp add: suffix_ConsI)
  have "q < r"
  proof (rule ccontr)
    assume "\<not> q < r"
    then consider "q = r" | "r < q" by linarith
    then show False
    proof cases
      case 1
      then show False using q(2) lp by auto
    next
      case 2
      then show False using less [OF _ q(1)] canon.below_not_less [OF below] by simp
    qed
  qed
  moreover have "suffix p (?N ! (r - 1))"
  proof (cases "q = r - 1")
    case True
    then show ?thesis using q(2) by simp
  next
    case False
    with \<open>q < r\<close> have "q < r - 1" "r - 1 < length es" "r - 1 < r" using r by simp_all
    then have "\<not> canonical_less (?N ! (r - 1)) (?N ! q)" "\<not> canonical_less (?N ! r) (?N ! (r - 1))"
      using less [of q "r - 1"] less [of "r - 1" r] r(2) by (auto simp: canonical_less_def)
    then have "suffix (lower_name (?N ! q)) (lower_name (?N ! (r - 1)))"
      by (rule canon.between_below [OF below])
    then show ?thesis using low [OF q(1)] low [OF \<open>r - 1 < length es\<close>] q(2) by simp
  qed
  ultimately show ?thesis using that [of q] q(2) lp nn suffix_length_le [OF sp] by simp
qed

lemma dropWhile_map_cong:
  assumes "map g xs = ys" and "\<And>x. x \<in> set xs \<Longrightarrow> P x = Q (g x)"
  shows "map g (dropWhile P xs) = dropWhile Q ys"
  using assms(2) unfolding assms(1) [symmetric]
  by (induction xs) auto

lemma layout_ancestry:
  assumes ok: "order_ok lower es order" and es: "closed_entries lower es" and R: "R < length es"
    and key: "\<And>i. i < length es \<Longrightarrow> key i = canonical_key_of (fst (es ! i))"
    and inv: "layout_inv E lower es order R s"
  shows "map (\<lambda>a. ranked es order ! a) (dropWhile (\<lambda>a. is_some_and (list_get order a)
      (\<lambda>p. \<not> is_strict_prefix (key p) (key (order ! R)))) (l_ancestry s)) =
    (if R = 0 then [] else ancs (length lower) (tl (ranked es order ! R)))"
proof (cases "R = 0")
  case True
  with inv show ?thesis by (simp add: layout_inv_def)
next
  case False
  let ?N = "ranked es order"
  have eok: "entries_ok lower es" using es by (simp add: closed_entries_def)
  have pos: "order ! a < length es" "?N ! a = fst (es ! (order ! a))" "lower_name (?N ! a) = ?N ! a"
    if "a < length es" for a
  proof -
    have "order ! a \<in> set order" using that order_facts(1) [OF ok] by simp
    then show "order ! a < length es" using order_facts(2) [OF ok] by simp
    then show "?N ! a = fst (es ! (order ! a))" "lower_name (?N ! a) = ?N ! a"
      using that order_facts(1) [OF ok] eok by (simp_all add: ranked_def entry_key_lower)
  qed
  obtain q where q: "length lower \<le> length (tl (?N ! R))" "?N ! R \<noteq> []" "suffix (tl (?N ! R)) (?N ! (R - 1))"
    using ranked_parent [OF ok es _ R] False by blast
  have "map (\<lambda>a. ?N ! a) (dropWhile (\<lambda>a. is_some_and (list_get order a)
      (\<lambda>p. \<not> is_strict_prefix (key p) (key (order ! R)))) (l_ancestry s)) =
      dropWhile (\<lambda>z. \<not> strict_suffix z (?N ! R)) (ancs (length lower) (?N ! (R - 1)))"
  proof (rule dropWhile_map_cong)
    show "map (\<lambda>a. ?N ! a) (l_ancestry s) = ancs (length lower) (?N ! (R - 1))"
      using inv False by (simp add: layout_inv_def)
    fix a assume "a \<in> set (l_ancestry s)"
    then have "a < R" using inv by (simp add: layout_inv_def)
    then have a: "a < length es" using R by simp
    have "is_strict_prefix (key (order ! a)) (key (order ! R)) \<longleftrightarrow> strict_suffix (?N ! a) (?N ! R)"
      using pos [OF a] pos [OF R] key is_strict_prefix_iff [OF pos(3) [OF a] pos(3) [OF R]] by simp
    then show "is_some_and (list_get order a) (\<lambda>p. \<not> is_strict_prefix (key p) (key (order ! R))) =
        (\<not> strict_suffix (?N ! a) (?N ! R))"
      using a order_facts(1) [OF ok] by (simp add: list_get_def)
  qed
  also have "\<dots> = ancs (length lower) (tl (?N ! R))"
    by (rule dropWhile_ancs [OF q(3,1,2)])
  finally show ?thesis using False by simp
qed

lemma deleg_named_nth:
  assumes "order_ok lower es order" and "entries_ok lower es" and "r < length es"
  shows "deleg_named E es order (ranked es order ! r) = (if deleg_rank E es order r then Some r else None)"
proof -
  note N = ranked_facts [OF assms(1,2)]
  have "position (ranked es order ! r) (ranked es order) = Some r"
    using N assms(3) position_nth [of "ranked es order" r] by simp
  then show ?thesis by (simp add: deleg_named_def)
qed

lemma cut_by_origin:
  assumes ok: "order_ok lower es order" and eok: "entries_ok lower es" and ne: "0 < length es"
  shows "cut_by (deleg_named E es order) (ranked es order ! 0) = None"
proof (rule cut_by_None)
  fix k
  let ?N = "ranked es order"
  note N = ranked_facts [OF ok eok]
  have n0: "?N ! 0 = lower" using ok by (simp add: order_ok_def)
  show "deleg_named E es order (drop k (?N ! 0)) = None"
  proof (cases "drop k lower = lower")
    case True
    then show ?thesis
      using deleg_named_nth [OF ok eok ne] n0 by (simp add: deleg_rank_def)
  next
    case False
    have "drop k lower \<notin> set ?N"
    proof
      assume "drop k lower \<in> set ?N"
      then have "suffix lower (drop k lower)" using entry_key_facts(2) [OF eok] N(2) by simp
      then have "length lower \<le> length (drop k lower)" by (rule suffix_length_le)
      with False show False by (cases "k = 0") (auto, cases lower, auto)
    qed
    then have "position (drop k lower) ?N = None" by (simp add: position_None)
    then show ?thesis using n0 by (simp add: deleg_named_def)
  qed
qed

lemma layout_step_inv:
  assumes ok: "order_ok lower es order" and es: "closed_entries lower es" and R: "R < length es"
    and small: "length es < 2 ^ 32"
    and key: "\<And>i. i < length es \<Longrightarrow> key i = canonical_key_of (fst (es ! i))"
    and inv: "layout_inv E lower es order R s"
    and step: "layout_step E es key order (R, order ! R) s = Inr s'"
  shows "layout_inv E lower es order (Suc R) s'"
proof -
  let ?N = "ranked es order" and ?d = "deleg_named E es order"
  have eok: "entries_ok lower es" using es by (simp add: closed_entries_def)
  define anc where "anc = dropWhile (\<lambda>a. is_some_and (list_get order a)
      (\<lambda>p. \<not> is_strict_prefix (key p) (key (order ! R)))) (l_ancestry s)"
  have anc: "map (\<lambda>a. ?N ! a) anc = (if R = 0 then [] else ancs (length lower) (tl (?N ! R)))"
    unfolding anc_def by (rule layout_ancestry [OF ok es R key inv])
  have sub: "\<forall>a \<in> set anc. a < R"
    using inv by (auto simp: anc_def layout_inv_def dest: set_dropWhileD)
  have cuts: "l_cut_of s = map (\<lambda>r. enc_cut (cut_by ?d (?N ! r))) [0..<R]" using inv by (simp add: layout_inv_def)
  define inh where "inh = unwrap_or NONE_IDX (Option.bind (list_get anc 0) (list_get (l_cut_of s)))"
  have inh: "inh = (if R = 0 then NONE_IDX else enc_cut (cut_by ?d (tl (?N ! R))))"
  proof (cases "R = 0")
    case True
    with anc show ?thesis by (simp add: inh_def list_get_def)
  next
    case False
    from anc False ancs_head [of "length lower" "tl (?N ! R)"] obtain a as where a: "anc = a # as" "?N ! a = tl (?N ! R)"
      by (cases anc) auto
    with sub have "a < R" by simp
    then show ?thesis using a False cuts by (simp add: inh_def list_get_def)
  qed
  have here: "cut_by ?d (?N ! R) = (if deleg_rank E es order R then Some R
      else if R = 0 then None else cut_by ?d (tl (?N ! R)))"
  proof (cases "R = 0")
    case True
    then show ?thesis using cut_by_origin [OF ok eok, of E] R by (simp add: deleg_rank_def)
  next
    case False
    then have "?N ! R \<noteq> []" using ranked_parent [OF ok es _ R] by blast
    then show ?thesis using False deleg_named_nth [OF ok eok R, of E] by (cases "?N ! R") simp_all
  qed
  have chain: "map (\<lambda>a. ?N ! a) (R # anc) = ancs (length lower) (?N ! R)"
  proof (cases "R = 0")
    case True
    then show ?thesis using anc ok ancs_floor [of lower "length lower"] by (simp add: order_ok_def)
  next
    case False
    then obtain q where "length lower \<le> length (tl (?N ! R))" "?N ! R \<noteq> []"
      using ranked_parent [OF ok es _ R] by blast
    then have "length lower < length (?N ! R)" by (cases "?N ! R") auto
    then show ?thesis using anc False ancs_tl [of "length lower" "?N ! R"] by simp
  qed
  have pos: "list_get es (order ! R) = Some (es ! (order ! R))"
    using order_facts [OF ok] R by (metis atLeastLessThan_iff list_get_def nth_mem)
  show ?thesis
  proof (cases "deleg_rank E es order R")
    case True
    then obtain ts where ts: "ns_targets E (snd (es ! (order ! R))) = Some ts" "R \<noteq> 0"
      by (auto simp: deleg_rank_def)
    with step pos have s': "s' = \<lparr>l_cut_of = l_cut_of s @ [of_nat R], l_ancestry = R # anc,
        l_delegations = (l_delegations s)(of_nat R := Some ts)\<rparr>"
      by (auto simp: layout_step_def Let_def anc_def rbind_eq_Inr arena_offset_Inr)
    have "(of_nat r :: u32) \<noteq> of_nat R" if "r < R" for r
      using that R small of_nat_u32_eq [of r R] by simp
    then show ?thesis
      using inv chain sub True cuts here ts by (auto simp: s' layout_inv_def enc_cut_def less_Suc_eq)
  next
    case False
    then have "s' = \<lparr>l_cut_of = l_cut_of s @ [inh], l_ancestry = R # anc, l_delegations = l_delegations s\<rparr>"
      using step pos by (auto simp: layout_step_def Let_def anc_def inh_def deleg_rank_def split: if_splits option.splits)
    then show ?thesis
      using inv chain sub False cuts here inh by (auto simp: layout_inv_def less_Suc_eq enc_cut_def)
  qed
qed

lemma layout_ok:
  assumes es: "closed_entries lower es" and l: "layout E es = Inr (order, cut_of, delegations)"
  shows "order_ok lower es order" and "length es < 2 ^ 32 - 1"
    and "cut_of = map (\<lambda>r. enc_cut (cut_by (deleg_named E es order) (ranked es order ! r))) [0..<length es]"
    and "r < length es \<Longrightarrow> deleg_rank E es order r \<Longrightarrow>
      delegations (of_nat r) = ns_targets E (snd (es ! (order ! r)))"
proof -
  let ?s0 = "\<lparr>l_cut_of = [], l_ancestry = [], l_delegations = Map.empty\<rparr>"
  from l obtain keys spans s where k: "write_keys es [] [] = Inr (keys, spans)"
    and o: "order = sort_key (key_of keys spans) [0..<length es]"
    and f: "rfold (layout_step E es (key_of keys spans) order) (enumerate 0 order) ?s0 = Inr s"
    and s: "cut_of = l_cut_of s" "delegations = l_delegations s"
    by (auto simp: layout_def rbind_eq_Inr Let_def)
  note key = key_of_eq [OF k]
  have eok: "entries_ok lower es" using es by (simp add: closed_entries_def)
  show small: "length es < 2 ^ 32 - 1" using write_keys_bound [OF k] eok by (simp add: entries_ok_def)
  show ok: "order_ok lower es order" unfolding o by (rule sorted_order_ok [OF es key])
  note len = order_facts(1) [OF ok]
  have "layout_inv E lower es order (0 + length order) s"
  proof (rule rfold_enumerate [OF f])
    show "layout_inv E lower es order 0 ?s0" by (simp add: layout_inv_def)
  next
    fix i s t
    assume "i < length order" "layout_step E es (key_of keys spans) order (0 + i, order ! i) s = Inr t"
      "layout_inv E lower es order (0 + i) s"
    then show "layout_inv E lower es order (Suc (0 + i)) t"
      using layout_step_inv [OF ok es, of i "key_of keys spans" E s t] key small len by simp
  qed
  then have inv: "layout_inv E lower es order (length es) s" using len by simp
  then show "cut_of = map (\<lambda>r. enc_cut (cut_by (deleg_named E es order) (ranked es order ! r))) [0..<length es]"
    using s by (simp add: layout_inv_def)
  show "r < length es \<Longrightarrow> deleg_rank E es order r \<Longrightarrow>
      delegations (of_nat r) = ns_targets E (snd (es ! (order ! r)))"
    using inv s by (simp add: layout_inv_def)
qed

end
