(* ===== verification/Zone_Refine.thy ===== *)
theory Zone_Refine
  imports Zone_Lookup
begin

text \<open>
  The query path against its reference: on a well-formed zone every probe finds exactly the node
  of the name asked for, the bisection finds the closest encloser, and \<open>lookup\<close> is \<open>spec_lookup\<close>.
\<close>

section \<open>Well-formed zones\<close>

definition names_ok :: "zone \<Rightarrow> bool" where
  "names_ok Z \<longleftrightarrow> is_lower (lower_origin Z) \<and> nodes Z \<noteq> [] \<and> owner_names Z ! 0 = lower_origin Z \<and>
     distinct (owner_names Z) \<and> length (nodes Z) < 2 ^ 32 - 1 \<and>
     (\<forall>n \<in> set (owner_names Z). suffix (lower_origin Z) n \<and> length n \<le> 127 \<and>
        (n = lower_origin Z \<or> tl n \<in> set (owner_names Z)))"

definition index_ok :: "zone \<Rightarrow> bool" where
  "index_ok Z \<longleftrightarrow>
     index Z = map (\<lambda>i. (name_hash (hash_seed Z) (owner_names Z ! i), of_nat i)) [0..<length (nodes Z)] \<and>
     unat (origin_depth Z) = length (lower_origin Z) \<and>
     (\<forall>n \<in> set (owner_names Z). length n \<le> unat (max_depth Z))"

definition sets_ok :: "zone \<Rightarrow> bool" where
  "sets_ok Z \<longleftrightarrow> (\<forall>nd \<in> set (nodes Z). \<exists>rs. span_get (rrsets Z) (node_rrsets nd) = Some rs \<and>
     sorted (map rr_type rs) \<and>
     (\<forall>r \<in> set rs. \<exists>vs. span_get (rdatas Z) (rr_rdata r) = Some vs \<and> vs \<noteq> []) \<and>
     (flags_contains (node_flags nd) HAS_CNAME \<longleftrightarrow> (\<exists>r \<in> set rs. rr_type r = RT_CNAME)))"

definition cuts_ok :: "zone \<Rightarrow> bool" where
  "cuts_ok Z \<longleftrightarrow> (\<forall>i < length (nodes Z). node_cut (nodes Z ! i) =
     (case governing_cut Z (owner_names Z ! i) of None \<Rightarrow> NONE_IDX | Some c \<Rightarrow> of_nat c))"

definition zone_ok :: "zone \<Rightarrow> bool" where
  "zone_ok Z \<longleftrightarrow> names_ok Z \<and> index_ok Z \<and> sets_ok Z \<and> cuts_ok Z"

section \<open>Positions\<close>

lemma length_owner_names [simp]: "length (owner_names Z) = length (nodes Z)"
  by (simp add: owner_names_def)

lemma nth_owner_names [simp]:
  "i < length (nodes Z) \<Longrightarrow> owner_names Z ! i = lower_name (node_name (nodes Z ! i))"
  by (simp add: owner_names_def)

lemma node_named_Some:
  "node_named Z n = Some i \<Longrightarrow> i < length (nodes Z) \<and> lower_name (node_name (nodes Z ! i)) = n"
  by (auto simp: node_named_def dest: position_Some)

lemma node_named_None: "node_named Z n = None \<longleftrightarrow> n \<notin> set (owner_names Z)"
  by (simp add: node_named_def position_None)

lemma node_named_nth:
  "names_ok Z \<Longrightarrow> i < length (nodes Z) \<Longrightarrow> node_named Z (lower_name (node_name (nodes Z ! i))) = Some i"
  using position_nth [of "owner_names Z" i] by (auto simp: node_named_def names_ok_def)

section \<open>Names\<close>

lemma lower_42 [simp]: "to_ascii_lowercase c = 42 \<longleftrightarrow> c = 42"
proof -
  have "to_ascii_lowercase c \<noteq> 42" if "65 \<le> c \<and> c \<le> 90"
  proof -
    from that have "65 \<le> unat c" "unat c \<le> 90" by (simp_all add: word_le_nat_alt)
    then have "unat (c + 32) = unat c + 32" by (simp add: unat_word_ariths)
    with \<open>65 \<le> unat c\<close> that show ?thesis
      by (auto simp: to_ascii_lowercase_def word_unat_eq_iff)
  qed
  moreover have "to_ascii_lowercase c = c" if "\<not> (65 \<le> c \<and> c \<le> 90)"
    using that by (simp only: to_ascii_lowercase_def if_False)
  moreover have "\<not> (65 \<le> (42 :: u8))" by simp
  ultimately show ?thesis by metis
qed

lemma lower_wildcard [simp]: "map to_ascii_lowercase l = WILDCARD_LABEL \<longleftrightarrow> l = WILDCARD_LABEL"
  by (auto simp: WILDCARD_LABEL_def)

lemma lower_name_rev: "rev (lower_name n) = lower_name (rev n)"
  by (simp add: lower_name_def rev_map)

lemma match_labels_iff:
  "match_labels k ls rs = Some rest \<longleftrightarrow> k \<le> length ls \<and> k \<le> length rs \<and>
     lower_name (take k ls) = lower_name (take k rs) \<and> rest = drop k ls"
  by (induction k ls rs rule: match_labels.induct) (auto simp: eq_ignore_ascii_case_def)

lemma match_labels_rev:
  assumes "length nn = d + e" and "d \<le> length q"
  shows "match_labels d (rev nn) (rev q) =
    (if lower_name (drop e nn) = lower_name (drop (length q - d) q) then Some (rev (take e nn)) else None)"
proof -
  have "take d (rev nn) = rev (drop e nn)" "take d (rev q) = rev (drop (length q - d) q)"
    and dr: "drop d (rev nn) = rev (take e nn)"
    using assms by (simp_all add: take_rev drop_rev)
  then have "lower_name (take d (rev nn)) = lower_name (take d (rev q)) \<longleftrightarrow>
      lower_name (drop e nn) = lower_name (drop (length q - d) q)"
    by (simp add: lower_name_rev [symmetric])
  then have "match_labels d (rev nn) (rev q) = Some rest \<longleftrightarrow>
      lower_name (drop e nn) = lower_name (drop (length q - d) q) \<and> rest = rev (take e nn)" for rest
    using assms dr by (simp add: match_labels_iff)
  then show ?thesis by (cases "match_labels d (rev nn) (rev q)") (auto split: if_splits)
qed

lemma node_name_matches_exact:
  assumes "d \<le> length q"
  shows "node_name_matches nn q d False \<longleftrightarrow> lower_name nn = lower_name (drop (length q - d) q)"
proof (cases "length nn = d")
  case True
  then show ?thesis using match_labels_rev [of nn d 0 q] assms by (simp add: node_name_matches_def)
next
  case False
  then have "length (lower_name nn) \<noteq> length (lower_name (drop (length q - d) q))" using assms by simp
  then have "lower_name nn \<noteq> lower_name (drop (length q - d) q)" by (metis)
  with False show ?thesis by (simp add: node_name_matches_def)
qed

lemma node_name_matches_star:
  assumes "d \<le> length q"
  shows "node_name_matches nn q d True \<longleftrightarrow>
    lower_name nn = WILDCARD_LABEL # lower_name (drop (length q - d) q)"
proof (cases "length nn = d + 1")
  case True
  then obtain l m where nn: "nn = l # m" "length m = d" by (cases nn) auto
  then show ?thesis using match_labels_rev [of nn d 1 q] assms
    by (auto simp: node_name_matches_def list_get_def)
next
  case False
  then have "length (lower_name nn) \<noteq> length (WILDCARD_LABEL # lower_name (drop (length q - d) q))"
    using assms by simp
  then have "lower_name nn \<noteq> WILDCARD_LABEL # lower_name (drop (length q - d) q)" by metis
  with False show ?thesis by (simp add: node_name_matches_def)
qed

section \<open>Probes\<close>

lemma probe_Some:
  assumes "hickory_ok E" and "index_ok Z" and "length (nodes Z) < 2 ^ 32" and "probe E Z h m = Some i"
  shows "\<exists>j < length (nodes Z). i = of_nat j \<and> m (nodes Z ! j)"
proof -
  let ?p = "\<lambda>i. is_some_and (list_get (nodes Z) (unat i)) m"
  from assms(1,4) have "i \<in> snd ` set (index Z) \<and> ?p i"
    unfolding probe_def by (rule table_find_Some)
  with assms(2) obtain j where j: "j < length (nodes Z)" "i = of_nat j" and p: "?p i"
    by (auto simp: index_ok_def)
  moreover have "unat (of_nat j :: u32) = j" using j(1) assms(3) by (simp add: unat_of_nat)
  ultimately have "m (nodes Z ! j)" by (simp add: list_get_def)
  with j show ?thesis by blast
qed

lemma probe_None:
  assumes "hickory_ok E" and "index_ok Z" and "length (nodes Z) < 2 ^ 32" and "probe E Z h m = None"
    and "j < length (nodes Z)" and "name_hash (hash_seed Z) (lower_name (node_name (nodes Z ! j))) = h"
  shows "\<not> m (nodes Z ! j)"
proof -
  have "(h, of_nat j) \<in> set (index Z)" using assms(2,5,6) by (auto simp: index_ok_def)
  then have "\<not> is_some_and (list_get (nodes Z) (unat (of_nat j :: u32))) m"
    using table_find_None [OF assms(1) assms(4) [unfolded probe_def]] by blast
  moreover have "unat (of_nat j :: u32) = j" using assms(3,5) by (simp add: unat_of_nat)
  ultimately show ?thesis using assms(5) by (simp add: list_get_def)
qed

lemma names_ok_small: "names_ok Z \<Longrightarrow> length (nodes Z) < 2 ^ 32"
  by (simp add: names_ok_def)

lemma probe_name:
  assumes E: "hickory_ok E" and Z: "names_ok Z" "index_ok Z"
    and m: "\<And>nd. m nd \<longleftrightarrow> good nd \<and> lower_name (node_name nd) = n"
  shows "probe E Z (name_hash (hash_seed Z) n) m =
    (case node_named Z n of Some i \<Rightarrow> (if good (nodes Z ! i) then Some (of_nat i) else None) | None \<Rightarrow> None)"
proof (cases "probe E Z (name_hash (hash_seed Z) n) m")
  case None
  show ?thesis
  proof (cases "node_named Z n")
    case (Some i)
    then have i: "i < length (nodes Z)" "lower_name (node_name (nodes Z ! i)) = n"
      by (auto dest: node_named_Some)
    then have "\<not> m (nodes Z ! i)"
      using probe_None [OF E Z(2) names_ok_small [OF Z(1)] None] by blast
    with i m Some None show ?thesis by simp
  qed (simp add: None)
next
  case (Some k)
  then obtain j where j: "j < length (nodes Z)" "k = of_nat j" "m (nodes Z ! j)"
    using probe_Some [OF E Z(2) names_ok_small [OF Z(1)]] by blast
  then have "node_named Z n = Some j" using node_named_nth [OF Z(1) j(1)] m by simp
  with j Some m show ?thesis by simp
qed

lemma node_at_eq:
  assumes "hickory_ok E" and "names_ok Z" and "index_ok Z" and "is_lower n" and "length n \<le> 127"
    and "d \<le> length n"
  shows "node_at E Z n d (suffix_hashes_new (hash_seed Z) n) =
    map_option of_nat (node_named Z (drop (length n - d) n))"
proof -
  let ?s = "drop (length n - d) n"
  have low: "lower_name ?s = ?s" using is_lower_drop [OF assms(4)] by (simp add: is_lower_def)
  have "hash_at (suffix_hashes_new (hash_seed Z) n) d = Some (name_hash (hash_seed Z) ?s)"
    using assms(5,6) by (intro hash_at_suffix) (simp_all add: MAX_LABELS_def)
  then have "node_at E Z n d (suffix_hashes_new (hash_seed Z) n) =
      probe E Z (name_hash (hash_seed Z) ?s) (\<lambda>nd. node_name_matches (node_name nd) n d False)"
    by (simp add: node_at_def)
  also have "\<dots> = (case node_named Z ?s of Some i \<Rightarrow> (if True then Some (of_nat i) else None) | None \<Rightarrow> None)"
    by (rule probe_name [OF assms(1-3), where good = "\<lambda>_. True"])
      (simp add: node_name_matches_exact [OF assms(6)] low)
  finally show ?thesis by (simp split: option.split)
qed

lemma exact_node_eq:
  assumes "hickory_ok E" and "names_ok Z" and "index_ok Z" and "is_lower n" and "length n \<le> 127"
  shows "exact_node E Z n (suffix_hashes_new (hash_seed Z) n) = map_option of_nat (node_named Z n)"
  using node_at_eq [OF assms, of "length n"] by (simp add: exact_node_def)

lemma wildcard_node_eq:
  assumes "hickory_ok E" and "names_ok Z" and "index_ok Z" and "is_lower n" and "length n \<le> 127"
    and "d \<le> length n"
  shows "wildcard_node E Z n d (suffix_hashes_new (hash_seed Z) n) =
    (case node_named Z (WILDCARD_LABEL # drop (length n - d) n) of
       Some i \<Rightarrow> (if flags_contains (node_flags (nodes Z ! i)) WILDCARD then Some (of_nat i) else None)
     | None \<Rightarrow> None)"
proof -
  let ?s = "drop (length n - d) n"
  have low: "lower_name ?s = ?s" using is_lower_drop [OF assms(4)] by (simp add: is_lower_def)
  have "hash_at (suffix_hashes_new (hash_seed Z) n) d = Some (name_hash (hash_seed Z) ?s)"
    using assms(5,6) by (intro hash_at_suffix) (simp_all add: MAX_LABELS_def)
  then have "wildcard_node E Z n d (suffix_hashes_new (hash_seed Z) n) =
      probe E Z (name_hash (hash_seed Z) (WILDCARD_LABEL # ?s))
        (\<lambda>nd. flags_contains (node_flags nd) WILDCARD \<and> node_name_matches (node_name nd) n d True)"
    by (simp add: wildcard_node_def name_hash_Cons Let_def)
  also have "\<dots> = (case node_named Z (WILDCARD_LABEL # ?s) of
       Some i \<Rightarrow> (if flags_contains (node_flags (nodes Z ! i)) WILDCARD then Some (of_nat i) else None)
     | None \<Rightarrow> None)"
    by (rule probe_name [OF assms(1-3), where good = "\<lambda>nd. flags_contains (node_flags nd) WILDCARD"])
      (simp add: node_name_matches_star [OF assms(6)] low)
  finally show ?thesis .
qed

section \<open>The closest encloser\<close>

text \<open>Closure under ancestry makes existence of an ancestor monotone in its depth.\<close>

lemma ancestor_named:
  assumes "names_ok Z" and "n \<in> set (owner_names Z)" and "length (lower_origin Z) \<le> length n - k"
  shows "drop k n \<in> set (owner_names Z)"
  using assms(3)
proof (induction k)
  case (Suc k)
  show ?case
  proof (cases "k < length n")
    case True
    then have IH: "drop k n \<in> set (owner_names Z)" using Suc by simp
    then have "drop k n = lower_origin Z \<or> tl (drop k n) \<in> set (owner_names Z)"
      using assms(1) unfolding names_ok_def by blast
    moreover have "drop k n \<noteq> lower_origin Z"
    proof
      assume "drop k n = lower_origin Z"
      then have "length (lower_origin Z) = length n - k" by (metis length_drop)
      with Suc.prems True show False by simp
    qed
    ultimately have "tl (drop k n) \<in> set (owner_names Z)" by blast
    then show ?thesis by (simp add: drop_Suc tl_drop)
  next
    case False
    then have "drop (Suc k) n = drop k n" by simp
    with Suc show ?thesis by simp
  qed
qed (use assms(2) in simp)

lemma named_above:
  assumes Z: "names_ok Z" and n: "node_named Z (drop (length n - d) n) \<noteq> None" "d \<le> length n"
    and e: "length (lower_origin Z) \<le> e" "e \<le> d"
  shows "node_named Z (drop (length n - e) n) \<noteq> None"
proof -
  have "drop (length n - d) n \<in> set (owner_names Z)" using n(1) by (simp add: node_named_None)
  moreover have "length (lower_origin Z) \<le> length (drop (length n - d) n) - (d - e)" using n(2) e by simp
  ultimately have "drop (d - e) (drop (length n - d) n) \<in> set (owner_names Z)"
    by (rule ancestor_named [OF Z])
  moreover have "d - e + (length n - d) = length n - e" using n(2) e by simp
  ultimately show ?thesis by (simp add: node_named_None)
qed

text \<open>\<open>is_encloser Z n d i\<close>: node \<open>i\<close> is the deepest of the zone's names among the proper ancestors
  of \<open>n\<close>, and \<open>d\<close> is its depth.\<close>

definition is_encloser :: "zone \<Rightarrow> name \<Rightarrow> nat \<Rightarrow> nat \<Rightarrow> bool" where
  "is_encloser Z n d i \<longleftrightarrow> d < length n \<and> node_named Z (drop (length n - d) n) = Some i \<and>
     (\<forall>e. d < e \<longrightarrow> e < length n \<longrightarrow> node_named Z (drop (length n - e) n) = None)"

lemma bisect_encloser:
  assumes "hickory_ok E" and "names_ok Z" and "index_ok Z" and "is_lower n" and "length n \<le> 127"
    and "length (lower_origin Z) \<le> low" and "low \<le> high" and "high < length n"
    and "node_named Z (drop (length n - low) n) = Some j" and "found = of_nat j"
    and "\<forall>e. high < e \<longrightarrow> e < length n \<longrightarrow> node_named Z (drop (length n - e) n) = None"
  shows "\<exists>d i. bisect E Z n (suffix_hashes_new (hash_seed Z) n) low high found = (d, of_nat i) \<and>
    is_encloser Z n d i"
  using assms(6-11)
proof (induction "high - low" arbitrary: low high found j rule: less_induct)
  case less
  let ?hs = "suffix_hashes_new (hash_seed Z) n"
  show ?case
  proof (cases "low < high")
    case True
    define mid where "mid = low + (high - low + 1) div 2"
    have mid: "low < mid" "mid \<le> high" using True by (simp_all add: mid_def)
    have at: "node_at E Z n mid ?hs = map_option of_nat (node_named Z (drop (length n - mid) n))"
      using mid less.prems(3) by (intro node_at_eq [OF assms(1-5)]) simp
    have step: "bisect E Z n ?hs low high found = (case node_at E Z n mid ?hs of
        Some idx \<Rightarrow> bisect E Z n ?hs mid high idx | None \<Rightarrow> bisect E Z n ?hs low (mid - 1) found)"
      unfolding mid_def by (subst bisect.simps) (simp only: True if_True Let_def)
    show ?thesis
    proof (cases "node_named Z (drop (length n - mid) n)")
      case (Some i)
      then show ?thesis
        using less.hyps [of high mid i "of_nat i"] less.prems mid at step by simp
    next
      case None
      have "node_named Z (drop (length n - e) n) = None" if "mid - 1 < e" "e < length n" for e
      proof (rule ccontr)
        assume "node_named Z (drop (length n - e) n) \<noteq> None"
        then have "node_named Z (drop (length n - mid) n) \<noteq> None"
          using named_above [OF assms(2), of n e mid] that mid less.prems(1) by simp
        with None show False by simp
      qed
      then show ?thesis
        using less.hyps [of "mid - 1" low j found] less.prems mid at step None by simp
    qed
  next
    case False
    with less.prems have "low = high" by simp
    moreover have "bisect E Z n ?hs low high found = (low, found)"
      using False by (subst bisect.simps) simp
    ultimately show ?thesis
      using less.prems by (intro exI [of _ low] exI [of _ j]) (simp add: is_encloser_def)
  qed
qed

lemma origin_named:
  assumes "names_ok Z" shows "node_named Z (lower_origin Z) = Some 0"
proof -
  have "owner_names Z ! 0 = lower_origin Z" "0 < length (nodes Z)"
    using assms by (auto simp: names_ok_def)
  then show ?thesis using node_named_nth [OF assms, of 0] by simp
qed

lemma drop_to_suffix: "suffix o' n \<Longrightarrow> drop (length n - length o') n = o'"
  by (auto simp: suffix_def)

lemma too_deep:
  assumes "index_ok Z" and "unat (max_depth Z) < d" and "d \<le> length n"
  shows "node_named Z (drop (length n - d) n) = None"
proof -
  have "length (drop (length n - d) n) = d" using assms(3) by simp
  moreover have "length m \<le> unat (max_depth Z)" if "m \<in> set (owner_names Z)" for m
    using that assms(1) unfolding index_ok_def by blast
  ultimately have "drop (length n - d) n \<notin> set (owner_names Z)" using assms(2) by fastforce
  then show ?thesis by (simp add: node_named_None)
qed

lemma closest_encloser_eq:
  assumes E: "hickory_ok E" and Z: "names_ok Z" "index_ok Z" and n: "is_lower n" "length n \<le> 127"
    and zone: "suffix (lower_origin Z) n" "length (lower_origin Z) < length n"
  shows "\<exists>d i. closest_encloser E Z n (suffix_hashes_new (hash_seed Z) n) = (d, of_nat i) \<and> is_encloser Z n d i"
proof -
  let ?hs = "suffix_hashes_new (hash_seed Z) n"
  let ?f = "length (lower_origin Z)"
  define c where "c = min (min (length n - 1) (unat (max_depth Z))) 127"
  have win: "encloser_window Z (length n) = (?f, c)"
    using Z(2) by (simp add: encloser_window_def index_ok_def MAX_LABELS_def c_def)
  have c: "c < length n" using zone(2) by (auto simp: c_def)
  have above: "node_named Z (drop (length n - e) n) = None" if "c < e" "e < length n" for e
    using that n(2) by (intro too_deep [OF Z(2)]) (auto simp: c_def)
  have floor: "node_named Z (drop (length n - ?f) n) = Some 0"
    using origin_named [OF Z(1)] drop_to_suffix [OF zone(1)] by simp
  have apex: "APEX = of_nat 0" by (simp add: APEX_def)
  have at: "node_at E Z n c ?hs = map_option of_nat (node_named Z (drop (length n - c) n))"
    using c by (intro node_at_eq [OF E Z n]) simp
  consider "c \<le> ?f" | i where "?f < c" "node_named Z (drop (length n - c) n) = Some i"
    | "?f < c" "node_named Z (drop (length n - c) n) = None" by fastforce
  then show ?thesis
  proof cases
    case 1
    then show ?thesis
      using floor zone(2) above apex
      by (intro exI [of _ ?f] exI [of _ 0]) (auto simp: closest_encloser_def win is_encloser_def)
  next
    case 2
    then show ?thesis
      using c above at
      by (intro exI [of _ c] exI [of _ i]) (auto simp: closest_encloser_def win is_encloser_def)
  next
    case 3
    have "\<exists>d i. bisect E Z n ?hs ?f (c - 1) APEX = (d, of_nat i) \<and> is_encloser Z n d i"
    proof (rule bisect_encloser [OF E Z n _ _ _ floor apex])
      show "\<forall>e. c - 1 < e \<longrightarrow> e < length n \<longrightarrow> node_named Z (drop (length n - e) n) = None"
      proof (intro allI impI)
        fix e assume "c - 1 < e" "e < length n"
        then show "node_named Z (drop (length n - e) n) = None"
          using 3(2) above [of e] by (cases "e = c") auto
      qed
    qed (use 3 c in auto)
    with 3 at show ?thesis by (simp add: closest_encloser_def win)
  qed
qed

section \<open>Walking up\<close>

lemma nearest_encloser_drop:
  assumes "is_encloser Z n d i"
  shows "nearest_encloser Z n = drop (length n - d) n"
  using assms
proof (induction n)
  case (Cons l p)
  show ?case
  proof (cases "d = length p")
    case True
    with Cons.prems show ?thesis by (simp add: is_encloser_def)
  next
    case False
    with Cons.prems have d: "d < length p" by (auto simp: is_encloser_def)
    have eq: "drop (length (l # p) - e) (l # p) = drop (length p - e) p" if "e \<le> length p" for e
      using that by (simp add: Suc_diff_le)
    from Cons.prems d have "node_named Z p = None"
      using eq [of "length p"] unfolding is_encloser_def by force
    moreover have "is_encloser Z p d i"
      using Cons.prems d eq unfolding is_encloser_def by (metis length_Cons less_SucI less_imp_le_nat)
    ultimately show ?thesis using Cons.IH eq [of d] d by simp
  qed
qed (simp add: is_encloser_def)

lemma governing_cut_None_step:
  "node_named Z n = None \<Longrightarrow> n \<noteq> [] \<Longrightarrow> governing_cut Z n = governing_cut Z (tl n)"
  by (subst governing_cut.simps) (cases n, simp_all)

lemma governing_cut_skip:
  assumes "\<forall>j < k. node_named Z (drop j n) = None" and "k \<le> length n"
  shows "governing_cut Z n = governing_cut Z (drop k n)"
  using assms
proof (induction k)
  case (Suc k)
  then have "governing_cut Z n = governing_cut Z (drop k n)" by simp
  also have "\<dots> = governing_cut Z (tl (drop k n))"
    using Suc.prems by (intro governing_cut_None_step) auto
  finally show ?case by (simp add: drop_Suc tl_drop)
qed simp

lemma governing_cut_encloser:
  assumes "is_encloser Z n d i" and "node_named Z n = None"
  shows "governing_cut Z n = governing_cut Z (drop (length n - d) n)"
proof (rule governing_cut_skip)
  show "\<forall>j < length n - d. node_named Z (drop j n) = None"
  proof (intro allI impI)
    fix j assume j: "j < length n - d"
    show "node_named Z (drop j n) = None"
    proof (cases j)
      case (Suc j')
      have "d < length n - j" "length n - j < length n" using j Suc by simp_all
      then have "node_named Z (drop (length n - (length n - j)) n) = None"
        using assms(1) unfolding is_encloser_def by blast
      then show ?thesis using j by simp
    qed (use assms(2) in simp)
  qed
qed simp

lemma governing_cut_Some:
  "governing_cut Z n = Some c \<Longrightarrow> \<exists>k. node_named Z (drop k n) = Some c \<and>
     flags_contains (node_flags (nodes Z ! c)) DELEGATION"
proof (induction n)
  case Nil
  then show ?case by (auto simp: governing_cut.simps [of Z "[]"] split: option.splits if_splits)
next
  case (Cons l p)
  show ?case
  proof (cases "governing_cut Z p = Some c")
    case True
    then obtain k where "node_named Z (drop k p) = Some c" "flags_contains (node_flags (nodes Z ! c)) DELEGATION"
      using Cons.IH by blast
    then show ?thesis by (intro exI [of _ "Suc k"]) simp
  next
    case False
    with Cons.prems show ?thesis
      by (intro exI [of _ 0]) (auto simp: governing_cut.simps [of Z "l # p"] split: option.splits if_splits)
  qed
qed

section \<open>Records\<close>

lemma emit_eq: "emit Z run owner out =
    out @ concat (map (\<lambda>r. map (from_rdata owner (rr_ttl r)) (values_of Z r)) run)"
  by (induction run arbitrary: out) (auto simp: values_of_def split: option.split)

lemma rrsets_of_eq:
  assumes "sets_ok Z" and "nd \<in> set (nodes Z)"
  shows "rrsets_of Z nd t = sets_at Z nd t"
proof -
  from assms obtain rs where rs: "span_get (rrsets Z) (node_rrsets nd) = Some rs" "sorted (map rr_type rs)"
    unfolding sets_ok_def by blast
  then show ?thesis
    using partition_run [OF rs(2), of t] by (simp add: rrsets_of_def sets_at_def Let_def)
qed

lemma emit_records_at:
  "emit Z (sets_at Z nd t) owner out = out @ records_at Z nd t owner"
  by (simp add: emit_eq records_at_def)

lemma has_cname_iff:
  assumes "sets_ok Z" and "nd \<in> set (nodes Z)"
  shows "flags_contains (node_flags nd) HAS_CNAME \<longleftrightarrow> sets_at Z nd RT_CNAME \<noteq> []"
proof -
  from assms obtain rs where rs: "span_get (rrsets Z) (node_rrsets nd) = Some rs"
    "flags_contains (node_flags nd) HAS_CNAME \<longleftrightarrow> (\<exists>r \<in> set rs. rr_type r = RT_CNAME)"
    unfolding sets_ok_def by blast
  then show ?thesis by (simp only: rs(2)) (auto simp: sets_at_def rs(1) filter_empty_conv)
qed

lemma first_value_eq:
  "run \<noteq> [] \<Longrightarrow> first_value Z run = (case values_of Z (hd run) of [] \<Rightarrow> None | v # _ \<Rightarrow> Some v)"
  by (auto simp: first_value_def values_of_def list_get_def neq_Nil_conv split: option.split list.split)

section \<open>The lookup refines the reference\<close>

lemma cut_sentinel:
  assumes "names_ok Z" and "governing_cut Z n = Some c"
  shows "\<not> is_none_idx (of_nat c)" and "c < length (nodes Z)"
proof -
  from governing_cut_Some [OF assms(2)] show c: "c < length (nodes Z)" by (auto dest: node_named_Some)
  with assms(1) have "c < 2 ^ 32 - 1" by (simp add: names_ok_def)
  moreover have "unat (- 1 :: u32) = 2 ^ 32 - 1" by (simp add: unsigned_minus_1_eq_mask mask_eq_exp_minus_1)
  ultimately have "unat (of_nat c :: u32) \<noteq> unat (- 1 :: u32)" by (simp add: unat_of_nat)
  then show "\<not> is_none_idx (of_nat c)" unfolding is_none_idx_def NONE_IDX_def by metis
qed

lemma node_cut_eq:
  assumes "zone_ok Z" and "i < length (nodes Z)"
  shows "is_none_idx (node_cut (nodes Z ! i)) \<longleftrightarrow> governing_cut Z (owner_names Z ! i) = None"
    and "governing_cut Z (owner_names Z ! i) = Some c \<Longrightarrow> node_cut (nodes Z ! i) = of_nat c"
proof -
  have cut: "node_cut (nodes Z ! i) =
      (case governing_cut Z (owner_names Z ! i) of None \<Rightarrow> NONE_IDX | Some c \<Rightarrow> of_nat c)"
    using assms by (simp add: zone_ok_def cuts_ok_def)
  then show "governing_cut Z (owner_names Z ! i) = Some c \<Longrightarrow> node_cut (nodes Z ! i) = of_nat c" by simp
  from cut show "is_none_idx (node_cut (nodes Z ! i)) \<longleftrightarrow> governing_cut Z (owner_names Z ! i) = None"
    using cut_sentinel [of Z "owner_names Z ! i"] assms(1)
    by (cases "governing_cut Z (owner_names Z ! i)") (simp_all add: is_none_idx_def zone_ok_def)
qed

lemma unat_node_index: "names_ok Z \<Longrightarrow> i < length (nodes Z) \<Longrightarrow> idx_get (of_nat i) = i"
  by (simp add: names_ok_def idx_get_def unat_of_nat)

lemma exact_lookup:
  assumes "hickory_ok E" and "zone_ok Z" and "is_lower n" and "length n \<le> 127"
  shows "Option.bind (exact_node E Z n (suffix_hashes_new (hash_seed Z) n))
      (\<lambda>idx. list_get (nodes Z) (idx_get idx)) = map_option ((!) (nodes Z)) (node_named Z n)"
proof -
  have ok: "names_ok Z" "index_ok Z" using assms(2) by (simp_all add: zone_ok_def)
  show ?thesis
    using exact_node_eq [OF assms(1) ok assms(3,4)] node_named_Some [of Z n] unat_node_index [OF ok(1)]
    by (cases "node_named Z n") (simp_all add: list_get_def)
qed

text \<open>The negative path: with no node at the name, the encloser decides the cut and the wildcard.\<close>

lemma negative_path:
  assumes E: "hickory_ok E" and Z: "zone_ok Z" and n: "is_lower n" "length n \<le> 127"
    and zone: "suffix (lower_origin Z) n" and none: "node_named Z n = None"
  obtains d i where "closest_encloser E Z n (suffix_hashes_new (hash_seed Z) n) = (d, of_nat i)"
    and "i < length (nodes Z)" and "owner_names Z ! i = nearest_encloser Z n"
    and "governing_cut Z (owner_names Z ! i) = governing_cut Z n"
    and "wildcard_node E Z n d (suffix_hashes_new (hash_seed Z) n) = map_option of_nat (wildcard_source Z n)"
proof -
  have ok: "names_ok Z" "index_ok Z" using Z by (simp_all add: zone_ok_def)
  have "lower_origin Z \<noteq> n" using none origin_named [OF ok(1)] by auto
  with zone have "length (lower_origin Z) < length n" by (auto simp: suffix_def)
  then obtain d i where ce: "closest_encloser E Z n (suffix_hashes_new (hash_seed Z) n) = (d, of_nat i)"
    and enc: "is_encloser Z n d i"
    using closest_encloser_eq [OF E ok n zone] by blast
  have "d \<le> length n" and nn: "node_named Z (drop (length n - d) n) = Some i"
    using enc by (simp_all add: is_encloser_def)
  have i: "i < length (nodes Z)" "owner_names Z ! i = drop (length n - d) n"
    using node_named_Some [OF nn] by simp_all
  have wc: "wildcard_node E Z n d (suffix_hashes_new (hash_seed Z) n) = map_option of_nat (wildcard_source Z n)"
    using wildcard_node_eq [OF E ok n \<open>d \<le> length n\<close>] nearest_encloser_drop [OF enc]
    by (auto simp: wildcard_source_def split: option.splits)
  show ?thesis
    using that [OF ce i(1)] i(2) nearest_encloser_drop [OF enc] governing_cut_encloser [OF enc none] wc
    by simp
qed

lemma contains_eq: "hickory_ok E \<Longrightarrow> zone_ok Z \<Longrightarrow> is_lower n \<Longrightarrow> contains E Z n \<longleftrightarrow> suffix (lower_origin Z) n"
  by (simp add: contains_def zone_of_eq zone_ok_def names_ok_def)

text \<open>Every CNAME target of the zone is a name the wire can carry.\<close>

definition targets_ok :: "zone \<Rightarrow> bool" where
  "targets_ok Z \<longleftrightarrow> (\<forall>d \<in> set (rdatas Z). case d of RD_CNAME target \<Rightarrow> length target \<le> 127 | _ \<Rightarrow> True)"

lemma values_of_target:
  assumes "targets_ok Z" and "values_of Z r = RD_CNAME target # vs"
  shows "length target \<le> 127"
proof -
  have "set (values_of Z r) \<subseteq> set (rdatas Z)"
    by (auto simp: values_of_def span_get_def slice_get_def dest: in_set_takeD in_set_dropD)
  with assms(2) have "RD_CNAME target \<in> set (rdatas Z)" by auto
  with assms(1) show ?thesis unfolding targets_ok_def by fastforce
qed

lemma resolve_negative:
  assumes E: "hickory_ok E" and Z: "zone_ok Z" and n: "is_lower n" "length n \<le> 127"
    and zone: "suffix (lower_origin Z) n" and none: "node_named Z n = None"
  shows "resolve E Z n t depth out = spec_resolve Z n t depth out"
proof -
  let ?hs = "suffix_hashes_new (hash_seed Z) n"
  have ok: "names_ok Z" "sets_ok Z" using Z by (simp_all add: zone_ok_def)
  obtain d i where ne: "closest_encloser E Z n ?hs = (d, of_nat i)" "i < length (nodes Z)"
    "governing_cut Z (owner_names Z ! i) = governing_cut Z n"
    "wildcard_node E Z n d ?hs = map_option of_nat (wildcard_source Z n)"
    using negative_path [OF E Z n zone none] by metis
  have gi: "idx_get (of_nat i) = i" using unat_node_index [OF ok(1) ne(2)] .
  have cut: "is_none_idx (node_cut (nodes Z ! i)) \<longleftrightarrow> governing_cut Z n = None"
    "governing_cut Z n = Some c \<Longrightarrow> node_cut (nodes Z ! i) = of_nat c" for c
    using node_cut_eq [OF Z ne(2)] ne(3) by simp_all
  have w: "w < length (nodes Z)" if "wildcard_source Z n = Some w" for w
    using that by (auto simp: wildcard_source_def split: option.splits if_splits dest: node_named_Some)
  note facts = cut gi ne zone none exact_lookup [OF E Z n]
  note evals = contains_eq [OF E Z n(1)] list_get_def rrsets_of_eq [OF ok(2)] emit_records_at Let_def
  consider c where "governing_cut Z n = Some c"
    | "governing_cut Z n = None" "wildcard_source Z n = None"
    | w where "governing_cut Z n = None" "wildcard_source Z n = Some w" by fastforce
  then show ?thesis
  proof cases
    case 3
    then show ?thesis
      using facts w [OF 3(2)] unat_node_index [OF ok(1) w [OF 3(2)]]
      by (subst resolve.simps, subst spec_resolve.simps) (simp add: evals)
  qed (use facts in \<open>subst resolve.simps, subst spec_resolve.simps, simp add: evals\<close>)+
qed

lemma resolve_exact:
  assumes E: "hickory_ok E" and Z: "zone_ok Z" "targets_ok Z" and n: "is_lower n" "length n \<le> 127"
    and zone: "suffix (lower_origin Z) n" and some: "node_named Z n = Some i"
    and IH: "\<And>target out. depth < MAX_CNAME_DEPTH \<Longrightarrow> length target \<le> 127 \<Longrightarrow>
      resolve E Z (lower_name target) t (Suc depth) out = spec_resolve Z (lower_name target) t (Suc depth) out"
  shows "resolve E Z n t depth out = spec_resolve Z n t depth out"
proof -
  have ok: "sets_ok Z" using Z by (simp_all add: zone_ok_def)
  have i: "i < length (nodes Z)" and own: "owner_names Z ! i = n" using node_named_Some [OF some] by simp_all
  let ?nd = "nodes Z ! i"
  have mem: "?nd \<in> set (nodes Z)" using i by simp
  have cut: "is_none_idx (node_cut ?nd) \<longleftrightarrow> governing_cut Z n = None"
    "governing_cut Z n = Some c \<Longrightarrow> node_cut ?nd = of_nat c" for c
    using node_cut_eq [OF Z(1) i] own by simp_all
  have rec: "resolve E Z (lower_name target) t (Suc depth) out' = spec_resolve Z (lower_name target) t (Suc depth) out'"
    if "\<not> MAX_CNAME_DEPTH \<le> depth" "\<exists>vs. values_of Z (hd (sets_at Z ?nd RT_CNAME)) = RD_CNAME target # vs"
    for target out'
    using that values_of_target [OF Z(2)] by (intro IH) auto
  note facts = cut zone exact_lookup [OF E Z(1) n] some
  show ?thesis
  proof (cases "governing_cut Z n")
    case (Some c)
    then show ?thesis
      using facts by (subst resolve.simps, subst spec_resolve.simps) (simp add: contains_eq [OF E Z(1) n(1)])
  next
    case None
    then show ?thesis
      using facts
      by (subst resolve.simps, subst spec_resolve.simps)
        (simp add: contains_eq [OF E Z(1) n(1)] rrsets_of_eq [OF ok mem] emit_records_at Let_def
          has_cname_iff [OF ok mem] first_value_eq E contains_eq [OF E Z(1)] MAX_CNAME_DEPTH_def [symmetric]
          rec del: flags_contains_bit split: list.split rdata.split)
  qed
qed

lemma resolve_refines:
  assumes E: "hickory_ok E" and Z: "zone_ok Z" "targets_ok Z"
  shows "is_lower n \<Longrightarrow> length n \<le> 127 \<Longrightarrow> resolve E Z n t depth out = spec_resolve Z n t depth out"
proof (induction "MAX_CNAME_DEPTH - depth" arbitrary: n depth out rule: less_induct)
  case less
  show ?case
  proof (cases "suffix (lower_origin Z) n")
    case False
    then show ?thesis
      by (subst resolve.simps, subst spec_resolve.simps) (simp add: contains_eq [OF E Z(1) less.prems(1)])
  next
    case True
    show ?thesis
    proof (cases "node_named Z n")
      case None
      then show ?thesis using resolve_negative [OF E Z(1) less.prems True] by simp
    next
      case (Some i)
      then show ?thesis
        by (rule resolve_exact [OF E Z less.prems True]) (rule less.hyps, simp_all)
    qed
  qed
qed

lemma lookup_refines:
  assumes "hickory_ok E" and "zone_ok Z" and "targets_ok Z" and "is_lower n" and "length n \<le> 127"
  shows "lookup E Z n t = spec_lookup Z n t"
  using resolve_refines [OF assms, of t 0 "[]"]
  by (simp add: lookup_def spec_lookup_def referral_def split: prod.split resolution.split option.split)

lemma zone_exists_iff:
  assumes E: "hickory_ok E" and Z: "zone_ok Z" and n: "is_lower n" "length n \<le> 127"
    and zone: "suffix (lower_origin Z) n"
  shows "zone_exists E Z n \<longleftrightarrow> node_named Z n \<noteq> None \<or> wildcard_source Z n \<noteq> None"
proof -
  have ex: "exact_node E Z n (suffix_hashes_new (hash_seed Z) n) = map_option of_nat (node_named Z n)"
    using Z by (intro exact_node_eq [OF E _ _ n]) (simp_all add: zone_ok_def)
  show ?thesis
  proof (cases "node_named Z n")
    case None
    obtain d i where "closest_encloser E Z n (suffix_hashes_new (hash_seed Z) n) = (d, of_nat i)"
      "wildcard_node E Z n d (suffix_hashes_new (hash_seed Z) n) = map_option of_nat (wildcard_source Z n)"
      using negative_path [OF E Z n zone None] by metis
    with None ex show ?thesis by (simp add: zone_exists_def exists_hashed_def source_of_synthesis_def)
  next
    case (Some i)
    with ex show ?thesis by (simp add: zone_exists_def exists_hashed_def)
  qed
qed

end
