(* ===== verification/Zone_Arena.thy ===== *)
theory Zone_Arena
  imports Zone_Layout Zone_Refine
begin

text \<open>
  The arena pass: the node at each rank carries the name, the cut and exactly the record sets
  that survive occlusion, in the arenas; later ranks never move what an earlier rank wrote.
\<close>

section \<open>Spans survive growth\<close>

lemma span_get_append: "span_get xs sp = Some ys \<Longrightarrow> span_get (xs @ zs) sp = Some ys"
  by (auto simp: span_get_def slice_get_def split: if_splits)

lemma span_get_new:
  "arena_offset (length xs) = Inr i \<Longrightarrow> arena_offset (length xs + length ys) = Inr j \<Longrightarrow>
     span_get (xs @ ys @ zs) (i, j) = Some ys"
  using span_get_arena [of "length xs" i "length xs + length ys" j "xs @ ys @ zs"] slice_middle [of xs ys zs]
  by simp

definition lays :: "rdata list \<Rightarrow> scratch_rrset list \<Rightarrow> rrset list \<Rightarrow> bool" where
  "lays rd runs rs = list_all2 (\<lambda>x s. rr_type x = s_type s \<and> rr_ttl x = s_ttl s \<and>
     span_get rd (rr_rdata x) = Some (s_rdata s)) rs runs"

lemma lays_append: "lays rd runs rs \<Longrightarrow> lays (rd @ zs) runs rs"
  unfolding lays_def by (erule list_all2_mono) (auto intro: span_get_append)

lemma lays_types: "lays rd runs rs \<Longrightarrow> map rr_type rs = map s_type runs"
  unfolding lays_def by (induction rs runs rule: list_all2_induct) auto

lemma lays_mem:
  "lays rd runs rs \<Longrightarrow> x \<in> set rs \<Longrightarrow>
     \<exists>s \<in> set runs. rr_type x = s_type s \<and> rr_ttl x = s_ttl s \<and> span_get rd (rr_rdata x) = Some (s_rdata s)"
  unfolding lays_def by (induction rs runs rule: list_all2_induct) auto

lemma lay_runs_Inr:
  assumes "lay_runs runs (rrs, rd) = Inr (rrs', rd')"
  shows "\<exists>xs. rrs' = rrs @ xs \<and> rd' = rd @ concat (map s_rdata runs) \<and> lays rd' runs xs"
  using assms
proof (induction runs arbitrary: rrs rd)
  case Nil
  then show ?case by (simp add: lays_def)
next
  case (Cons r runs)
  from Cons.prems obtain i j where i: "arena_offset (length rd) = Inr i"
    and j: "arena_offset (length rd + length (s_rdata r)) = Inr j"
    and rec: "lay_runs runs (rrs @ [\<lparr>rr_type = s_type r, rr_ttl = s_ttl r, rr_rdata = (i, j)\<rparr>], rd @ s_rdata r)
      = Inr (rrs', rd')"
    by (auto simp: rbind_eq_Inr Let_def)
  from Cons.IH [OF rec] obtain xs where xs:
    "rrs' = (rrs @ [\<lparr>rr_type = s_type r, rr_ttl = s_ttl r, rr_rdata = (i, j)\<rparr>]) @ xs"
    "rd' = (rd @ s_rdata r) @ concat (map s_rdata runs)" "lays rd' runs xs" by blast
  have "span_get rd' (i, j) = Some (s_rdata r)"
    using span_get_new [OF i j, of "concat (map s_rdata runs)"] xs(2) by simp
  with xs show ?case
    by (intro exI [of _ "\<lparr>rr_type = s_type r, rr_ttl = s_ttl r, rr_rdata = (i, j)\<rparr> # xs"]) (simp add: lays_def)
qed

section \<open>What survives occlusion\<close>

definition targets_at :: "hickory \<Rightarrow> entry list \<Rightarrow> nat list \<Rightarrow> nat \<Rightarrow> name list" where
  "targets_at E es order c = unwrap_or [] (ns_targets E (snd (es ! (order ! c))))"

abbreviation rank_cut :: "hickory \<Rightarrow> entry list \<Rightarrow> nat list \<Rightarrow> nat \<Rightarrow> nat option" where
  "rank_cut E es order r \<equiv> cut_by (deleg_named E es order) (ranked es order ! r)"

definition kept_runs :: "hickory \<Rightarrow> entry list \<Rightarrow> nat list \<Rightarrow> nat \<Rightarrow> scratch_rrset list" where
  "kept_runs E es order r =
     (let runs = sort_key s_type (s_rrsets (snd (es ! (order ! r)))) in
      case rank_cut E es order r of
        None \<Rightarrow> runs
      | Some c \<Rightarrow> filter (keep_run (c = r) (ranked es order ! r \<in> set (targets_at E es order c))) runs)"

definition gone_runs :: "hickory \<Rightarrow> entry list \<Rightarrow> nat list \<Rightarrow> nat \<Rightarrow> scratch_rrset list" where
  "gone_runs E es order r =
     (case rank_cut E es order r of
        None \<Rightarrow> []
      | Some c \<Rightarrow> filter (\<lambda>x. \<not> keep_run (c = r) (ranked es order ! r \<in> set (targets_at E es order c)) x)
          (sort_key s_type (s_rrsets (snd (es ! (order ! r))))))"

abbreviation occluded_at :: "hickory \<Rightarrow> entry list \<Rightarrow> nat list \<Rightarrow> nat \<Rightarrow> diagnostic list" where
  "occluded_at E es order r \<equiv> map (\<lambda>x. Occluded (ranked es order ! r) (s_type x)) (gone_runs E es order r)"

lemma enc_cut_None: "c < 2 ^ 32 - 1 \<Longrightarrow> enc_cut (Some c) \<noteq> NONE_IDX"
proof -
  assume "c < 2 ^ 32 - 1"
  then have "unat (of_nat c :: u32) = c" by (simp add: unat_of_nat)
  moreover have "unat (- 1 :: u32) = 2 ^ 32 - 1" by (simp add: unsigned_minus_1_eq_mask mask_eq_exp_minus_1)
  ultimately show ?thesis using \<open>c < 2 ^ 32 - 1\<close> unfolding enc_cut_def NONE_IDX_def
    by (metis nat_neq_iff option.simps(5))
qed

lemma rank_cut_bound:
  assumes ok: "order_ok lower es order" and eok: "entries_ok lower es" and "rank_cut E es order r = Some c"
  shows "c < length es" and "deleg_rank E es order c"
proof -
  from cut_by_Some [OF assms(3)] obtain k where "deleg_named E es order (drop k (ranked es order ! r)) = Some c" by blast
  then have "position (drop k (ranked es order ! r)) (ranked es order) = Some c" "deleg_rank E es order c"
    by (auto simp: deleg_named_def split: option.splits if_splits)
  then show "c < length es" and "deleg_rank E es order c"
    using position_Some ranked_facts(1) [OF ok eok] by fastforce+
qed

lemma apply_cut_eq:
  assumes ok: "order_ok lower es order" and eok: "entries_ok lower es" and small: "length es < 2 ^ 32 - 1"
    and r: "r < length es"
    and del: "\<And>c. c < length es \<Longrightarrow> deleg_rank E es order c \<Longrightarrow>
      delegations (of_nat c) = ns_targets E (snd (es ! (order ! c)))"
    and sc: "scratch = (snd (es ! (order ! r)))\<lparr>s_rrsets := sort_key s_type (s_rrsets (snd (es ! (order ! r))))\<rparr>"
    and ap: "apply_cut scratch (ranked es order ! r) (enc_cut (rank_cut E es order r)) (of_nat r) delegations dr di
      = (flags, scratch', dr', di')"
  shows "scratch' = scratch\<lparr>s_rrsets := kept_runs E es order r\<rparr>"
    and "flags = (case rank_cut E es order r of None \<Rightarrow> FLAG_NONE | Some c \<Rightarrow> if c = r then DELEGATION else GLUE)"
    and "di' = di @ occluded_at E es order r"
proof -
  have "scratch' = scratch\<lparr>s_rrsets := kept_runs E es order r\<rparr> \<and>
    flags = (case rank_cut E es order r of None \<Rightarrow> FLAG_NONE | Some c \<Rightarrow> if c = r then DELEGATION else GLUE) \<and>
    di' = di @ occluded_at E es order r"
  proof (cases "rank_cut E es order r")
    case None
    then show ?thesis using ap sc by (auto simp: apply_cut_def enc_cut_def kept_runs_def gone_runs_def)
  next
    case (Some c)
    note b = rank_cut_bound [OF ok eok Some]
    have ne: "enc_cut (Some c) \<noteq> NONE_IDX" using b(1) small by (intro enc_cut_None) simp
    have at: "(of_nat c :: u32) = of_nat r \<longleftrightarrow> c = r" using b(1) r small by (intro of_nat_u32_eq) simp_all
    have tg: "unwrap_or [] (delegations (of_nat c)) = targets_at E es order c"
      using del [OF b] by (simp add: targets_at_def)
    show ?thesis
      using ap sc Some ne at tg
      by (auto simp: apply_cut_def enc_cut_def kept_runs_def gone_runs_def Let_def)
  qed
  then show "scratch' = scratch\<lparr>s_rrsets := kept_runs E es order r\<rparr>"
    and "flags = (case rank_cut E es order r of None \<Rightarrow> FLAG_NONE | Some c \<Rightarrow> if c = r then DELEGATION else GLUE)"
    and "di' = di @ occluded_at E es order r"
    by blast+
qed

lemma cname_flag_bit: "bit (cname_flag rs f) j \<longleftrightarrow> bit f j \<or> j = 3 \<and> (\<exists>r \<in> set rs. s_type r = RT_CNAME)"
  unfolding cname_flag_def by (induction rs arbitrary: f) auto

section \<open>The pass\<close>

definition node_inv :: "hickory \<Rightarrow> entry list \<Rightarrow> nat list \<Rightarrow> rrset list \<Rightarrow> rdata list \<Rightarrow> nat \<Rightarrow> node \<Rightarrow> bool" where
  "node_inv E es order rrs rd r nd \<longleftrightarrow>
     node_name nd = s_name (snd (es ! (order ! r))) \<and>
     node_cut nd = enc_cut (rank_cut E es order r) \<and>
     (\<exists>rs. span_get rrs (node_rrsets nd) = Some rs \<and> lays rd (kept_runs E es order r) rs) \<and>
     (bit (node_flags nd) 1 \<longleftrightarrow> rank_cut E es order r = Some r) \<and>
     (bit (node_flags nd) 4 \<longleftrightarrow> (\<exists>c. rank_cut E es order r = Some c \<and> c \<noteq> r)) \<and>
     (bit (node_flags nd) 2 \<longleftrightarrow> s_wildcard (snd (es ! (order ! r)))) \<and>
     (bit (node_flags nd) 3 \<longleftrightarrow> (\<exists>x \<in> set (kept_runs E es order r). s_type x = RT_CNAME))"

definition arena_inv :: "hickory \<Rightarrow> u64 \<Rightarrow> entry list \<Rightarrow> nat list \<Rightarrow> nat \<Rightarrow> arena \<Rightarrow> bool" where
  "arena_inv E seed es order R a \<longleftrightarrow>
     a_slots a = map (\<lambda>p. if p \<in> set (take R order) then None else Some (es ! p)) [0..<length es] \<and>
     length (a_nodes a) = R \<and>
     (\<forall>r < R. node_inv E es order (a_rrsets a) (a_rdata a) r (a_nodes a ! r)) \<and>
     a_hashes a = map (\<lambda>r. name_hash seed (ranked es order ! r)) [0..<R] \<and>
     a_max_depth a \<le> 127 \<and> (\<forall>r < R. length (ranked es order ! r) \<le> a_max_depth a) \<and>
     a_rdata a = concat (map (\<lambda>r. concat (map s_rdata (kept_runs E es order r))) [0..<R]) \<and>
     a_diagnostics a = concat (map (occluded_at E es order) [0..<R])"

lemma node_inv_grow:
  "node_inv E es order rrs rd r nd \<Longrightarrow> node_inv E es order (rrs @ xs) (rd @ ys) r nd"
  unfolding node_inv_def by (blast intro: span_get_append lays_append)

lemma slots_taken:
  assumes "distinct order" and "R < length order" and "set order = {0..<n}"
  shows "(map (\<lambda>p. if p \<in> set (take R order) then None else Some (es ! p)) [0..<n])[order ! R := None] =
    map (\<lambda>p. if p \<in> set (take (Suc R) order) then None else Some (es ! p)) [0..<n]"
proof -
  have "order ! R < n" using assms(2,3) by (metis atLeastLessThan_iff nth_mem)
  moreover have "set (take (Suc R) order) = insert (order ! R) (set (take R order))"
    using assms(2) by (simp add: take_Suc_conv_app_nth)
  ultimately show ?thesis by (intro nth_equalityI) (auto simp: nth_list_update)
qed

lemma order_not_taken: "distinct order \<Longrightarrow> R < length order \<Longrightarrow> order ! R \<notin> set (take R order)"
  by (auto simp: in_set_conv_nth nth_eq_iff_index_eq)

lemma lay_node_step:
  assumes ok: "order_ok lower es order" and eok: "entries_ok lower es" and small: "length es < 2 ^ 32 - 1"
    and R: "R < length es"
    and cuts: "cut_of = map (\<lambda>r. enc_cut (rank_cut E es order r)) [0..<length es]"
    and del: "\<And>c. c < length es \<Longrightarrow> deleg_rank E es order c \<Longrightarrow>
      delegations (of_nat c) = ns_targets E (snd (es ! (order ! c)))"
    and inv: "arena_inv E seed es order R a"
    and step: "lay_node seed cut_of delegations (R, order ! R) a = Inr a'"
  obtains rrs rd start stop flags where
    "arena_offset (length (a_rrsets a)) = Inr start" "arena_offset (length rrs) = Inr stop"
    "lay_runs (kept_runs E es order R) (a_rrsets a, a_rdata a) = Inr (rrs, rd)"
    "flags = cname_flag (kept_runs E es order R)
       (let f = (case rank_cut E es order R of None \<Rightarrow> FLAG_NONE | Some c \<Rightarrow> if c = R then DELEGATION else GLUE)
        in if s_wildcard (snd (es ! (order ! R))) then flags_insert f WILDCARD else f)"
    "a_slots a' = (a_slots a)[order ! R := None]"
    "a_nodes a' = a_nodes a @ [\<lparr>node_name = s_name (snd (es ! (order ! R))), node_rrsets = (start, stop),
       node_cut = enc_cut (rank_cut E es order R), node_flags = flags\<rparr>]"
    "a_rrsets a' = rrs" "a_rdata a' = rd" "a_hashes a' = a_hashes a @ [name_hash seed (ranked es order ! R)]"
    "a_max_depth a' = max (a_max_depth a) (length (ranked es order ! R))"
    "a_diagnostics a' = a_diagnostics a @ occluded_at E es order R"
proof -
  let ?p = "order ! R"
  let ?sc = "(snd (es ! ?p))\<lparr>s_rrsets := sort_key s_type (s_rrsets (snd (es ! ?p)))\<rparr>"
  note of = order_facts [OF ok]
  have p: "?p < length es" using of(1,2) R by (metis atLeastLessThan_iff nth_mem)
  have slot: "Option.bind (list_get (a_slots a) ?p) id = Some (es ! ?p)"
    using inv p order_not_taken [OF of(3)] of(1) R by (simp add: arena_inv_def list_get_def)
  have c: "unwrap_or NONE_IDX (list_get cut_of R) = enc_cut (rank_cut E es order R)"
    using R by (simp add: cuts list_get_def)
  have here: "arena_offset R = Inr (of_nat R)" using R small by (simp add: arena_offset_def)
  obtain lower' sc' where e: "es ! ?p = (lower', sc')" by fastforce
  have own: "lower' = ranked es order ! R" using e R of(1) by (simp add: ranked_def)
  have dep: "length (s_name sc') = length (ranked es order ! R)"
    using e own eok nth_mem [OF p] by (auto simp: entries_ok_def entry_ok_def)
  let ?ap = "apply_cut ?sc (ranked es order ! R) (enc_cut (rank_cut E es order R)) (of_nat R) delegations
      (a_dropped a) (a_diagnostics a)"
  obtain flags sc dr di where ap: "?ap = (flags, sc, dr, di)" by (cases ?ap) auto
  note apc = apply_cut_eq [OF ok eok small R del refl ap]
  have sc: "s_name sc = s_name (snd (es ! ?p))" "s_wildcard sc = s_wildcard (snd (es ! ?p))"
    "s_rrsets sc = kept_runs E es order R"
    by (simp_all add: apc(1))
  from step slot have "rbind (arena_offset (length (a_rrsets a))) (\<lambda>start.
      rbind (lay_runs (s_rrsets sc) (a_rrsets a, a_rdata a)) (\<lambda>(rrs, rd).
      rbind (arena_offset (length rrs)) (\<lambda>stop.
      Inr \<lparr>a_slots = (a_slots a)[?p := None],
           a_nodes = a_nodes a @ [\<lparr>node_name = s_name sc, node_rrsets = (start, stop),
              node_cut = enc_cut (rank_cut E es order R),
              node_flags = cname_flag (s_rrsets sc) (if s_wildcard sc then flags_insert flags WILDCARD else flags)\<rparr>],
           a_rrsets = rrs, a_rdata = rd,
           a_hashes = a_hashes a @ [name_hash seed (ranked es order ! R)],
           a_max_depth = max (a_max_depth a) (length (s_name sc)),
           a_dropped = dr, a_diagnostics = di\<rparr>))) = Inr a'"
    using c here ap e own by (simp add: lay_node_def Let_def)
  then show ?thesis
    using that sc dep e apc(2,3) by (fastforce simp: rbind_eq_Inr Let_def)
qed

lemma lay_node_inv:
  assumes ok: "order_ok lower es order" and eok: "entries_ok lower es" and small: "length es < 2 ^ 32 - 1"
    and R: "R < length es"
    and cuts: "cut_of = map (\<lambda>r. enc_cut (rank_cut E es order r)) [0..<length es]"
    and del: "\<And>c. c < length es \<Longrightarrow> deleg_rank E es order c \<Longrightarrow>
      delegations (of_nat c) = ns_targets E (snd (es ! (order ! c)))"
    and inv: "arena_inv E seed es order R a"
    and step: "lay_node seed cut_of delegations (R, order ! R) a = Inr a'"
  shows "arena_inv E seed es order (Suc R) a'"
proof (rule lay_node_step [OF assms])
  fix rrs rd start stop flags
  assume st: "arena_offset (length (a_rrsets a)) = Inr start" "arena_offset (length rrs) = Inr stop"
    and runs: "lay_runs (kept_runs E es order R) (a_rrsets a, a_rdata a) = Inr (rrs, rd)"
    and fl: "flags = cname_flag (kept_runs E es order R)
       (let f = (case rank_cut E es order R of None \<Rightarrow> FLAG_NONE | Some c \<Rightarrow> if c = R then DELEGATION else GLUE)
        in if s_wildcard (snd (es ! (order ! R))) then flags_insert f WILDCARD else f)"
    and a': "a_slots a' = (a_slots a)[order ! R := None]"
    "a_nodes a' = a_nodes a @ [\<lparr>node_name = s_name (snd (es ! (order ! R))), node_rrsets = (start, stop),
       node_cut = enc_cut (rank_cut E es order R), node_flags = flags\<rparr>]"
    "a_rrsets a' = rrs" "a_rdata a' = rd" "a_hashes a' = a_hashes a @ [name_hash seed (ranked es order ! R)]"
    "a_max_depth a' = max (a_max_depth a) (length (ranked es order ! R))"
    "a_diagnostics a' = a_diagnostics a @ occluded_at E es order R"
  note of = order_facts [OF ok] and N = ranked_facts [OF ok eok]
  from lay_runs_Inr [OF runs] obtain xs where xs: "rrs = a_rrsets a @ xs"
    "rd = a_rdata a @ concat (map s_rdata (kept_runs E es order R))" "lays rd (kept_runs E es order R) xs" by blast
  have "span_get rrs (start, stop) = Some xs"
    using span_get_new [of "a_rrsets a" start xs stop "[]"] st xs(1) by simp
  then have new: "node_inv E es order rrs rd R (last (a_nodes a'))"
    using xs(3) unfolding a'(2) node_inv_def fl
    by (auto simp: cname_flag_bit Let_def split: option.splits)
  have old: "\<forall>r < R. node_inv E es order rrs rd r (a_nodes a ! r)"
    using inv xs(1,2) by (auto simp: arena_inv_def intro: node_inv_grow)
  have len: "length (a_nodes a) = R" using inv by (simp add: arena_inv_def)
  have nodes: "\<forall>r < Suc R. node_inv E es order (a_rrsets a') (a_rdata a') r (a_nodes a' ! r)"
    using old new len a' by (auto simp: less_Suc_eq nth_append)
  have "length (ranked es order ! R) \<le> 127"
    using entry_key_facts(3) [OF eok] N(1,2) R by (metis nth_mem)
  then have depth: "a_max_depth a' \<le> 127" "\<forall>r < Suc R. length (ranked es order ! r) \<le> a_max_depth a'"
    using inv a'(6) by (auto simp: arena_inv_def less_Suc_eq le_max_iff_disj)
  have "a_slots a' = map (\<lambda>p. if p \<in> set (take (Suc R) order) then None else Some (es ! p)) [0..<length es]"
    using slots_taken [OF of(3) _ of(2)] R of(1) inv a'(1) by (simp add: arena_inv_def)
  with nodes depth a' len inv xs(2) show ?thesis by (simp add: arena_inv_def)
qed

end
