(* ===== verification/Zone_Correct.thy ===== *)
theory Zone_Correct
  imports Zone_Arena
begin

text \<open>
  The build and the query path together: a zone that \<open>from_config\<close> returns satisfies every
  invariant the sources assert, answers every query as the reference algorithm does, and holds
  exactly the configured names and records.
\<close>

section \<open>What the build returns\<close>

definition built :: "hickory \<Rightarrow> name \<Rightarrow> entry list \<Rightarrow> nat list \<Rightarrow> zone \<Rightarrow> bool" where
  "built E lower es order Z \<longleftrightarrow> closed_entries lower es \<and> order_ok lower es order \<and> length es < 2 ^ 32 - 1 \<and>
     lower_origin Z = lower \<and> length (nodes Z) = length es \<and>
     (\<forall>r < length es. node_inv E es order (rrsets Z) (rdatas Z) r (nodes Z ! r)) \<and>
     index Z = map (\<lambda>r. (name_hash (hash_seed Z) (ranked es order ! r), of_nat r)) [0..<length es] \<and>
     unat (origin_depth Z) = length lower \<and> (\<forall>r < length es. length (ranked es order ! r) \<le> unat (max_depth Z)) \<and>
     rdatas Z = concat (map (\<lambda>r. concat (map s_rdata (kept_runs E es order r))) [0..<length es])"

lemma build_index_Inr:
  "build_index_from k hs = Inr t \<Longrightarrow> t = map (\<lambda>i. (hs ! i, of_nat (k + i))) [0..<length hs]"
proof (induction hs arbitrary: k t)
  case (Cons h hs)
  from Cons.prems obtain t' where t: "t = (h, of_nat k) # t'" and "build_index_from (k + 1) hs = Inr t'"
    by (auto simp: rbind_eq_Inr arena_offset_Inr)
  with Cons.IH have "t' = map (\<lambda>i. (hs ! i, of_nat (k + 1 + i))) [0..<length hs]" by blast
  moreover have "[0..<length (h # hs)] = 0 # map Suc [0..<length hs]"
    by (metis length_Cons map_Suc_upt upt_conv_Cons zero_less_Suc)
  ultimately show ?case using t by (simp add: comp_def)
qed simp

lemma map_by_nth: "map f xs = map (\<lambda>i. f (xs ! i)) [0..<length xs]"
  by (rule nth_equalityI) simp_all

abbreviation closure_of :: "hickory \<Rightarrow> (entry list \<Rightarrow> entry list) \<Rightarrow> zone_builder \<Rightarrow> entry list" where
  "closure_of E iter b \<equiv> materialise_ancestors E iter (b_lower_origin b) (with_apex b)"

lemma finish_Inr:
  assumes "finish E iter seed b sc = Inr Z"
  obtains order cut_of delegations a idx s where
    "check_findings (b_lower_origin b) (sc \<noteq> None) (iter (closure_of E iter b)) = []"
    "opt_or sc (apex_soa_record (b_lower_origin b) (closure_of E iter b)) = Some s"
    "layout E (iter (closure_of E iter b)) = Inr (order, cut_of, delegations)"
    "rfold (lay_node seed cut_of delegations) (enumerate 0 order) (arena_new (iter (closure_of E iter b))) = Inr a"
    "build_index (a_hashes a) = Inr idx"
    "Z = (assemble b s seed a idx)\<lparr>
       referrals := fst (build_referrals E (assemble b s seed a idx) (a_diagnostics a)),
       diagnostics := snd (build_referrals E (assemble b s seed a idx) (a_diagnostics a))\<rparr>"
  using assms unfolding finish_def
  by (auto simp: rbind_eq_Inr Let_def check_invariants_def case_prod_beta split: if_splits)

lemma finish_arena:
  assumes E: "hickory_ok E" and it: "iter_ok iter" and b: "builder_ok b" and fin: "finish E iter seed b sc = Inr Z"
  obtains order a idx s where "built E (b_lower_origin b) (iter (closure_of E iter b)) order Z"
    "arena_inv E seed (iter (closure_of E iter b)) order (length (iter (closure_of E iter b))) a"
    "Z = (assemble b s seed a idx)\<lparr>
       referrals := fst (build_referrals E (assemble b s seed a idx) (a_diagnostics a)),
       diagnostics := snd (build_referrals E (assemble b s seed a idx) (a_diagnostics a))\<rparr>"
  using fin
proof (cases rule: finish_Inr)
  case (1 order cut_of delegations a idx s)
  let ?es = "iter (closure_of E iter b)" and ?lower = "b_lower_origin b"
  have es: "closed_entries ?lower ?es"
    by (intro closed_iter [OF it] materialise_closed(1) [OF E it] with_apex_ok [OF b])
  then have eok: "entries_ok ?lower ?es" by (simp add: closed_entries_def)
  note L = layout_ok [OF es 1(3)]
  note len = order_facts(1) [OF L(1)]
  have "arena_inv E seed ?es order (0 + length order) a"
  proof (rule rfold_enumerate [OF 1(4)])
    show "arena_inv E seed ?es order 0 (arena_new ?es)"
      using map_by_nth [of Some ?es] by (simp add: arena_inv_def arena_new_def)
  next
    fix i a t
    assume "i < length order" and step: "lay_node seed cut_of delegations (0 + i, order ! i) a = Inr t"
      and inv: "arena_inv E seed ?es order (0 + i) a"
    then have i: "i < length ?es" using len by simp
    have "arena_inv E seed ?es order (Suc i) t"
    proof (rule lay_node_inv [OF L(1) eok L(2) i L(3)])
      show "c < length ?es \<Longrightarrow> deleg_rank E ?es order c \<Longrightarrow>
          delegations (of_nat c) = ns_targets E (snd (?es ! (order ! c)))" for c by (rule L(4))
    qed (use inv step in simp_all)
    then show "arena_inv E seed ?es order (Suc (0 + i)) t" by simp
  qed
  then have inv: "arena_inv E seed ?es order (length ?es) a" using len by simp
  have idx: "idx = map (\<lambda>r. (name_hash seed (ranked ?es order ! r), of_nat r)) [0..<length ?es]"
    using build_index_Inr [of 0 "a_hashes a" idx] 1(5) inv by (simp add: build_index_def arena_inv_def)
  have "has_key ?lower ?es" using es by (simp add: closed_entries_def)
  then have depth: "length ?lower \<le> 127" using key_facts [OF eok] by blast
  have Z: "lower_origin Z = ?lower" "nodes Z = a_nodes a" "rrsets Z = a_rrsets a" "rdatas Z = a_rdata a"
    "index Z = idx" "hash_seed Z = seed" "unat (origin_depth Z) = min (length ?lower) 127"
    "unat (max_depth Z) = min (a_max_depth a) 127"
    by (simp_all add: 1(6) assemble_def label_count_def)
  have "built E ?lower ?es order Z"
    using es L(1,2) inv idx depth unfolding built_def arena_inv_def Z by auto
  then show ?thesis using that inv 1(6) by blast
qed

lemma finish_built:
  assumes "hickory_ok E" and "iter_ok iter" and "builder_ok b" and "finish E iter seed b sc = Inr Z"
  shows "\<exists>order. built E (b_lower_origin b) (iter (closure_of E iter b)) order Z"
  using finish_arena [OF assms] by blast

section \<open>A built zone is well formed\<close>

lemma built_facts:
  assumes "built E lower es order Z"
  shows "closed_entries lower es" and "entries_ok lower es" and "order_ok lower es order"
    and "length es < 2 ^ 32 - 1" and "lower_origin Z = lower" and "length (nodes Z) = length es"
    and "r < length es \<Longrightarrow> node_inv E es order (rrsets Z) (rdatas Z) r (nodes Z ! r)"
    and "index Z = map (\<lambda>r. (name_hash (hash_seed Z) (ranked es order ! r), of_nat r)) [0..<length es]"
    and "unat (origin_depth Z) = length lower"
    and "r < length es \<Longrightarrow> length (ranked es order ! r) \<le> unat (max_depth Z)"
    and "rdatas Z = concat (map (\<lambda>r. concat (map s_rdata (kept_runs E es order r))) [0..<length es])"
  using assms unfolding built_def closed_entries_def by blast+

lemma built_names:
  assumes "built E lower es order Z"
  shows "owner_names Z = ranked es order"
proof -
  note b = built_facts(6,3,2) [OF assms]
  have nm: "node_name (nodes Z ! r) = s_name (snd (es ! (order ! r)))" if "r < length es" for r
    using built_facts(7) [OF assms that] by (simp add: node_inv_def)
  show ?thesis
  proof (rule nth_equalityI)
    show "length (owner_names Z) = length (ranked es order)"
      using b(1) ranked_facts(1) [OF b(2,3)] by simp
    fix i assume "i < length (owner_names Z)"
    then have i: "i < length es" using b(1) by simp
    then have p: "order ! i < length es" using order_facts [OF b(2)] by (metis atLeastLessThan_iff nth_mem)
    then have "fst (es ! (order ! i)) = lower_name (s_name (snd (es ! (order ! i))))"
      using b(3) nth_mem [OF p] unfolding entries_ok_def entry_ok_def by blast
    then show "owner_names Z ! i = ranked es order ! i"
      using i b nm order_facts(1) [OF b(2)] by (simp add: ranked_def)
  qed
qed

lemma built_names_ok:
  assumes "built E lower es order Z"
  shows "names_ok Z"
proof -
  note b = built_facts(1,6,3,2,5,4) [OF assms]
  note N = ranked_facts [OF b(3,4)] and on = built_names [OF assms]
  have hk: "has_key lower es" using b(1) by (simp add: closed_entries_def)
  have "es \<noteq> []" using hk by (auto simp: has_key_iff)
  moreover have "is_lower lower" using entry_key_facts(1) [OF b(4)] hk by (auto simp: is_lower_def has_key_iff)
  moreover have "suffix lower n \<and> length n \<le> 127 \<and> (n = lower \<or> tl n \<in> set (ranked es order))"
    if "n \<in> set (ranked es order)" for n
    using that b(1) entry_key_facts [OF b(4), of n] unfolding closed_entries_def parent_present_def has_key_iff N(2)
    by blast
  ultimately show ?thesis
    using b N on unfolding names_ok_def by (auto simp: order_ok_def)
qed

lemma deleg_iff_cut:
  assumes "order_ok lower es order" and "entries_ok lower es" and "r < length es"
  shows "rank_cut E es order r = Some r \<longleftrightarrow> deleg_rank E es order r"
proof
  show "rank_cut E es order r = Some r \<Longrightarrow> deleg_rank E es order r"
    by (rule rank_cut_bound(2) [OF assms(1,2)])
next
  assume d: "deleg_rank E es order r"
  then show "rank_cut E es order r = Some r"
    using deleg_named_nth [OF assms, of E] by (cases "ranked es order ! r") simp_all
qed

lemma governing_cut_by:
  "governing_cut Z n = cut_by (\<lambda>n. case node_named Z n of
     Some i \<Rightarrow> (if flags_contains (node_flags (nodes Z ! i)) DELEGATION then Some i else None) | None \<Rightarrow> None) n"
proof (induction n)
  case Nil
  show ?case by (subst governing_cut.simps) (simp split: option.split)
next
  case (Cons l p)
  show ?case by (subst governing_cut.simps) (simp add: Cons.IH split: option.split)
qed

lemma built_governing_cut:
  assumes "built E lower es order Z"
  shows "governing_cut Z n = cut_by (deleg_named E es order) n"
proof -
  note b = built_facts(3,2,6) [OF assms]
  have fl: "flags_contains (node_flags (nodes Z ! r)) DELEGATION \<longleftrightarrow> rank_cut E es order r = Some r"
    if "r < length es" for r
    using built_facts(7) [OF assms that] by (simp add: node_inv_def)
  have "(case node_named Z n of
     Some i \<Rightarrow> (if flags_contains (node_flags (nodes Z ! i)) DELEGATION then Some i else None) | None \<Rightarrow> None)
     = deleg_named E es order n" for n
  proof (cases "node_named Z n")
    case None
    then show ?thesis using built_names [OF assms] by (simp add: node_named_def deleg_named_def)
  next
    case (Some i)
    then have "i < length es" using node_named_Some b(3) by metis
    then show ?thesis
      using Some fl deleg_iff_cut [OF b(1,2)] built_names [OF assms] by (simp add: node_named_def deleg_named_def)
  qed
  then show ?thesis by (simp only: governing_cut_by)
qed

lemma kept_runs_sub:
  "x \<in> set (kept_runs E es order r) \<Longrightarrow> x \<in> set (s_rrsets (snd (es ! (order ! r))))"
  by (auto simp: kept_runs_def Let_def split: option.splits)

lemma kept_runs_sorted: "sorted (map s_type (kept_runs E es order r))"
  by (auto simp: kept_runs_def Let_def split: option.split intro!: sorted_filter)

lemma rank_runs_ok:
  assumes "order_ok lower es order" and "entries_ok lower es" and "r < length es"
  shows "runs_ok (s_rrsets (snd (es ! (order ! r))))"
proof -
  have "order ! r < length es" using order_facts [OF assms(1)] assms(3) by (metis atLeastLessThan_iff nth_mem)
  then show ?thesis using assms(2) nth_mem unfolding entries_ok_def entry_ok_def by blast
qed

lemma built_sets_ok:
  assumes "built E lower es order Z"
  shows "sets_ok Z"
  unfolding sets_ok_def
proof
  fix nd assume "nd \<in> set (nodes Z)"
  note b = built_facts(3,2,6) [OF assms]
  then obtain r where r: "r < length es" "nd = nodes Z ! r" using \<open>nd \<in> set (nodes Z)\<close> by (metis in_set_conv_nth)
  have ni: "node_inv E es order (rrsets Z) (rdatas Z) r nd" using built_facts(7) [OF assms r(1)] r(2) by simp
  then obtain rs where rs: "span_get (rrsets Z) (node_rrsets nd) = Some rs" "lays (rdatas Z) (kept_runs E es order r) rs"
    unfolding node_inv_def by blast
  have len: "length rs = length (kept_runs E es order r)" using rs(2) by (simp add: lays_def list_all2_lengthD)
  have "sorted (map rr_type rs)" using lays_types [OF rs(2)] kept_runs_sorted by metis
  moreover have "\<exists>vs. span_get (rdatas Z) (rr_rdata x) = Some vs \<and> vs \<noteq> []" if "x \<in> set rs" for x
  proof -
    from that rs(2) obtain s where s: "s \<in> set (kept_runs E es order r)" "span_get (rdatas Z) (rr_rdata x) = Some (s_rdata s)"
      using lays_mem by blast
    then have "s_rdata s \<noteq> []"
      using rank_runs_ok [OF b(1,2) r(1)] kept_runs_sub [OF s(1)] unfolding runs_ok_def by blast
    with s(2) show ?thesis by blast
  qed
  moreover have "flags_contains (node_flags nd) HAS_CNAME \<longleftrightarrow> (\<exists>x \<in> set rs. rr_type x = RT_CNAME)"
  proof -
    have "(\<exists>x \<in> set rs. rr_type x = RT_CNAME) \<longleftrightarrow> RT_CNAME \<in> set (map rr_type rs)" by auto
    also have "\<dots> \<longleftrightarrow> (\<exists>x \<in> set (kept_runs E es order r). s_type x = RT_CNAME)"
      unfolding lays_types [OF rs(2)] by auto
    finally show ?thesis using ni unfolding node_inv_def by simp
  qed
  ultimately show "\<exists>rs. span_get (rrsets Z) (node_rrsets nd) = Some rs \<and> sorted (map rr_type rs) \<and>
     (\<forall>r \<in> set rs. \<exists>vs. span_get (rdatas Z) (rr_rdata r) = Some vs \<and> vs \<noteq> []) \<and>
     (flags_contains (node_flags nd) HAS_CNAME \<longleftrightarrow> (\<exists>r \<in> set rs. rr_type r = RT_CNAME))"
    using rs(1) by blast
qed

lemma built_zone_ok:
  assumes "built E lower es order Z"
  shows "zone_ok Z"
proof -
  note on = built_names [OF assms]
  note b = built_facts(3,2,6) [OF assms]
  have "length n \<le> unat (max_depth Z)" if "n \<in> set (ranked es order)" for n
    using that built_facts(10) [OF assms] ranked_facts(1) [OF b(1,2)] by (metis in_set_conv_nth)
  then have "index_ok Z"
    using built_facts(5,8,9) [OF assms] b(3) on unfolding index_ok_def by simp
  moreover have "cuts_ok Z"
    unfolding cuts_ok_def on built_governing_cut [OF assms]
    using built_facts(7) [OF assms] b(3) by (simp add: node_inv_def enc_cut_def)
  ultimately show ?thesis
    using built_names_ok [OF assms] built_sets_ok [OF assms] by (simp add: zone_ok_def)
qed

lemma built_targets_ok:
  assumes "built E lower es order Z"
  shows "targets_ok Z"
  unfolding targets_ok_def
proof
  fix d assume "d \<in> set (rdatas Z)"
  note b = built_facts(3,2) [OF assms]
  from \<open>d \<in> set (rdatas Z)\<close> obtain r x where r: "r < length es" "x \<in> set (kept_runs E es order r)" "d \<in> set (s_rdata x)"
    unfolding built_facts(11) [OF assms] by auto
  then have "value_ok (s_type x) d"
    using rank_runs_ok [OF b r(1)] kept_runs_sub [OF r(2)] unfolding runs_ok_def by blast
  then show "case d of RD_CNAME target \<Rightarrow> length target \<le> 127 | _ \<Rightarrow> True"
    by (auto simp: value_ok_def split: rdata.splits)
qed

end
