(* ===== verification/Zone_Referral.thy ===== *)
theory Zone_Referral
  imports Zone_Correct
begin

text \<open>
  The referrals the build assembles: for every delegation the NS RRset as authority and, as
  additional data, the addresses the zone holds for each distinct name server inside it.
\<close>

section \<open>The specification\<close>

fun uniq :: "'a list \<Rightarrow> 'a list \<Rightarrow> 'a list" where
  "uniq seen [] = []"
| "uniq seen (x # xs) = (if x \<in> set seen then uniq seen xs else x # uniq (seen @ [x]) xs)"

definition ns_names :: "rdata list \<Rightarrow> name list" where
  "ns_names vs = List.map_filter (\<lambda>v. case v of RD_NS n \<Rightarrow> Some (lower_name n) | _ \<Rightarrow> None) vs"

definition glue_of :: "zone \<Rightarrow> name \<Rightarrow> dns_record list" where
  "glue_of Z n = (case node_named Z n of
       Some i \<Rightarrow> records_at Z (nodes Z ! i) RT_A (node_name (nodes Z ! i)) @
                 records_at Z (nodes Z ! i) RT_AAAA (node_name (nodes Z ! i))
     | None \<Rightarrow> [])"

definition spec_referral :: "zone \<Rightarrow> node \<Rightarrow> referral_data" where
  "spec_referral Z nd = \<lparr>
     ref_authority = records_at Z nd RT_NS (node_name nd),
     ref_additional = concat (map (glue_of Z) (filter (suffix (lower_origin Z))
       (uniq [] (ns_names (concat (map (values_of Z) (sets_at Z nd RT_NS)))))))\<rparr>"

section \<open>The assembly computes it\<close>

lemma glue_for_step:
  assumes E: "hickory_ok E" and Z: "zone_ok Z" and n: "length target \<le> 127"
  shows "g_seen (glue_for E Z c target g) =
      (if lower_name target \<in> set (g_seen g) then g_seen g else g_seen g @ [lower_name target])"
    and "g_additional (glue_for E Z c target g) = g_additional g @
      (if lower_name target \<in> set (g_seen g) \<or> \<not> suffix (lower_origin Z) (lower_name target) then []
       else glue_of Z (lower_name target))"
proof -
  let ?n = "lower_name target"
  have len: "length ?n \<le> 127" using n by simp
  have ok: "sets_ok Z" using Z by (simp add: zone_ok_def)
  have mem: "nodes Z ! i \<in> set (nodes Z)" if "node_named Z ?n = Some i" for i
    using node_named_Some [OF that] by simp
  have glue: "fold (\<lambda>t. emit Z (rrsets_of Z (nodes Z ! i) t) (node_name (nodes Z ! i))) [RT_A, RT_AAAA] out =
      out @ glue_of Z ?n" if "node_named Z ?n = Some i" for i out
    using that rrsets_of_eq [OF ok mem [OF that]] by (simp add: emit_records_at glue_of_def)
  note ex = exact_lookup [OF E Z is_lower_lower_name len]
  have con: "contains E Z ?n \<longleftrightarrow> suffix (lower_origin Z) ?n" by (rule contains_eq [OF E Z is_lower_lower_name])
  show "g_seen (glue_for E Z c target g) =
      (if ?n \<in> set (g_seen g) then g_seen g else g_seen g @ [?n])"
    using E by (simp add: glue_for_def Let_def)
  show "g_additional (glue_for E Z c target g) = g_additional g @
      (if ?n \<in> set (g_seen g) \<or> \<not> suffix (lower_origin Z) ?n then [] else glue_of Z ?n)"
    using E ex con glue
    by (cases "node_named Z ?n") (auto simp: glue_for_def Let_def glue_of_def)
qed

lemma glue_for_notes:
  assumes E: "hickory_ok E" and Z: "zone_ok Z" and n: "length target \<le> 127" and c: "is_lower c"
  shows "g_notes (glue_for E Z c target g) = g_notes g @
    (if lower_name target \<notin> set (g_seen g) \<and> suffix c (lower_name target) \<and>
        (suffix (lower_origin Z) (lower_name target) \<longrightarrow> glue_of Z (lower_name target) = [])
     then [MissingGlue c (lower_name target)] else [])"
proof -
  have low: "lower_from E target = lower_name target" using E by simp
  have "zone_of E c (lower_name target) \<longleftrightarrow> suffix c (lower_name target)" by (rule zone_of_eq [OF E c is_lower_lower_name])
  then have "g_notes (glue_for E Z c target g) = (if lower_name target \<in> set (g_seen g) then g_notes g
      else if length (g_additional (glue_for E Z c target g)) = length (g_additional g) \<and> suffix c (lower_name target)
      then g_notes g @ [MissingGlue c (lower_name target)] else g_notes g)"
    by (simp add: glue_for_def Let_def low)
  then show ?thesis unfolding glue_for_step(2) [OF E Z n] by auto
qed

lemma glue_fold:
  assumes E: "hickory_ok E" and Z: "zone_ok Z"
    and "\<forall>v \<in> set vs. case v of RD_NS n \<Rightarrow> length n \<le> 127 | _ \<Rightarrow> True"
  shows "g_additional (fold (\<lambda>v g. case v of RD_NS target \<Rightarrow> glue_for E Z c target g | _ \<Rightarrow> g) vs g) =
    g_additional g @ concat (map (glue_of Z) (filter (suffix (lower_origin Z)) (uniq (g_seen g) (ns_names vs))))"
  using assms(3)
proof (induction vs arbitrary: g)
  case Nil
  then show ?case by (simp add: ns_names_def)
next
  case (Cons v vs)
  show ?case
  proof (cases "\<exists>n. v = RD_NS n")
    case True
    then obtain n where v: "v = RD_NS n" by blast
    then have len: "length n \<le> 127" using Cons.prems by simp
    have "ns_names (v # vs) = lower_name n # ns_names vs" by (simp add: v ns_names_def)
    then show ?thesis
      using Cons.IH [of "glue_for E Z c n g"] Cons.prems glue_for_step [OF E Z len, of c g] by (simp add: v)
  next
    case False
    then have skip: "(case v of RD_NS target \<Rightarrow> glue_for E Z c target g | _ \<Rightarrow> g) = g"
      and "ns_names (v # vs) = ns_names vs"
      by (cases v; simp add: ns_names_def)+
    then show ?thesis using Cons.IH [of g] Cons.prems by simp
  qed
qed

text \<open>Every NS target of the zone is a name the wire can carry.\<close>

definition ns_ok :: "zone \<Rightarrow> bool" where
  "ns_ok Z \<longleftrightarrow> (\<forall>d \<in> set (rdatas Z). case d of RD_NS target \<Rightarrow> length target \<le> 127 | _ \<Rightarrow> True)"

lemma values_of_sub: "set (values_of Z r) \<subseteq> set (rdatas Z)"
  by (cases "span_get (rdatas Z) (rr_rdata r)")
    (auto simp: values_of_def span_get_def slice_get_def split: if_splits dest: in_set_takeD in_set_dropD)

lemma map_filter_values:
  assumes "sets_ok Z" and "nd \<in> set (nodes Z)" and "\<forall>r \<in> set rs. r \<in> set (sets_at Z nd t)"
  shows "List.map_filter (\<lambda>r. span_get (rdatas Z) (rr_rdata r)) rs = map (values_of Z) rs"
  using assms(3)
proof (induction rs)
  case (Cons r rs)
  from assms(1,2) obtain all where all: "span_get (rrsets Z) (node_rrsets nd) = Some all"
    "\<forall>r \<in> set all. \<exists>vs. span_get (rdatas Z) (rr_rdata r) = Some vs \<and> vs \<noteq> []" unfolding sets_ok_def by blast
  then have "\<exists>vs. span_get (rdatas Z) (rr_rdata r) = Some vs" using Cons.prems by (auto simp: sets_at_def)
  then show ?case using Cons by (auto simp: values_of_def)
qed (simp add: map_filter_simps)

lemma referral_of_eq:
  assumes E: "hickory_ok E" and Z: "zone_ok Z" "ns_ok Z" and nd: "nd \<in> set (nodes Z)"
  shows "fst (referral_of E Z nd diags) = spec_referral Z nd"
proof -
  have ok: "sets_ok Z" using Z by (simp add: zone_ok_def)
  let ?ns = "sets_at Z nd RT_NS"
  let ?vs = "concat (map (values_of Z) ?ns)"
  have vals: "concat (List.map_filter (\<lambda>run. span_get (rdatas Z) (rr_rdata run)) ?ns) = ?vs"
    using map_filter_values [OF ok nd, of ?ns RT_NS] by simp
  have "\<forall>v \<in> set ?vs. case v of RD_NS n \<Rightarrow> length n \<le> 127 | _ \<Rightarrow> True"
  proof
    fix v assume "v \<in> set ?vs"
    then have "v \<in> set (rdatas Z)" using values_of_sub by auto
    then show "case v of RD_NS n \<Rightarrow> length n \<le> 127 | _ \<Rightarrow> True" using Z(2) unfolding ns_ok_def by blast
  qed
  from glue_fold [OF E Z(1) this] show ?thesis
    using rrsets_of_eq [OF ok nd, of RT_NS] vals emit_records_at [of Z nd RT_NS "node_name nd" "[]"]
    by (simp add: referral_of_def spec_referral_def Let_def)
qed

lemma build_referrals_from_spec:
  assumes E: "hickory_ok E" and Z: "zone_ok Z" "ns_ok Z"
    and "set nds \<subseteq> set (nodes Z)" and "i + length nds < 2 ^ 32"
  shows "(\<forall>j < i. fst (build_referrals_from E Z i nds st) (of_nat j) = fst st (of_nat j)) \<and>
    (\<forall>j < length nds. flags_contains (node_flags (nds ! j)) DELEGATION \<longrightarrow>
       fst (build_referrals_from E Z i nds st) (of_nat (i + j)) = Some (spec_referral Z (nds ! j)))"
  using assms(4,5)
proof (induction nds arbitrary: i st)
  case (Cons nd nds)
  let ?st = "if flags_contains (node_flags nd) DELEGATION \<and> int i < 2 ^ 32 then
      (let (r, diags) = referral_of E Z nd (snd st) in ((fst st)(of_nat i := Some r), diags)) else st"
  have step: "build_referrals_from E Z i (nd # nds) st = build_referrals_from E Z (i + 1) nds ?st" by simp
  have IH: "\<forall>j < i + 1. fst (build_referrals_from E Z (i + 1) nds ?st) (of_nat j) = fst ?st (of_nat j)"
    "\<forall>j < length nds. flags_contains (node_flags (nds ! j)) DELEGATION \<longrightarrow>
       fst (build_referrals_from E Z (i + 1) nds ?st) (of_nat (i + 1 + j)) = Some (spec_referral Z (nds ! j))"
    using Cons.IH [of "i + 1" ?st] Cons.prems by simp_all
  have at: "flags_contains (node_flags nd) DELEGATION \<Longrightarrow> fst ?st (of_nat i) = Some (spec_referral Z nd)"
    using referral_of_eq [OF E Z, of nd "snd st"] Cons.prems by (auto simp: case_prod_beta)
  have before: "fst ?st (of_nat j) = fst st (of_nat j)" if "j < i" for j
  proof -
    have "(of_nat j :: u32) \<noteq> of_nat i" using that Cons.prems(2) of_nat_u32_eq [of j i] by simp
    then show ?thesis by (auto simp: case_prod_beta)
  qed
  show ?case
    unfolding step using IH at before by (auto simp: nth_Cons ac_simps simp del: flags_contains_bit split: nat.split)
qed simp

section \<open>The finished zone\<close>

lemma built_update:
  "built E lower es order (Z\<lparr>referrals := rf, diagnostics := dg\<rparr>) \<longleftrightarrow> built E lower es order Z"
  by (simp add: built_def)

lemma built_ns_ok:
  assumes "built E lower es order Z"
  shows "ns_ok Z"
  unfolding ns_ok_def
proof
  fix d assume "d \<in> set (rdatas Z)"
  note b = built_facts(3,2) [OF assms]
  from \<open>d \<in> set (rdatas Z)\<close> obtain r x where r: "r < length es" "x \<in> set (kept_runs E es order r)" "d \<in> set (s_rdata x)"
    unfolding built_facts(11) [OF assms] by auto
  then have "value_ok (s_type x) d"
    using rank_runs_ok [OF b r(1)] kept_runs_sub [OF r(2)] unfolding runs_ok_def by blast
  then show "case d of RD_NS target \<Rightarrow> length target \<le> 127 | _ \<Rightarrow> True"
    by (auto simp: value_ok_def split: rdata.splits)
qed

lemma view_update:
  "values_of (Z\<lparr>referrals := rf, diagnostics := dg\<rparr>) = values_of Z"
  "sets_at (Z\<lparr>referrals := rf, diagnostics := dg\<rparr>) = sets_at Z"
  "node_named (Z\<lparr>referrals := rf, diagnostics := dg\<rparr>) = node_named Z"
  "records_at (Z\<lparr>referrals := rf, diagnostics := dg\<rparr>) = records_at Z"
  "glue_of (Z\<lparr>referrals := rf, diagnostics := dg\<rparr>) = glue_of Z"
proof -
  show vals: "values_of (Z\<lparr>referrals := rf, diagnostics := dg\<rparr>) = values_of Z"
    and sets: "sets_at (Z\<lparr>referrals := rf, diagnostics := dg\<rparr>) = sets_at Z"
    and named: "node_named (Z\<lparr>referrals := rf, diagnostics := dg\<rparr>) = node_named Z"
    by (simp_all add: fun_eq_iff values_of_def sets_at_def node_named_def owner_names_def)
  then show recs: "records_at (Z\<lparr>referrals := rf, diagnostics := dg\<rparr>) = records_at Z"
    by (simp add: fun_eq_iff records_at_def)
  show "glue_of (Z\<lparr>referrals := rf, diagnostics := dg\<rparr>) = glue_of Z"
    using named recs by (simp add: fun_eq_iff glue_of_def cong: option.case_cong)
qed

lemma spec_referral_update:
  "spec_referral (Z\<lparr>referrals := rf, diagnostics := dg\<rparr>) nd = spec_referral Z nd"
  by (simp add: spec_referral_def view_update)

lemma finish_referrals:
  assumes E: "hickory_ok E" and it: "iter_ok iter" and b: "builder_ok b" and fin: "finish E iter seed b sc = Inr Z"
    and i: "i < length (nodes Z)" and d: "flags_contains (node_flags (nodes Z ! i)) DELEGATION"
  shows "referrals Z (of_nat i) = Some (spec_referral Z (nodes Z ! i))"
proof -
  from finish_built [OF E it b fin] obtain order where bu: "built E (b_lower_origin b) (iter (closure_of E iter b)) order Z"
    by blast
  from fin obtain order' cut_of delegations a idx s where
    Z: "Z = (assemble b s seed a idx)\<lparr>
       referrals := fst (build_referrals E (assemble b s seed a idx) (a_diagnostics a)),
       diagnostics := snd (build_referrals E (assemble b s seed a idx) (a_diagnostics a))\<rparr>"
    by (rule finish_Inr)
  let ?Z = "assemble b s seed a idx"
  have bu': "built E (b_lower_origin b) (iter (closure_of E iter b)) order ?Z"
    using bu unfolding Z built_update .
  have nodes: "nodes Z = nodes ?Z" by (simp add: Z)
  have "names_ok ?Z" using built_zone_ok [OF bu'] by (simp add: zone_ok_def)
  then have small: "0 + length (nodes ?Z) < 2 ^ 32" using names_ok_small by simp
  have "fst (build_referrals_from E ?Z 0 (nodes ?Z) (Map.empty, a_diagnostics a)) (of_nat (0 + i)) =
      Some (spec_referral ?Z (nodes ?Z ! i))"
    using build_referrals_from_spec [OF E built_zone_ok [OF bu'] built_ns_ok [OF bu'] subset_refl small] i d nodes
    by simp
  moreover have "referrals Z = fst (build_referrals E ?Z (a_diagnostics a))" by (simp add: Z)
  moreover have "spec_referral Z nd = spec_referral ?Z nd" for nd unfolding Z by (rule spec_referral_update)
  ultimately show ?thesis by (simp add: build_referrals_def nodes)
qed

end
