(* ===== verification/Zone_Content.thy ===== *)
theory Zone_Content
  imports Zone_Referral
begin

text \<open>
  From the configuration to the zone: which names and which records a configuration declares, and
  that the scratch map, and with it the built zone, holds exactly those.
\<close>

section \<open>What a configuration declares\<close>

definition spec_wild :: "record_spec \<Rightarrow> bool" where
  "spec_wild spec \<longleftrightarrow> trim (spec_name spec) = ''*'' \<or> starts_with ''*.'' (trim (spec_name spec))"

definition spec_label :: "record_spec \<Rightarrow> string" where
  "spec_label spec = (if spec_wild spec then trim_start_dots (tl (trim (spec_name spec))) else trim (spec_name spec))"

text \<open>The owner a record set is filed under; none for a wildcard too long for the wire.\<close>

definition spec_owner :: "hickory \<Rightarrow> name \<Rightarrow> record_spec \<Rightarrow> name option" where
  "spec_owner E origin spec =
     (case qualify E (builder_new origin (lower_name origin) 0) (spec_label spec) of
        Inl _ \<Rightarrow> None
      | Inr ow \<Rightarrow> map_option lower_name (if spec_wild spec then prepend_label E ow WILDCARD_LABEL else Some ow))"

definition spec_rtype :: "hickory \<Rightarrow> record_spec \<Rightarrow> rtype option" where
  "spec_rtype E spec = rtype_from_str E (to_uppercase (spec_type spec))"

definition spec_records :: "hickory \<Rightarrow> u32 \<Rightarrow> rtype \<Rightarrow> record_spec \<Rightarrow> (u32 \<times> rdata) list" where
  "spec_records E ttl t spec =
     map (Pair (unwrap_or ttl (spec_ttl spec))) (List.map_filter (rdata_from_str E t) (spec_values spec))"

definition declared :: "hickory \<Rightarrow> name \<Rightarrow> u32 \<Rightarrow> record_spec list \<Rightarrow> name \<Rightarrow> rtype \<Rightarrow> (u32 \<times> rdata) list" where
  "declared E origin ttl specs k t = concat (map (spec_records E ttl t)
     (filter (\<lambda>s. spec_owner E origin s = Some k \<and> spec_rtype E s = Some t) specs))"

text \<open>An owner counts as a wildcard when the first record set filed under it is written with a star.\<close>

definition wild_owner :: "hickory \<Rightarrow> name \<Rightarrow> record_spec list \<Rightarrow> name \<Rightarrow> bool" where
  "wild_owner E origin specs k = is_some_and (List.find (\<lambda>s. spec_owner E origin s = Some k) specs) spec_wild"

lemma find_snoc: "List.find p (xs @ [x]) = (case List.find p xs of Some y \<Rightarrow> Some y | None \<Rightarrow> if p x then Some x else None)"
  by (induction xs) simp_all

lemma wild_owner_snoc:
  "wild_owner E origin (specs @ [s]) k \<longleftrightarrow> (if \<exists>s \<in> set specs. spec_owner E origin s = Some k then wild_owner E origin specs k
     else spec_owner E origin s = Some k \<and> spec_wild s)"
proof (cases "List.find (\<lambda>s. spec_owner E origin s = Some k) specs")
  case None
  moreover have "\<not> (\<exists>s \<in> set specs. spec_owner E origin s = Some k)" using None by (auto simp: find_None_iff)
  ultimately show ?thesis by (simp add: wild_owner_def find_snoc is_some_and_def)
next
  case (Some x)
  then obtain i where "i < length specs" "spec_owner E origin (specs ! i) = Some k" unfolding find_Some_iff by blast
  then have "\<exists>s \<in> set specs. spec_owner E origin s = Some k" using nth_mem by blast
  then show ?thesis using Some by (simp add: wild_owner_def find_snoc is_some_and_def)
qed

section \<open>The scratch map holds it\<close>

definition run_records :: "rtype \<Rightarrow> scratch_rrset list \<Rightarrow> (u32 \<times> rdata) list" where
  "run_records t rs = concat (map (\<lambda>r. map (Pair (s_ttl r)) (s_rdata r)) (filter (\<lambda>r. s_type r = t) rs))"

lemma run_records_append: "run_records t (xs @ ys) = run_records t xs @ run_records t ys"
  by (simp add: run_records_def)

lemma run_records_single: "run_records t [r] = (if s_type r = t then map (Pair (s_ttl r)) (s_rdata r) else [])"
  by (simp add: run_records_def)

lemma rposition_split:
  "rposition p xs = Some i \<Longrightarrow> \<exists>ys zs. xs = ys @ xs ! i # zs \<and> length ys = i \<and> filter p zs = []"
proof (induction xs arbitrary: i)
  case (Cons x xs)
  show ?case
  proof (cases "rposition p xs")
    case None
    then have "filter p xs = []"
    proof (induction xs)
      case (Cons y ys)
      then show ?case by (auto split: option.splits if_splits)
    qed simp
    with Cons.prems None show ?thesis by (intro exI [of _ "[]"] exI [of _ xs]) (auto split: if_splits)
  next
    case (Some j)
    with Cons.prems have i: "i = Suc j" by simp
    from Cons.IH [OF Some] obtain ys zs where "xs = ys @ xs ! j # zs" "length ys = j" "filter p zs = []" by blast
    with i show ?thesis by (intro exI [of _ "x # ys"] exI [of _ zs]) simp
  qed
qed simp

lemma run_records_add:
  "run_records u (add_run t ttl rd rs) = run_records u rs @ (if u = t then map (Pair ttl) rd else [])"
proof -
  have new: "run_records u (rs @ [\<lparr>s_type = t, s_ttl = ttl, s_rdata = rd\<rparr>]) =
      run_records u rs @ (if u = t then map (Pair ttl) rd else [])"
    by (auto simp: run_records_def)
  show ?thesis
  proof (cases "rposition (\<lambda>r. s_type r = t) rs")
    case (Some i)
    from rposition_split [OF Some] obtain ys zs where sp: "rs = ys @ rs ! i # zs" "length ys = i"
      "filter (\<lambda>r. s_type r = t) zs = []" by blast
    have ty: "s_type (rs ! i) = t" using rposition_bound [OF Some] by simp
    let ?r = "(rs ! i)\<lparr>s_rdata := s_rdata (rs ! i) @ rd\<rparr>"
    have "rs[i := ?r] = ys @ ?r # zs" using sp(1,2) by (metis list_update_length)
    moreover have "run_records t zs = []" using sp(3) by (simp add: run_records_def)
    moreover have "run_records u (ys @ ?r # zs) = run_records u ys @ run_records u [?r] @ run_records u zs"
      "run_records u rs = run_records u ys @ run_records u [rs ! i] @ run_records u zs"
      using run_records_append [of u ys "?r # zs"] run_records_append [of u "[?r]" zs] sp(1)
        run_records_append [of u ys "rs ! i # zs"] run_records_append [of u "[rs ! i]" zs] by simp_all
    ultimately show ?thesis
      using Some new ty by (auto simp: add_run_def run_records_single)
  qed (use new in \<open>simp add: add_run_def\<close>)
qed

definition runs_at :: "entry list \<Rightarrow> name \<Rightarrow> scratch_rrset list" where
  "runs_at es k = (case map_of es k of Some nd \<Rightarrow> s_rrsets nd | None \<Rightarrow> [])"

definition holds :: "hickory \<Rightarrow> name \<Rightarrow> u32 \<Rightarrow> record_spec list \<Rightarrow> zone_builder \<Rightarrow> bool" where
  "holds E origin ttl specs b \<longleftrightarrow> builder_ok b \<and> b_origin b = origin \<and> b_default_ttl b = ttl \<and>
     (\<forall>k. has_key k (b_nodes b) \<longleftrightarrow> (\<exists>s \<in> set specs. spec_owner E origin s = Some k)) \<and>
     (\<forall>k t. run_records t (runs_at (b_nodes b) k) = declared E origin ttl specs k t) \<and>
     (\<forall>k nd. map_of (b_nodes b) k = Some nd \<longrightarrow> s_wildcard nd = wild_owner E origin specs k)"

lemma rmap_map_filter:
  "rmap (value_of_spec E spec t) vs = Inr rd \<Longrightarrow> List.map_filter (rdata_from_str E t) vs = rd"
  by (induction vs arbitrary: rd) (auto simp: rbind_eq_Inr value_of_spec_Inr map_filter_simps)

lemma qualify_builder:
  "b_origin b = b_origin c \<Longrightarrow> b_lower_origin b = b_lower_origin c \<Longrightarrow> qualify E b l = qualify E c l"
  by (simp add: qualify_def Let_def)

lemma insert_spec_holds:
  assumes E: "hickory_ok E" and h: "holds E origin ttl specs b" and step: "insert_spec E spec b = Inr b'"
  shows "holds E origin ttl (specs @ [spec]) b'"
proof -
  have b: "builder_ok b" "b_origin b = origin" "b_default_ttl b = ttl"
    and keys: "\<And>k. has_key k (b_nodes b) \<longleftrightarrow> (\<exists>s \<in> set specs. spec_owner E origin s = Some k)"
    and recs: "\<And>k t. run_records t (runs_at (b_nodes b) k) = declared E origin ttl specs k t"
    and wild: "\<And>k nd. map_of (b_nodes b) k = Some nd \<Longrightarrow> s_wildcard nd = wild_owner E origin specs k"
    using h by (simp_all add: holds_def)
  have seen: "\<exists>s \<in> set specs. spec_owner E origin s = Some k" if "map_of (b_nodes b) k = Some nd" for k nd
    using keys [of k] that by (simp add: has_key_def)
  have low: "b_lower_origin b = lower_name origin" using b(1,2) unfolding builder_ok_def by simp
  have b': "builder_ok b'" "b_origin b' = origin" "b_default_ttl b' = ttl"
    using insert_spec_ok [OF E b(1) step] insert_spec_frame [OF step] b by simp_all
  from step show ?thesis
  proof (cases rule: insert_spec_Inr)
    case (1 t owner rd)
    have q: "qualify E (builder_new origin (lower_name origin) 0) (spec_label spec) = Inr owner"
      using 1(3) qualify_builder [of "builder_new origin (lower_name origin) 0" b E] b(2) low
      by (simp add: spec_label_def spec_wild_def builder_new_def)
    have ty: "spec_rtype E spec = Some t" using 1(1) by (simp add: spec_rtype_def)
    have sr: "spec_records E ttl t spec = map (Pair (unwrap_or ttl (spec_ttl spec))) rd"
      using rmap_map_filter [OF 1(4)] by (simp add: spec_records_def)
    let ?nm = "if spec_wild spec then prepend_label E owner WILDCARD_LABEL else Some owner"
    have own: "spec_owner E origin spec = map_option lower_name ?nm" using q by (simp add: spec_owner_def)
    have dec: "declared E origin ttl (specs @ [spec]) k u = declared E origin ttl specs k u @
        (if spec_owner E origin spec = Some k \<and> u = t then map (Pair (unwrap_or ttl (spec_ttl spec))) rd else [])" for k u
      using ty sr by (auto simp: declared_def)
    show ?thesis
    proof (cases ?nm)
      case None
      then have "b_nodes b' = b_nodes b" using 1(5) by (auto simp: spec_wild_def Let_def)
      then show ?thesis using b' keys recs own None dec wild seen by (auto simp: holds_def wild_owner_snoc)
    next
      case (Some n)
      have es: "b_nodes b' = entry_update (lower_name n) \<lparr>s_name = n, s_wildcard = spec_wild spec, s_rrsets = []\<rparr>
          (\<lambda>nd. nd\<lparr>s_rrsets := add_run t (unwrap_or ttl (spec_ttl spec)) rd (s_rrsets nd)\<rparr>) (b_nodes b)"
        using 1(5) Some b(3) E by (auto simp: spec_wild_def Let_def)
      have "has_key k (b_nodes b') \<longleftrightarrow> k = lower_name n \<or> has_key k (b_nodes b)" for k
        unfolding es by (simp add: has_key_def map_of_entry_update)
      moreover have "runs_at (b_nodes b') k = (if k = lower_name n
          then add_run t (unwrap_or ttl (spec_ttl spec)) rd (runs_at (b_nodes b) k) else runs_at (b_nodes b) k)" for k
        unfolding es by (auto simp: runs_at_def map_of_entry_update split: option.split)
      moreover have "s_wildcard nd = wild_owner E origin (specs @ [spec]) k" if "map_of (b_nodes b') k = Some nd" for k nd
      proof (cases "map_of (b_nodes b) k")
        case None
        then have "\<not> (\<exists>s \<in> set specs. spec_owner E origin s = Some k)" using keys [of k] by (simp add: has_key_def)
        then show ?thesis using that None own Some unfolding es
          by (auto simp: map_of_entry_update wild_owner_snoc split: if_splits)
      next
        case (Some old)
        then have "s_wildcard nd = s_wildcard old" using that unfolding es by (auto simp: map_of_entry_update split: if_splits)
        then show ?thesis using wild [OF Some] seen [OF Some] by (simp add: wild_owner_snoc)
      qed
      ultimately show ?thesis
        using b' keys recs own Some dec by (auto simp: holds_def run_records_add)
    qed
  qed
qed

lemma builder_holds:
  assumes E: "hickory_ok E" and "length origin \<le> 127"
    and "rfold (insert_spec E) specs (builder_new origin (lower_name origin) ttl) = Inr b"
  shows "holds E origin ttl specs b"
proof -
  have "holds E origin ttl (done @ specs) b" if "rfold (insert_spec E) specs c = Inr b" "holds E origin ttl done c"
    for "done" c
    using that
  proof (induction specs arbitrary: "done" c)
    case (Cons s ss)
    from Cons.prems(1) obtain d where d: "insert_spec E s c = Inr d" "rfold (insert_spec E) ss d = Inr b"
      by (auto simp: rbind_eq_Inr)
    from Cons.IH [OF d(2) insert_spec_holds [OF E Cons.prems(2) d(1)]] show ?case by simp
  qed simp
  moreover have "holds E origin ttl [] (builder_new origin (lower_name origin) ttl)"
    using builder_new_ok [OF assms(2), of ttl]
    by (simp add: holds_def has_key_def declared_def run_records_def runs_at_def) (simp add: builder_new_def)
  ultimately show ?thesis using assms(3) by fastforce
qed

section \<open>The built zone holds it\<close>

lemma from_config_Inr:
  assumes E: "hickory_ok E" and "from_config E iter seed cfg = Inr Z"
  obtains origin b sc where "name_from_str E (zc_origin cfg) = Some origin" "length origin \<le> 127"
    "rfold (insert_spec E) (zc_records cfg) (builder_new origin (lower_name origin) (zc_default_ttl cfg)) = Inr b"
    "holds E origin (zc_default_ttl cfg) (zc_records cfg) b" "builder_ok b" "b_lower_origin b = lower_name origin"
    "sc \<noteq> None \<longleftrightarrow> zc_soa cfg \<noteq> None" "finish E iter seed b sc = Inr Z"
proof -
  from assms obtain origin b sc where o: "name_from_str E (zc_origin cfg) = Some origin"
    and r: "rfold (insert_spec E) (zc_records cfg) (builder_new origin (lower_name origin) (zc_default_ttl cfg)) = Inr b"
    and s: "(case zc_soa cfg of Some spec \<Rightarrow> rbind (build_soa E origin spec) (\<lambda>r. Inr (Some r)) | None \<Rightarrow> Inr None) = Inr sc"
    and f: "finish E iter seed b sc = Inr Z"
    by (auto simp: from_config_def parse_name_def rbind_eq_Inr Let_def)
  have len: "length origin \<le> 127" using name_from_str_valid [OF E o] by (simp add: valid_name_def)
  note h = builder_holds [OF E len r]
  then have bo: "builder_ok b" "b_lower_origin b = lower_name origin" by (auto simp: holds_def builder_ok_def)
  have "sc \<noteq> None \<longleftrightarrow> zc_soa cfg \<noteq> None" using s by (auto simp: rbind_eq_Inr split: option.splits)
  then show ?thesis using that o len r h bo f by blast
qed

lemma from_config_built:
  assumes E: "hickory_ok E" and it: "iter_ok iter" and "from_config E iter seed cfg = Inr Z"
  shows "\<exists>lower es order. built E lower es order Z"
  using assms(3) by (rule from_config_Inr [OF E]) (use finish_built [OF E it] in blast)

lemma runs_at_append_implied: "runs_at (es @ map implied_node ks) k = runs_at es k"
proof (cases "map_of es k")
  case None
  have "s_rrsets nd = []" if "map_of (map implied_node ks) k = Some nd" for nd
    using that by (induction ks) (auto simp: implied_node_def split: if_splits)
  with None show ?thesis by (auto simp: runs_at_def map_add_def split: option.split)
qed (simp add: runs_at_def map_add_def split: option.split)

lemma runs_at_with_apex: "runs_at (with_apex b) k = runs_at (b_nodes b) k"
  by (auto simp: with_apex_def runs_at_def has_key_def map_add_def split: option.split)

lemma runs_at_iter:
  assumes "iter_ok iter" and "distinct (map fst es)"
  shows "runs_at (iter es) k = runs_at es k"
proof -
  have d: "distinct (map fst (iter es))" using assms iter_distinct by blast
  have "map_of (iter es) k = Some nd \<longleftrightarrow> map_of es k = Some nd" for nd
    using map_of_eq_Some_iff [OF d] map_of_eq_Some_iff [OF assms(2)] assms(1) by simp
  then have "map_of (iter es) k = map_of es k" by (metis option.exhaust_sel)
  then show ?thesis by (simp add: runs_at_def)
qed

text \<open>The names of the zone: the apex, the declared owners, and everything between.\<close>

lemma closure_names:
  assumes E: "hickory_ok E" and it: "iter_ok iter" and b: "builder_ok b"
  shows "fst ` set (closure_of E iter b) =
    {n. suffix (b_lower_origin b) n \<and> (n = b_lower_origin b \<or> (\<exists>k. has_key k (b_nodes b) \<and> suffix n k))}"
proof -
  let ?lower = "b_lower_origin b" and ?es = "closure_of E iter b"
  note wa = with_apex_ok [OF b]
  have cl: "closed_entries ?lower ?es" by (rule materialise_closed(1) [OF E it wa])
  obtain ks where ks: "?es = with_apex b @ map implied_node ks" "\<forall>k \<in> set ks. \<exists>e \<in> set (with_apex b). suffix k (fst e)"
    using materialise_closed(2) [OF E it wa] by blast
  have wk: "fst ` set (with_apex b) = insert ?lower {k. has_key k (b_nodes b)}"
    by (auto simp: with_apex_def has_key_iff)
  have sufs: "suffix ?lower k" if "k \<in> fst ` set ?es" for k
    using that cl key_facts unfolding closed_entries_def has_key_iff by blast
  have up: "drop j n \<in> fst ` set ?es" if "n \<in> fst ` set ?es" "length ?lower \<le> length n - j" for j n
    using that(2)
  proof (induction j)
    case (Suc j)
    then have IH: "drop j n \<in> fst ` set ?es" by simp
    show ?case
    proof (cases "drop j n = ?lower")
      case True
      then have "length ?lower = length n - j" by (metis length_drop)
      with Suc.prems have "length n \<le> j" by simp
      then show ?thesis using IH by simp
    next
      case False
      then have "has_key (tl (drop j n)) ?es" using cl IH unfolding closed_entries_def parent_present_def by blast
      then show ?thesis by (simp add: has_key_iff drop_Suc tl_drop)
    qed
  qed (use that(1) in simp)
  show ?thesis
  proof (intro set_eqI iffI)
    fix n assume n: "n \<in> fst ` set ?es"
    then consider "n \<in> fst ` set (with_apex b)" | "n \<in> set ks" unfolding ks(1) by (auto simp: implied_node_def)
    then have "\<exists>k \<in> fst ` set (with_apex b). suffix n k"
      by cases (use ks(2) in auto)
    then have "n = ?lower \<or> (\<exists>k. has_key k (b_nodes b) \<and> suffix n k)"
      unfolding wk using sufs [OF n] by (auto dest: suffix_order.antisym)
    with sufs [OF n] show "n \<in> {n. suffix ?lower n \<and> (n = ?lower \<or> (\<exists>k. has_key k (b_nodes b) \<and> suffix n k))}" by simp
  next
    fix n assume "n \<in> {n. suffix ?lower n \<and> (n = ?lower \<or> (\<exists>k. has_key k (b_nodes b) \<and> suffix n k))}"
    then obtain k where k: "suffix ?lower n" "k \<in> fst ` set (with_apex b)" "suffix n k" unfolding wk by auto
    then have "k \<in> fst ` set ?es" unfolding ks(1) by auto
    moreover have "length ?lower \<le> length k - (length k - length n)"
      using suffix_length_le [OF k(1)] suffix_length_le [OF k(3)] by simp
    ultimately show "n \<in> fst ` set ?es" using up [of k "length k - length n"] drop_to_suffix [OF k(3)] by simp
  qed
qed

end
