(* ===== verification/Zone_Theorems.thy ===== *)
theory Zone_Theorems
  imports Zone_Content
begin

text \<open>
  The properties of the zone component. Every theorem speaks about the zone \<open>from_config\<close>
  returns, for any iteration order of the scratch map and any hash seed.
\<close>

section \<open>The asserted invariants hold\<close>

lemma adjacent_all_iff: "adjacent_all p xs \<longleftrightarrow> (\<forall>i. Suc i < length xs \<longrightarrow> p (xs ! i) (xs ! Suc i))"
proof (induction p xs rule: adjacent_all.induct)
  case (1 p a b xs)
  then show ?case by (auto simp: nth_Cons split: nat.split)
qed auto

lemma built_canonical:
  assumes E: "hickory_ok E" and bu: "built E lower es order Z"
  shows "assert_apex E Z" and "assert_canonical_order E Z" and "assert_closed E Z" and "assert_index Z"
    and "assert_window Z"
proof -
  note b = built_facts [OF bu] and on = built_names [OF bu]
  have ok: "names_ok Z" "index_ok Z" using built_zone_ok [OF bu] by (simp_all add: zone_ok_def)
  have nth: "lower_name (node_name (nodes Z ! i)) = ranked es order ! i" if "i < length (nodes Z)" for i
    using nth_owner_names [OF that] on by simp
  show "assert_apex E Z"
    using ok(1) E nth_owner_names [of 0 Z] by (simp add: assert_apex_def list_get_def APEX_def idx_get_def names_ok_def)
  show "assert_index Z" using b(6,8) by (simp add: assert_index_def)
  have "rev (ranked es order ! i) < rev (ranked es order ! Suc i)" if "Suc i < length es" for i
  proof -
    have "canonical_less (ranked es order ! i) (ranked es order ! Suc i)" using b(3) that by (simp add: order_ok_def)
    then show ?thesis
      using nth [of i] nth [of "Suc i"] that b(6) by (metis Suc_lessD canonical_less_def lower_name_idem)
  qed
  then show "assert_canonical_order E Z"
    using E b(6) nth by (auto simp: assert_canonical_order_def adjacent_all_iff lower_less_eq simp del: lower_name_idem)
  have cl: "n = lower_origin Z \<or> tl n \<in> set (owner_names Z)" if "n \<in> set (owner_names Z)" for n
    using ok(1) that unfolding names_ok_def by blast
  have names: "map (\<lambda>nd. lower_from E (node_name nd)) (nodes Z) = owner_names Z"
    using E by (simp add: owner_names_def)
  have low: "lower_name n = n" if "n \<in> set (owner_names Z)" for n using that by (auto simp: owner_names_def)
  have "lower_name (tl n) = tl n" if "n \<in> set (owner_names Z)" for n using low [OF that] by (simp add: lower_name_tl)
  then show "assert_closed E Z"
    unfolding assert_closed_def names Let_def using E cl by (auto simp: list_all_iff)
  have "length (lower_origin Z) \<le> length (node_name nd) \<and> length (node_name nd) \<le> unat (max_depth Z)"
    if "nd \<in> set (nodes Z)" for nd
  proof -
    have "lower_name (node_name nd) \<in> set (owner_names Z)" using that by (simp add: owner_names_def)
    then have "suffix (lower_origin Z) (lower_name (node_name nd))" "length (lower_name (node_name nd)) \<le> unat (max_depth Z)"
      using ok unfolding names_ok_def index_ok_def by blast+
    then show ?thesis using suffix_length_le by fastforce
  qed
  then show "assert_window Z"
    using b(5,9) by (auto simp: assert_window_def label_count_def list_all_iff)
qed

lemma built_assert_rrsets:
  assumes "built E lower es order Z"
  shows "assert_rrsets Z"
  unfolding assert_rrsets_def list_all_iff
proof
  fix nd assume "nd \<in> set (nodes Z)"
  then obtain rs where rs: "span_get (rrsets Z) (node_rrsets nd) = Some rs" "sorted (map rr_type rs)"
    "\<forall>r \<in> set rs. \<exists>vs. span_get (rdatas Z) (rr_rdata r) = Some vs \<and> vs \<noteq> []"
    using built_sets_ok [OF assms] unfolding sets_ok_def by blast
  from rs(2) have "adjacent_all (\<lambda>p q. rr_type p \<le> rr_type q) rs"
    by (auto simp: adjacent_all_iff sorted_iff_nth_Suc)
  moreover have "\<forall>r \<in> set rs. is_some_and (span_get (rdatas Z) (rr_rdata r)) (\<lambda>v. v \<noteq> [])" using rs(3) by fastforce
  ultimately show "is_some_and (span_get (rrsets Z) (node_rrsets nd)) (\<lambda>rs.
     adjacent_all (\<lambda>p q. rr_type p \<le> rr_type q) rs \<and>
     Ball (set rs) (\<lambda>r. is_some_and (span_get (rdatas Z) (rr_rdata r)) (\<lambda>v. v \<noteq> [])))"
    using rs(1) by simp
qed

lemma built_cut_facts:
  assumes bu: "built E lower es order Z" and r: "r < length es"
  shows "is_none_idx (node_cut (nodes Z ! r)) \<longleftrightarrow> rank_cut E es order r = None"
    and "rank_cut E es order r = Some c \<Longrightarrow> node_cut (nodes Z ! r) = of_nat c \<and> c < length es \<and>
      suffix (ranked es order ! c) (ranked es order ! r)"
proof -
  note b = built_facts [OF bu]
  have cut: "node_cut (nodes Z ! r) = enc_cut (rank_cut E es order r)"
    using b(7) [OF r] by (simp add: node_inv_def)
  have bound: "c < length es" if "rank_cut E es order r = Some c" for c
    using rank_cut_bound(1) [OF b(3,2) that] .
  show "is_none_idx (node_cut (nodes Z ! r)) \<longleftrightarrow> rank_cut E es order r = None"
    using cut enc_cut_None bound b(4)
    by (cases "rank_cut E es order r") (auto simp: is_none_idx_def enc_cut_def dest: order.strict_trans)
  assume c: "rank_cut E es order r = Some c"
  from cut_by_Some [OF c] obtain k where "deleg_named E es order (drop k (ranked es order ! r)) = Some c" by blast
  then have "position (drop k (ranked es order ! r)) (ranked es order) = Some c"
    by (auto simp: deleg_named_def split: option.splits if_splits)
  then have "ranked es order ! c = drop k (ranked es order ! r)" using position_Some by fastforce
  then show "node_cut (nodes Z ! r) = of_nat c \<and> c < length es \<and> suffix (ranked es order ! c) (ranked es order ! r)"
    using c cut bound [OF c] by (simp add: enc_cut_def suffix_drop)
qed

lemma built_assert_cuts:
  assumes E: "hickory_ok E" and bu: "built E lower es order Z"
    and refs: "\<And>i. i < length (nodes Z) \<Longrightarrow> flags_contains (node_flags (nodes Z ! i)) DELEGATION \<Longrightarrow>
      referrals Z (of_nat i) \<noteq> None"
  shows "assert_cuts Z" and "assert_cut_above E Z"
proof -
  note b = built_facts [OF bu]
  have idx: "idx_get (of_nat c) = c" if "c < length es" for c
    using that b(4) by (simp add: idx_get_def unat_of_nat)
  have at: "((of_nat c :: u32) = of_nat r) = (c = r)" if "c < length es" "r < length es" for c r
    using that b(4) of_nat_u32_eq [of c r] by simp
  show "assert_cuts Z"
    unfolding assert_cuts_def list_all_iff in_set_enumerate_eq
  proof (clarsimp simp: in_set_enumerate_eq Let_def)
    fix i assume i: "i < length (nodes Z)"
    then have r: "i < length es" using b(6) by simp
    note ni = b(7) [OF r, unfolded node_inv_def] and cf = built_cut_facts [OF bu r]
    show "(bit (node_flags (nodes Z ! i)) (Suc 0) =
            (\<not> is_none_idx (node_cut (nodes Z ! i)) \<and> i < 4294967296 \<and> node_cut (nodes Z ! i) = of_nat i)) \<and>
          (bit (node_flags (nodes Z ! i)) 4 =
            (\<not> is_none_idx (node_cut (nodes Z ! i)) \<and> (i < 4294967296 \<longrightarrow> node_cut (nodes Z ! i) \<noteq> of_nat i))) \<and>
          (bit (node_flags (nodes Z ! i)) (Suc 0) \<longrightarrow> i < 4294967296 \<and> (\<exists>y. referrals Z (of_nat i) = Some y)) \<and>
          (is_none_idx (node_cut (nodes Z ! i)) \<or> idx_get (node_cut (nodes Z ! i)) < length (nodes Z))"
    proof (cases "rank_cut E es order i")
      case None
      then show ?thesis using ni cf(1) by simp
    next
      case (Some c)
      then show ?thesis
        using ni cf(1) cf(2) [OF Some] at [of c i] idx [of c] r b(4,6) refs [OF i] by auto
    qed
  qed
  show "assert_cut_above E Z"
    unfolding assert_cut_above_def list_all_iff
  proof
    fix nd assume "nd \<in> set (nodes Z)"
    then obtain i where i: "i < length es" "nd = nodes Z ! i" using b(6) by (metis in_set_conv_nth)
    have nth: "lower_name (node_name (nodes Z ! j)) = ranked es order ! j" if "j < length es" for j
      using nth_owner_names [of j Z] built_names [OF bu] that b(6) by simp
    show "is_none_idx (node_cut nd) \<or> is_some_and (list_get (nodes Z) (idx_get (node_cut nd)))
        (\<lambda>c. zone_of E (lower_from E (node_name c)) (lower_from E (node_name nd)))"
    proof (cases "rank_cut E es order i")
      case None
      then show ?thesis using built_cut_facts(1) [OF bu i(1)] i(2) by simp
    next
      case (Some c)
      from built_cut_facts(2) [OF bu i(1) Some] have c: "node_cut nd = of_nat c" "c < length es"
        "suffix (lower_name (node_name (nodes Z ! c))) (lower_name (node_name nd))" using i nth by simp_all
      from c(3) have "zone_of E (lower_name (node_name (nodes Z ! c))) (lower_name (node_name nd))"
        by (simp only: zone_of_eq [OF E is_lower_lower_name is_lower_lower_name])
      then show ?thesis using c(1,2) idx [of c] b(6) by (simp add: list_get_def E)
    qed
  qed
qed

lemma from_config_invariants:
  assumes E: "hickory_ok E" and it: "iter_ok iter" and "from_config E iter seed cfg = Inr Z"
  shows "debug_assert_invariants E Z"
  using assms(3)
proof (rule from_config_Inr [OF E])
  fix origin b sc
  assume bo: "builder_ok b" and fin: "finish E iter seed b sc = Inr Z"
  from finish_built [OF E it bo fin] obtain order where
    bu: "built E (b_lower_origin b) (iter (closure_of E iter b)) order Z" by blast
  have refs: "referrals Z (of_nat i) \<noteq> None"
    if "i < length (nodes Z)" "flags_contains (node_flags (nodes Z ! i)) DELEGATION" for i
    using finish_referrals [OF E it bo fin that] by simp
  show ?thesis
    unfolding debug_assert_invariants_def
    using built_canonical [OF E bu] built_assert_rrsets [OF bu] built_assert_cuts [OF E bu refs] by blast
qed

section \<open>Authoritative data\<close>

lemma lays_records:
  assumes "lays rd runs rs"
  shows "concat (map (\<lambda>r. map (from_rdata ow (rr_ttl r)) (unwrap_or [] (span_get rd (rr_rdata r))))
      (filter (\<lambda>r. rr_type r = t) rs)) = map (\<lambda>(ttl, v). from_rdata ow ttl v) (run_records t runs)"
  using assms unfolding lays_def
proof (induction rs runs rule: list_all2_induct)
  case (Cons x xs y ys)
  then show ?case
    using run_records_append [of t "[y]" ys] by (simp add: run_records_single comp_def)
qed (simp add: run_records_def)

lemma run_records_sort: "run_records t (sort_key s_type runs) = run_records t runs"
  by (simp add: run_records_def sort_key_stable)

lemma rank_runs_at:
  assumes "order_ok lower es order" and "entries_ok lower es" and "r < length es"
  shows "runs_at es (ranked es order ! r) = s_rrsets (snd (es ! (order ! r)))"
proof -
  have p: "order ! r < length es" using order_facts [OF assms(1)] assms(3) by (metis atLeastLessThan_iff nth_mem)
  have "ranked es order ! r = fst (es ! (order ! r))" using assms(3) order_facts(1) [OF assms(1)] by (simp add: ranked_def)
  moreover have "map_of es (fst (es ! (order ! r))) = Some (snd (es ! (order ! r)))"
    using assms(2) nth_mem [OF p] by (simp add: entries_ok_def)
  ultimately show ?thesis by (simp add: runs_at_def)
qed

lemma built_kept_records:
  assumes bu: "built E lower es order Z" and i: "i < length es"
  shows "records_at Z (nodes Z ! i) t ow = map (\<lambda>(ttl, v). from_rdata ow ttl v) (run_records t (kept_runs E es order i))"
proof -
  from built_facts(7) [OF bu i] obtain rs where rs: "span_get (rrsets Z) (node_rrsets (nodes Z ! i)) = Some rs"
    "lays (rdatas Z) (kept_runs E es order i) rs" unfolding node_inv_def by blast
  then show ?thesis
    using lays_records [OF rs(2), of ow t] by (simp add: records_at_def sets_at_def values_of_def)
qed

lemma built_records:
  assumes bu: "built E lower es order Z" and i: "i < length es" and none: "rank_cut E es order i = None"
  shows "records_at Z (nodes Z ! i) t ow = map (\<lambda>(ttl, v). from_rdata ow ttl v)
    (run_records t (runs_at es (ranked es order ! i)))"
  using built_kept_records [OF bu i] none rank_runs_at [OF built_facts(3,2) [OF bu] i] by (simp add: kept_runs_def run_records_sort)

section \<open>What is refused\<close>

lemma check_run_frame:
  "c_findings (check_run ow ap w seen run c) = c_findings c @ (if s_type run \<in> set seen then [TwoTtls ow (s_type run)] else [])
     @ (if s_type run = RT_SOA \<and> \<not> ap then [SoaNotApex ow] else [])
     @ (if s_type run = RT_NS \<and> \<not> ap \<and> w then [WildcardNs ow] else [])"
  "c_apex_soa (check_run ow ap w seen run c) = c_apex_soa c + (if s_type run = RT_SOA \<and> ap then length (s_rdata run) else 0)"
  "c_apex_ns (check_run ow ap w seen run c) \<longleftrightarrow> c_apex_ns c \<or> s_type run = RT_NS \<and> ap"
  by (auto simp: check_run_def Let_def)

definition soa_values :: "scratch_rrset list \<Rightarrow> nat" where
  "soa_values rs = sum_list (map (\<lambda>r. length (s_rdata r)) (filter (\<lambda>r. s_type r = RT_SOA) rs))"

lemma check_runs_frame:
  "c_findings (check_runs ow ap w seen rs c) = [] \<longleftrightarrow> c_findings c = [] \<and> distinct (map s_type rs) \<and>
     set (map s_type rs) \<inter> set seen = {} \<and> (\<not> ap \<longrightarrow> RT_SOA \<notin> set (map s_type rs)) \<and>
     (\<not> ap \<longrightarrow> w \<longrightarrow> RT_NS \<notin> set (map s_type rs))"
  "c_apex_soa (check_runs ow ap w seen rs c) = c_apex_soa c + (if ap then soa_values rs else 0)"
  "c_apex_ns (check_runs ow ap w seen rs c) \<longleftrightarrow> c_apex_ns c \<or> ap \<and> RT_NS \<in> set (map s_type rs)"
  by (induction rs arbitrary: seen c) (auto simp: check_run_frame soa_values_def)

text \<open>What RFC 1034 and RFC 2181 ask of one owner name.\<close>

definition owner_servable :: "name \<Rightarrow> entry \<Rightarrow> bool" where
  "owner_servable lower e \<longleftrightarrow> (let rs = s_rrsets (snd e) in distinct (map s_type rs) \<and>
     (fst e \<noteq> lower \<longrightarrow> RT_SOA \<notin> set (map s_type rs)) \<and>
     (fst e \<noteq> lower \<longrightarrow> s_wildcard (snd e) \<longrightarrow> RT_NS \<notin> set (map s_type rs)) \<and>
     cname_count rs \<le> 1 \<and> (0 < cname_count rs \<longrightarrow> length rs = 1))"

lemma check_node_frame:
  "c_findings (check_node lower e c) = [] \<longleftrightarrow> c_findings c = [] \<and> owner_servable lower e"
  "c_apex_soa (check_node lower e c) = c_apex_soa c + (if fst e = lower then soa_values (s_rrsets (snd e)) else 0)"
  "c_apex_ns (check_node lower e c) \<longleftrightarrow> c_apex_ns c \<or> fst e = lower \<and> RT_NS \<in> set (map s_type (s_rrsets (snd e)))"
proof -
  have len: "0 < cname_count rs \<Longrightarrow> 1 \<le> length rs" for rs by (cases rs) (auto simp: cname_count_def)
  show "c_findings (check_node lower e c) = [] \<longleftrightarrow> c_findings c = [] \<and> owner_servable lower e"
    using len [of "s_rrsets (snd e)"]
    by (auto simp: check_node_def check_cnames_def Let_def check_runs_frame owner_servable_def not_less
        simp del: set_map)
  show "c_apex_soa (check_node lower e c) = c_apex_soa c + (if fst e = lower then soa_values (s_rrsets (snd e)) else 0)"
    "c_apex_ns (check_node lower e c) \<longleftrightarrow> c_apex_ns c \<or> fst e = lower \<and> RT_NS \<in> set (map s_type (s_rrsets (snd e)))"
    by (simp_all add: check_node_def check_cnames_def Let_def check_runs_frame)
qed

lemma check_fold:
  "c_findings (fold (check_node lower) es c) = [] \<longleftrightarrow> c_findings c = [] \<and> (\<forall>e \<in> set es. owner_servable lower e)"
  "distinct (map fst es) \<Longrightarrow> c_apex_soa (fold (check_node lower) es c) = c_apex_soa c + soa_values (runs_at es lower)"
  "distinct (map fst es) \<Longrightarrow> c_apex_ns (fold (check_node lower) es c) \<longleftrightarrow>
     c_apex_ns c \<or> RT_NS \<in> set (map s_type (runs_at es lower))"
  by (induction es arbitrary: c)
    (auto simp: check_node_frame runs_at_def soa_values_def map_of_eq_None_iff
      split: option.splits dest: map_of_SomeD intro: rev_image_eqI)

lemma check_findings_Nil:
  assumes "distinct (map fst es)"
  shows "check_findings lower sic es = [] \<longleftrightarrow> (\<forall>e \<in> set es. owner_servable lower e) \<and>
     soa_values (runs_at es lower) = (if sic then 0 else 1) \<and> RT_NS \<in> set (map s_type (runs_at es lower))"
  using check_fold(2,3) [OF assms] assms
  by (auto simp: check_findings_def Let_def check_fold)

section \<open>A concrete zone\<close>

text \<open>A zone with a wildcard, the empty non-terminal above it, and a delegation with glue.\<close>

definition demo_spec :: "string \<Rightarrow> string \<Rightarrow> string \<Rightarrow> record_spec" where
  "demo_spec n t v = \<lparr>spec_name = n, spec_type = t, spec_ttl = None, spec_values = [v]\<rparr>"

definition demo_zone_config :: zone_config where
  "demo_zone_config = \<lparr>zc_origin = ''ex'', zc_default_ttl = 60, zc_builtins = False,
     zc_soa = Some \<lparr>mname = ''ns.ex'', rname = ''h.ex'', serial = 1, refresh = 3600, retry_secs = 900,
       expire = 604800, minimum = 60\<rparr>,
     zc_records = [demo_spec ''@'' ''NS'' ''ns.ex'', demo_spec ''*.w'' ''A'' ''192.0.2.1'',
       demo_spec ''sub'' ''NS'' ''g.sub.ex'', demo_spec ''g.sub'' ''A'' ''192.0.2.1'']\<rparr>"

definition demo_zone :: zone where
  "demo_zone = projr (from_config demo_hickory (\<lambda>es. es) 7 demo_zone_config)"

lemma demo_zone_builds: "from_config demo_hickory (\<lambda>es. es) 7 demo_zone_config = Inr demo_zone"
proof -
  have "\<not> isl (from_config demo_hickory (\<lambda>es. es) 7 demo_zone_config)" by code_simp
  then show ?thesis by (cases "from_config demo_hickory (\<lambda>es. es) 7 demo_zone_config") (simp_all add: demo_zone_def)
qed

lemma iter_id: "iter_ok (\<lambda>es. es)"
  by (simp add: iter_ok_def)

lemmas demo_zone_facts = demo_hickory_ok iter_id demo_zone_builds

lemma demo_names: "is_lower [octets ''x'', octets ''w'', octets ''ex'']" "is_lower [octets ''q'', octets ''sub'', octets ''ex'']"
  by code_simp+

section \<open>Properties\<close>

text \<open>C1: every lookup on a zone built from a configuration, for every name and every type, is the
  lookup of the RFC 1034 4.3.2 reference algorithm: the hash index, the label-wise confirmation,
  the bisection for the closest encloser and the precomputed cuts change no answer, whatever the
  hash seed and the iteration order of the build.\<close>

theorem lookup_is_reference:
  assumes "hickory_ok E" and "iter_ok iter" and "from_config E iter seed cfg = Inr Z"
    and "is_lower n" and "length n \<le> 127"
  shows "lookup E Z n t = spec_lookup Z n t"
proof -
  from from_config_built [OF assms(1-3)] obtain lower es order where "built E lower es order Z" by blast
  then show ?thesis using lookup_refines [OF assms(1) built_zone_ok built_targets_ok assms(4,5)] by blast
qed

theorem lookup_is_reference_witness:
  "lookup demo_hickory demo_zone [octets ''x'', octets ''w'', octets ''ex''] RT_A =
     spec_lookup demo_zone [octets ''x'', octets ''w'', octets ''ex''] RT_A"
  by (rule lookup_is_reference [OF demo_zone_facts demo_names(1)]) simp

text \<open>C2: a zone that builds satisfies every structural invariant the sources assert in debug
  builds (apex first, strict canonical order, closure under ancestry, a complete index, sorted
  and non-empty RRsets, the depth window, consistent cuts with their referrals), and never hands
  out the sentinel index.\<close>

theorem built_zone_invariants:
  assumes "hickory_ok E" and "iter_ok iter" and "from_config E iter seed cfg = Inr Z"
  shows "debug_assert_invariants E Z \<and> (\<forall>i < length (nodes Z). of_nat i \<noteq> NONE_IDX)"
proof -
  from from_config_built [OF assms] obtain lower es order where bu: "built E lower es order Z" by blast
  have "(of_nat i :: u32) \<noteq> NONE_IDX" if "i < length (nodes Z)" for i
    using enc_cut_None [of i] that built_facts(4,6) [OF bu] by (simp add: enc_cut_def)
  then show ?thesis using from_config_invariants [OF assms] by blast
qed

theorem built_zone_invariants_witness:
  "debug_assert_invariants demo_hickory demo_zone"
  using built_zone_invariants [OF demo_zone_facts] by blast

lemma from_config_names:
  assumes "hickory_ok E" and "iter_ok iter" and "from_config E iter seed cfg = Inr Z"
    and "name_from_str E (zc_origin cfg) = Some origin"
  shows "set (owner_names Z) = {n. suffix (lower_name origin) n \<and> (n = lower_name origin \<or>
    (\<exists>s \<in> set (zc_records cfg). \<exists>k. spec_owner E origin s = Some k \<and> suffix n k))}"
  using assms(3)
proof (rule from_config_Inr [OF assms(1)])
  fix o' b sc
  assume o: "name_from_str E (zc_origin cfg) = Some o'" and h: "holds E o' (zc_default_ttl cfg) (zc_records cfg) b"
    and bo: "builder_ok b" "b_lower_origin b = lower_name o'" and fin: "finish E iter seed b sc = Inr Z"
  from finish_built [OF assms(1,2) bo(1) fin] obtain order where
    bu: "built E (b_lower_origin b) (iter (closure_of E iter b)) order Z" by blast
  have "set (owner_names Z) = fst ` set (closure_of E iter b)"
    using built_names [OF bu] ranked_facts(2) [OF built_facts(3,2) [OF bu]] assms(2) by simp
  moreover have "o' = origin" using o assms(4) by simp
  ultimately show ?thesis
    using closure_names [OF assms(1,2) bo(1)] bo(2) h by (auto simp: holds_def)
qed

text \<open>C3: the names of the zone are the apex, the owner of every configured record set, and every
  name between an owner and the apex, and no other.\<close>

theorem zone_names_exact:
  assumes "hickory_ok E" and "iter_ok iter" and "from_config E iter seed cfg = Inr Z"
    and "name_from_str E (zc_origin cfg) = Some origin"
  shows "set (owner_names Z) = {n. suffix (lower_name origin) n \<and> (n = lower_name origin \<or>
    (\<exists>s \<in> set (zc_records cfg). \<exists>k. spec_owner E origin s = Some k \<and> suffix n k))}"
  by (rule from_config_names [OF assms])

lemma demo_origin: "name_from_str demo_hickory (zc_origin demo_zone_config) = Some [octets ''ex'']"
  by (simp add: demo_hickory_def demo_zone_config_def demo_name_def)

theorem zone_names_exact_witness:
  "[octets ''ex''] \<in> set (owner_names demo_zone) \<and> [octets ''y'', octets ''ex''] \<notin> set (owner_names demo_zone)"
proof -
  note names = zone_names_exact [OF demo_zone_facts demo_origin]
  have low: "lower_name [octets ''ex''] = [octets ''ex'']" by code_simp
  have "list_all (\<lambda>s. \<not> is_some_and (spec_owner demo_hickory [octets ''ex''] s)
      (\<lambda>k. suffix [octets ''y'', octets ''ex''] k)) (zc_records demo_zone_config)" by code_simp
  then have "\<not> (\<exists>s \<in> set (zc_records demo_zone_config). \<exists>k.
      spec_owner demo_hickory [octets ''ex''] s = Some k \<and> suffix [octets ''y'', octets ''ex''] k)"
    by (auto simp: list_all_iff)
  then show ?thesis using low unfolding names by auto
qed

text \<open>The scratch map after the closure, seen from the configuration.\<close>

lemma closure_records:
  assumes E: "hickory_ok E" and it: "iter_ok iter" and h: "holds E origin ttl specs b"
  shows "run_records t (runs_at (iter (closure_of E iter b)) k) = declared E origin ttl specs k t"
proof -
  have bo: "builder_ok b" using h by (simp add: holds_def)
  note wa = with_apex_ok [OF bo]
  have "closed_entries (b_lower_origin b) (closure_of E iter b)" by (rule materialise_closed(1) [OF E it wa])
  then have "runs_at (iter (closure_of E iter b)) k = runs_at (closure_of E iter b) k"
    by (intro runs_at_iter [OF it]) (simp add: closed_entries_def entries_ok_def)
  moreover obtain ks where "closure_of E iter b = with_apex b @ map implied_node ks"
    using materialise_closed(2) [OF E it wa] by blast
  ultimately have "runs_at (iter (closure_of E iter b)) k = runs_at (b_nodes b) k"
    by (simp add: runs_at_append_implied runs_at_with_apex)
  then show ?thesis using h by (simp add: holds_def)
qed

lemma closure_wild:
  assumes E: "hickory_ok E" and it: "iter_ok iter" and h: "holds E origin ttl specs b"
    and nd: "map_of (iter (closure_of E iter b)) k = Some nd" "s_rrsets nd \<noteq> []"
  shows "s_wildcard nd = wild_owner E origin specs k"
proof -
  have bo: "builder_ok b" using h by (simp add: holds_def)
  note wa = with_apex_ok [OF bo]
  have "closed_entries (b_lower_origin b) (closure_of E iter b)" by (rule materialise_closed(1) [OF E it wa])
  then have "distinct (map fst (closure_of E iter b))" by (simp add: closed_entries_def entries_ok_def)
  moreover have "(k, nd) \<in> set (closure_of E iter b)" using map_of_SomeD [OF nd(1)] iter_set [OF it] by simp
  ultimately have m: "map_of (closure_of E iter b) k = Some nd" by simp
  obtain ks where ks: "closure_of E iter b = with_apex b @ map implied_node ks" using materialise_closed(2) [OF E it wa] by blast
  have "map_of (b_nodes b) k = Some nd"
  proof (cases "map_of (b_nodes b) k")
    case None
    have "s_rrsets x = []" if "map_of (map implied_node ks) k = Some x" for x
      using that by (induction ks) (auto simp: implied_node_def split: if_splits)
    then have "s_rrsets nd = []" using m None unfolding ks
      by (auto simp: with_apex_def map_add_def split: if_splits option.splits)
    then show ?thesis using nd(2) by simp
  next
    case (Some x)
    then show ?thesis using m unfolding ks by (auto simp: with_apex_def map_add_def has_key_def split: if_splits option.splits)
  qed
  then show ?thesis using h by (simp add: holds_def)
qed

text \<open>All a property needs to know of a zone that was built: its configuration side and its arena side.\<close>

lemma from_config_view:
  assumes E: "hickory_ok E" and it: "iter_ok iter" and f: "from_config E iter seed cfg = Inr Z"
    and o: "name_from_str E (zc_origin cfg) = Some origin"
  obtains es order where "built E (lower_name origin) es order Z"
    "\<And>k t. run_records t (runs_at es k) = declared E origin (zc_default_ttl cfg) (zc_records cfg) k t"
    "check_findings (lower_name origin) (zc_soa cfg \<noteq> None) es = []"
    "\<And>i. i < length (nodes Z) \<Longrightarrow> flags_contains (node_flags (nodes Z ! i)) DELEGATION \<Longrightarrow>
       referrals Z (of_nat i) = Some (spec_referral Z (nodes Z ! i))"
    "\<And>k nd. map_of es k = Some nd \<Longrightarrow> s_rrsets nd \<noteq> [] \<Longrightarrow> s_wildcard nd = wild_owner E origin (zc_records cfg) k"
  using f
proof (rule from_config_Inr [OF E])
  fix o' b sc
  assume o': "name_from_str E (zc_origin cfg) = Some o'" and h: "holds E o' (zc_default_ttl cfg) (zc_records cfg) b"
    and bo: "builder_ok b" "b_lower_origin b = lower_name o'" and sc: "sc \<noteq> None \<longleftrightarrow> zc_soa cfg \<noteq> None"
    and fin: "finish E iter seed b sc = Inr Z"
  have oo: "o' = origin" using o o' by simp
  obtain order where bu: "built E (b_lower_origin b) (iter (closure_of E iter b)) order Z"
    using finish_built [OF E it bo(1) fin] by blast
  have ch: "check_findings (b_lower_origin b) (sc \<noteq> None) (iter (closure_of E iter b)) = []"
    using fin by (rule finish_Inr)
  show ?thesis
    using that [of "iter (closure_of E iter b)" order] bu ch sc bo(2) oo closure_records [OF E it h]
      finish_referrals [OF E it bo(1) fin] closure_wild [OF E it h] by simp
qed

text \<open>C4: at a name with no zone cut at or above it, the zone holds for each type exactly the
  values the configuration declares for that owner and type, in the order it declares them and
  with their TTLs: nothing is lost, added, reordered or moved to another owner.\<close>

theorem zone_records_exact:
  assumes "hickory_ok E" and "iter_ok iter" and "from_config E iter seed cfg = Inr Z"
    and "name_from_str E (zc_origin cfg) = Some origin"
    and "node_named Z n = Some i" and "governing_cut Z n = None"
  shows "records_at Z (nodes Z ! i) t ow = map (\<lambda>(ttl, v). from_rdata ow ttl v)
    (declared E origin (zc_default_ttl cfg) (zc_records cfg) n t)"
proof (rule from_config_view [OF assms(1-4)])
  fix es order
  assume bu: "built E (lower_name origin) es order Z"
    and rec: "\<And>k t. run_records t (runs_at es k) = declared E origin (zc_default_ttl cfg) (zc_records cfg) k t"
  have i: "i < length es" and n: "ranked es order ! i = n"
    using node_named_Some [OF assms(5)] built_names [OF bu] built_facts(6) [OF bu] nth_owner_names [of i Z] by auto
  have "rank_cut E es order i = None" using assms(6) built_governing_cut [OF bu] n by simp
  then show ?thesis using built_records [OF bu i] rec n by simp
qed

lemma demo_lower: "lower_name [octets ''ex''] = [octets ''ex'']" "lower_name [octets ''sub'', octets ''ex''] = [octets ''sub'', octets ''ex'']"
  by code_simp+

lemma demo_built:
  obtains es order where "built demo_hickory [octets ''ex''] es order demo_zone"
  using from_config_view [OF demo_zone_facts demo_origin] unfolding demo_lower by metis

lemma demo_apex_named: "node_named demo_zone [octets ''ex''] = Some 0"
proof -
  obtain es order where "built demo_hickory [octets ''ex''] es order demo_zone" by (rule demo_built)
  then show ?thesis using origin_named [OF built_names_ok] built_facts(5) by metis
qed

lemma demo_apex_uncut: "governing_cut demo_zone [octets ''ex''] = None"
proof -
  obtain es order where bu: "built demo_hickory [octets ''ex''] es order demo_zone" by (rule demo_built)
  note b = built_facts [OF bu]
  have "es \<noteq> []" using b(1) by (auto simp: closed_entries_def has_key_iff)
  then have "cut_by (deleg_named demo_hickory es order) (ranked es order ! 0) = None"
    by (intro cut_by_origin [OF b(3,2)]) simp
  moreover have "ranked es order ! 0 = [octets ''ex'']" using b(3) by (simp add: order_ok_def)
  ultimately show ?thesis using built_governing_cut [OF bu] by simp
qed

theorem zone_records_exact_witness:
  "records_at demo_zone (nodes demo_zone ! 0) RT_NS [] = [from_rdata [] 60 (RD_NS [octets ''ns'', octets ''ex''])]"
proof -
  have "map (\<lambda>(ttl, v). from_rdata [] ttl v) (declared demo_hickory [octets ''ex'']
      (zc_default_ttl demo_zone_config) (zc_records demo_zone_config) [octets ''ex''] RT_NS) =
      [from_rdata [] 60 (RD_NS [octets ''ns'', octets ''ex''])]" by code_simp
  then show ?thesis
    using zone_records_exact [OF demo_zone_facts demo_origin demo_apex_named demo_apex_uncut, of RT_NS "[]"] by simp
qed

section \<open>Delegations\<close>

lemma run_records_type: "run_records t rs \<noteq> [] \<Longrightarrow> t \<in> set (map s_type rs)"
  by (induction rs) (auto simp: run_records_def split: if_splits)

lemma ns_targets_iff: "ns_targets E nd \<noteq> None \<longleftrightarrow> RT_NS \<in> set (map s_type (s_rrsets nd))"
  by (auto simp: ns_targets_def Let_def filter_empty_conv)

lemma cut_records:
  assumes bu: "built E lower es order Z" and i: "i < length es" and own: "rank_cut E es order i = Some i"
  shows "records_at Z (nodes Z ! i) RT_NS ow = map (\<lambda>(ttl, v). from_rdata ow ttl v)
    (run_records RT_NS (runs_at es (ranked es order ! i)))"
proof -
  let ?runs = "sort_key s_type (s_rrsets (snd (es ! (order ! i))))"
  have "kept_runs E es order i = filter (keep_run True (ranked es order ! i \<in> set (targets_at E es order i))) ?runs"
    using own by (simp add: kept_runs_def)
  then have "run_records RT_NS (kept_runs E es order i) = run_records RT_NS ?runs"
    by (simp add: run_records_def keep_run_def conj_commute cong: conj_cong)
  then show ?thesis
    using built_kept_records [OF bu i] rank_runs_at [OF built_facts(3,2) [OF bu] i] by (simp add: run_records_sort)
qed

lemma declared_cut:
  assumes bu: "built E (lower_name origin) es order Z"
    and rec: "\<And>k t. run_records t (runs_at es k) = declared E origin ttl specs k t"
    and c: "declared E origin ttl specs c RT_NS \<noteq> []" "c \<noteq> lower_name origin"
  obtains i where "i < length es" "ranked es order ! i = c" "rank_cut E es order i = Some i"
    "node_named Z c = Some i" "governing_cut Z c = Some i"
proof -
  note b = built_facts [OF bu]
  have ty: "RT_NS \<in> set (map s_type (runs_at es c))" using c(1) rec run_records_type by metis
  then have "map_of es c \<noteq> None" by (cases "map_of es c") (simp_all add: runs_at_def)
  then have "c \<in> fst ` set es" by (simp add: map_of_eq_None_iff)
  then obtain i where i: "i < length es" "ranked es order ! i = c"
    using ranked_facts [OF b(3,2)] by (metis in_set_conv_nth)
  have "i \<noteq> 0" using i(2) c(2) b(3) by (metis order_ok_def)
  moreover have "ns_targets E (snd (es ! (order ! i))) \<noteq> None"
    using ty rank_runs_at [OF b(3,2) i(1)] i(2) ns_targets_iff by metis
  ultimately have "deleg_rank E es order i" by (simp add: deleg_rank_def)
  then have own: "rank_cut E es order i = Some i" using deleg_iff_cut [OF b(3,2) i(1)] by blast
  moreover have "node_named Z c = Some i"
    using i position_nth [of "ranked es order" i] ranked_facts [OF b(3,2)] built_names [OF bu] by (simp add: node_named_def)
  ultimately show ?thesis using that i built_governing_cut [OF bu] by simp
qed

text \<open>At a name that declares NS records and is not the apex, whatever lies above it, the zone answers with a referral
  to the declared name servers. A delegation below another one is therefore served, although the comment on
  \<^verbatim>\<open>apply_cut\<close> counts its NS set among what is occluded there.\<close>

lemma cut_referral_records:
  assumes E: "hickory_ok E" and bu: "built E (lower_name origin) es order Z"
    and rec: "\<And>k t. run_records t (runs_at es k) = declared E origin ttl specs k t"
    and refs: "\<And>i. i < length (nodes Z) \<Longrightarrow> flags_contains (node_flags (nodes Z ! i)) DELEGATION \<Longrightarrow>
       referrals Z (of_nat i) = Some (spec_referral Z (nodes Z ! i))"
    and c: "i < length es" "ranked es order ! i = c" "rank_cut E es order i = Some i" "node_named Z c = Some i"
    and n: "governing_cut Z n = Some i" "suffix (lower_origin Z) n" "is_lower n" "length n \<le> 127"
  shows "\<exists>ow add. lookup E Z n t = Referral [] (map (\<lambda>(ttl, v). from_rdata ow ttl v) (declared E origin ttl specs c RT_NS)) add \<and>
    lower_name ow = c \<and> \<not> is_authoritative (lookup E Z n t)"
proof -
  note b = built_facts [OF bu]
  have "flags_contains (node_flags (nodes Z ! i)) DELEGATION" using b(7) [OF c(1)] c(3) by (simp add: node_inv_def)
  then have r: "referrals Z (of_nat i) = Some (spec_referral Z (nodes Z ! i))" using refs c(1) b(6) by simp
  have "spec_resolve Z n t 0 [] = (Res_Referral (of_nat i), [])"
    using n(1,2) by (subst spec_resolve.simps) simp
  then have "lookup E Z n t = Referral [] (records_at Z (nodes Z ! i) RT_NS (node_name (nodes Z ! i)))
      (ref_additional (spec_referral Z (nodes Z ! i)))"
    using lookup_refines [OF E built_zone_ok [OF bu] built_targets_ok [OF bu] n(3,4), of t] r
    by (simp add: spec_lookup_def) (simp add: spec_referral_def)
  moreover have "lower_name (node_name (nodes Z ! i)) = c" using node_named_Some [OF c(4)] by simp
  ultimately show ?thesis
    using cut_records [OF bu c(1,3)] rec c(2) by (auto simp: is_authoritative_def)
qed

lemma declared_name_facts:
  assumes bu: "built E (lower_name origin) es order Z" and "i < length es" "ranked es order ! i = c"
  shows "is_lower c" "length c \<le> 127" "suffix (lower_origin Z) c"
  using entry_key_facts [OF built_facts(2) [OF bu], of c] ranked_facts [OF built_facts(3,2) [OF bu]] assms(2,3) built_facts(5) [OF bu] nth_mem
  by (fastforce simp: is_lower_def)+

lemma nested_delegation_served:
  assumes "hickory_ok E" and "iter_ok iter" and "from_config E iter seed cfg = Inr Z"
    and "name_from_str E (zc_origin cfg) = Some origin"
    and "declared E origin (zc_default_ttl cfg) (zc_records cfg) c RT_NS \<noteq> []" and "c \<noteq> lower_name origin"
  shows "\<exists>ow add. lookup E Z c t = Referral [] (map (\<lambda>(ttl, v). from_rdata ow ttl v)
      (declared E origin (zc_default_ttl cfg) (zc_records cfg) c RT_NS)) add \<and> lower_name ow = c \<and>
    \<not> is_authoritative (lookup E Z c t)"
proof (rule from_config_view [OF assms(1-4)])
  fix es order
  assume bu: "built E (lower_name origin) es order Z"
    and rec: "\<And>k t. run_records t (runs_at es k) = declared E origin (zc_default_ttl cfg) (zc_records cfg) k t"
    and refs: "\<And>i. i < length (nodes Z) \<Longrightarrow> flags_contains (node_flags (nodes Z ! i)) DELEGATION \<Longrightarrow>
       referrals Z (of_nat i) = Some (spec_referral Z (nodes Z ! i))"
  obtain i where i: "i < length es" "ranked es order ! i = c" "rank_cut E es order i = Some i"
    "node_named Z c = Some i" "governing_cut Z c = Some i" by (rule declared_cut [OF bu rec assms(5,6)])
  note low = declared_name_facts [OF bu i(1,2)]
  show ?thesis by (rule cut_referral_records [OF assms(1) bu rec refs i low(3,1,2)])
qed

lemma ns_present:
  assumes "runs_ok rs" and "RT_NS \<in> set (map s_type rs)"
  shows "run_records RT_NS rs \<noteq> []"
proof -
  from assms(2) obtain r where "r \<in> set rs" "s_type r = RT_NS" by auto
  then show ?thesis using assms(1) by (auto simp: run_records_def runs_ok_def)
qed

lemma runs_at_ok:
  assumes "built E lower es order Z"
  shows "runs_ok (runs_at es k)"
  using built_facts(2) [OF assms]
  by (cases "map_of es k") (auto simp: runs_at_def runs_ok_def [of "[]"] entries_ok_def entry_ok_def dest!: map_of_SomeD)

text \<open>The names that cut the zone are those that declare NS records, the apex apart.\<close>

lemma deleg_named_declares:
  assumes bu: "built E (lower_name origin) es order Z"
    and rec: "\<And>k t. run_records t (runs_at es k) = declared E origin ttl specs k t"
    and d: "deleg_named E es order p = Some r"
  shows "declared E origin ttl specs p RT_NS \<noteq> []" and "p \<noteq> lower_name origin"
proof -
  note b = built_facts [OF bu]
  from d have pos: "position p (ranked es order) = Some r" and dr: "deleg_rank E es order r"
    by (auto simp: deleg_named_def split: option.splits if_splits)
  have r: "r < length (ranked es order)" "ranked es order ! r = p" using position_Some [OF pos] by simp_all
  have len: "r < length es" using r(1) ranked_facts [OF b(3,2)] by simp
  have "RT_NS \<in> set (map s_type (runs_at es p))"
    using dr ns_targets_iff rank_runs_at [OF b(3,2) len] r(2) by (metis deleg_rank_def)
  then show "declared E origin ttl specs p RT_NS \<noteq> []"
    using ns_present [OF runs_at_ok [OF bu]] rec by metis
  have "ranked es order ! 0 = lower_name origin" using b(3) by (simp add: order_ok_def)
  moreover have "distinct (ranked es order)" "r \<noteq> 0" using ranked_facts [OF b(3,2)] dr by (simp_all add: deleg_rank_def)
  ultimately show "p \<noteq> lower_name origin" using r by (metis length_greater_0_conv list.size(3) not_less0 nth_eq_iff_index_eq)
qed

lemma cut_by_only:
  assumes "d c = Some i" and "suffix c n" and "\<And>p. suffix p n \<Longrightarrow> p \<noteq> c \<Longrightarrow> d p = None"
  shows "cut_by d n = Some i"
  using assms(2,3)
proof (induction n)
  case (Cons l p)
  show ?case
  proof (cases "c = l # p")
    case False
    then have "suffix c p" using Cons.prems(1) by (simp add: suffix_Cons)
    moreover have "d (l # p) = None" using Cons.prems(2) False by auto
    ultimately show ?thesis using Cons.IH Cons.prems(2) by (simp add: suffix_Cons)
  qed (use assms(1) in simp)
qed (use assms(1) in simp)

text \<open>C7: a delegation answers for its whole subtree. Let the configuration declare NS records at \<open>c\<close>, which is not the
  apex, and let no other name at or above \<open>n\<close>, a name at or below \<open>c\<close>, declare any, the apex apart. Then for every
  type the zone answers \<open>n\<close> with a referral: no answer records, not authoritative, and as authority exactly the
  declared NS set of \<open>c\<close> under its name, whether or not the zone holds records at \<open>n\<close>.\<close>

theorem delegation_answers_referral:
  assumes "hickory_ok E" and "iter_ok iter" and "from_config E iter seed cfg = Inr Z"
    and "name_from_str E (zc_origin cfg) = Some origin"
    and "declared E origin (zc_default_ttl cfg) (zc_records cfg) c RT_NS \<noteq> []" and "c \<noteq> lower_name origin"
    and "suffix c n" and "is_lower n" and "length n \<le> 127"
    and "\<forall>p. suffix p n \<longrightarrow> p \<noteq> c \<longrightarrow> p \<noteq> lower_name origin \<longrightarrow>
      declared E origin (zc_default_ttl cfg) (zc_records cfg) p RT_NS = []"
  shows "\<exists>ow add. lookup E Z n t = Referral [] (map (\<lambda>(ttl, v). from_rdata ow ttl v)
      (declared E origin (zc_default_ttl cfg) (zc_records cfg) c RT_NS)) add \<and> lower_name ow = c \<and>
    \<not> is_authoritative (lookup E Z n t)"
proof (rule from_config_view [OF assms(1-4)])
  fix es order
  assume bu: "built E (lower_name origin) es order Z"
    and rec: "\<And>k t. run_records t (runs_at es k) = declared E origin (zc_default_ttl cfg) (zc_records cfg) k t"
    and refs: "\<And>i. i < length (nodes Z) \<Longrightarrow> flags_contains (node_flags (nodes Z ! i)) DELEGATION \<Longrightarrow>
       referrals Z (of_nat i) = Some (spec_referral Z (nodes Z ! i))"
  obtain i where i: "i < length es" "ranked es order ! i = c" "rank_cut E es order i = Some i"
    "node_named Z c = Some i" "governing_cut Z c = Some i" by (rule declared_cut [OF bu rec assms(5,6)])
  have "position c (ranked es order) = Some i"
    using i(4) built_names [OF bu] by (simp add: node_named_def)
  moreover have "deleg_rank E es order i" using i(1,3) deleg_iff_cut [OF built_facts(3,2) [OF bu] i(1)] by blast
  ultimately have "deleg_named E es order c = Some i" by (simp add: deleg_named_def)
  moreover have "deleg_named E es order p = None" if "suffix p n" "p \<noteq> c" for p
    using that assms(10) deleg_named_declares [OF bu rec, of p] by (cases "deleg_named E es order p") auto
  ultimately have "governing_cut Z n = Some i"
    using cut_by_only [of "deleg_named E es order" c i n] assms(7) built_governing_cut [OF bu] by simp
  moreover have "suffix (lower_origin Z) n"
    using suffix_order.trans [OF declared_name_facts(3) [OF bu i(1,2)] assms(7)] .
  ultimately show ?thesis using cut_referral_records [OF assms(1) bu rec refs i(1-4) _ _ assms(8,9)] by blast
qed

theorem delegation_answers_referral_witness:
  "\<not> is_authoritative (lookup demo_hickory demo_zone [octets ''q'', octets ''sub'', octets ''ex''] RT_ANY)"
proof -
  let ?n = "[octets ''q'', octets ''sub'', octets ''ex'']" and ?c = "[octets ''sub'', octets ''ex'']"
  let ?D = "\<lambda>p. declared demo_hickory [octets ''ex''] (zc_default_ttl demo_zone_config) (zc_records demo_zone_config) p RT_NS"
  have d: "?D ?c \<noteq> []" by code_simp
  have ne: "?c \<noteq> lower_name [octets ''ex'']" by simp
  have suf: "suffix ?c ?n" by (simp add: suffix_Cons)
  have "?D ?n = []" "?D [] = []" by code_simp+
  then have only: "\<forall>p. suffix p ?n \<longrightarrow> p \<noteq> ?c \<longrightarrow> p \<noteq> lower_name [octets ''ex''] \<longrightarrow> ?D p = []"
    unfolding demo_lower by (auto simp: suffix_Cons)
  have len: "length ?n \<le> 127" by simp
  show ?thesis
    using delegation_answers_referral [OF demo_zone_facts demo_origin d ne suf demo_names(2) len only, of RT_ANY] by blast
qed

end
