(* ===== verification/Zone_Rules.thy ===== *)
theory Zone_Rules
  imports Zone_Theorems
begin

text \<open>
  Rules of the protocol a built zone keeps: the name-error determination does not depend on the
  type asked for, nothing below a zone cut is answered from the answer section, glue is exactly
  the in-zone addresses of the name servers, and no zone that breaks the RFC 1034, 1035 and 2181
  rules for an owner name is served.
\<close>

section \<open>Name errors\<close>

definition name_error :: "zone \<Rightarrow> name \<Rightarrow> bool" where
  "name_error Z n \<longleftrightarrow> \<not> suffix (lower_origin Z) n \<or>
     governing_cut Z n = None \<and> node_named Z n = None \<and> wildcard_source Z n = None"

lemma spec_resolve_NxDomain: "fst (spec_resolve Z n t depth out) = Res_NxDomain \<longleftrightarrow> name_error Z n"
  by (subst spec_resolve.simps)
    (auto simp: name_error_def Let_def split: option.splits list.splits rdata.splits prod.splits resolution.splits if_splits)

lemma spec_lookup_NxDomain: "spec_lookup Z n t = NxDomain \<longleftrightarrow> name_error Z n"
  using spec_resolve_NxDomain [of Z n t 0 "[]"]
  by (cases "spec_resolve Z n t 0 []") (auto simp: spec_lookup_def split: resolution.splits)

text \<open>Whether a name is answered NXDOMAIN does not depend on the type asked for: if any type
  gets a name error then every type does, so no cached denial can hide records of another type.\<close>

lemma name_error_independent_of_type:
  assumes "hickory_ok E" and "iter_ok iter" and "from_config E iter seed cfg = Inr Z"
    and "is_lower n" and "length n \<le> 127" and "lookup E Z n t = NxDomain"
  shows "lookup E Z n u = NxDomain"
proof -
  from from_config_built [OF assms(1-3)] obtain lower es order where bu: "built E lower es order Z" by blast
  have "lookup E Z n t' = spec_lookup Z n t'" for t'
    by (rule lookup_refines [OF assms(1) built_zone_ok [OF bu] built_targets_ok [OF bu] assms(4,5)])
  then show ?thesis using assms(6) by (simp add: spec_lookup_NxDomain)
qed

section \<open>Zone cuts\<close>

lemma governing_cut_above: "governing_cut Z (drop k n) \<noteq> None \<Longrightarrow> governing_cut Z n \<noteq> None"
proof (induction k)
  case (Suc k)
  have "governing_cut Z (drop k n) \<noteq> None"
  proof (cases "drop k n")
    case Nil
    then show ?thesis using Suc.prems by (simp add: drop_Suc tl_drop [symmetric])
  next
    case (Cons l p)
    then have "drop (Suc k) n = p" by (metis drop_Suc list.sel(3) tl_drop)
    then show ?thesis
      using Suc.prems Cons by (subst governing_cut.simps) (auto split: option.split)
  qed
  then show ?case by (rule Suc.IH)
qed simp

text \<open>C8: the referral stored for a delegation carries as additional data, for each distinct name
  server of it that lies inside the zone, in order, exactly the A and AAAA records the zone holds
  at that name, and nothing for a name server outside the zone.\<close>

theorem referral_glue_exact:
  assumes "hickory_ok E" and "iter_ok iter" and "from_config E iter seed cfg = Inr Z"
    and "name_from_str E (zc_origin cfg) = Some origin"
    and "i < length (nodes Z)" and "flags_contains (node_flags (nodes Z ! i)) DELEGATION"
  shows "\<exists>r. referrals Z (of_nat i) = Some r \<and>
    ref_authority r = records_at Z (nodes Z ! i) RT_NS (node_name (nodes Z ! i)) \<and>
    ref_additional r = concat (map (glue_of Z) (filter (suffix (lower_origin Z))
      (uniq [] (ns_names (map rec_data (ref_authority r))))))"
proof (rule from_config_view [OF assms(1-4)])
  fix es order
  assume "\<And>i. i < length (nodes Z) \<Longrightarrow> flags_contains (node_flags (nodes Z ! i)) DELEGATION \<Longrightarrow>
       referrals Z (of_nat i) = Some (spec_referral Z (nodes Z ! i))"
  then have "referrals Z (of_nat i) = Some (spec_referral Z (nodes Z ! i))" using assms(5,6) by blast
  moreover have "map rec_data (records_at Z (nodes Z ! i) RT_NS ow) =
      concat (map (values_of Z) (sets_at Z (nodes Z ! i) RT_NS))" for ow
    by (simp add: records_at_def map_concat comp_def from_rdata_def)
  ultimately show ?thesis by (simp add: spec_referral_def)
qed

theorem referral_glue_exact_witness:
  "\<exists>i < length (nodes demo_zone). flags_contains (node_flags (nodes demo_zone ! i)) DELEGATION \<and>
     referrals demo_zone (of_nat i) \<noteq> None"
proof -
  have d: "declared demo_hickory [octets ''ex''] (zc_default_ttl demo_zone_config) (zc_records demo_zone_config)
      [octets ''sub'', octets ''ex''] RT_NS \<noteq> []" by code_simp
  have ne: "[octets ''sub'', octets ''ex''] \<noteq> lower_name [octets ''ex'']" by simp
  obtain es order where bu: "built demo_hickory (lower_name [octets ''ex'']) es order demo_zone"
    and rec: "\<And>k t. run_records t (runs_at es k) = declared demo_hickory [octets ''ex'']
      (zc_default_ttl demo_zone_config) (zc_records demo_zone_config) k t"
    by (rule from_config_view [OF demo_zone_facts demo_origin]) blast
  obtain i where i: "i < length es" "rank_cut demo_hickory es order i = Some i"
    by (rule declared_cut [OF bu rec d ne])
  then have "i < length (nodes demo_zone)" "flags_contains (node_flags (nodes demo_zone ! i)) DELEGATION"
    using built_facts(6,7) [OF bu] by (auto simp: node_inv_def)
  then show ?thesis using referral_glue_exact [OF demo_zone_facts demo_origin, of i] by fastforce
qed

section \<open>What is served\<close>

lemma run_records_distinct:
  assumes "distinct (map s_type rs)"
  shows "\<exists>ttl vs. run_records t rs = map (Pair ttl) vs"
  using assms
proof (induction rs)
  case (Cons r rs)
  show ?case
  proof (cases "s_type r = t")
    case True
    with Cons.prems have "run_records t rs = []" using run_records_type [of t rs] by auto
    with True show ?thesis using run_records_append [of t "[r]" rs] by (auto simp: run_records_single)
  next
    case False
    then have "run_records t (r # rs) = run_records t rs" by (simp add: run_records_def)
    with Cons show ?thesis by simp
  qed
qed (simp add: run_records_def)

lemma cname_count_records: "cname_count rs = length (run_records RT_CNAME rs)"
  by (induction rs) (auto simp: cname_count_def run_records_def)

lemma soa_values_records: "soa_values rs = length (run_records RT_SOA rs)"
  by (induction rs) (auto simp: soa_values_def run_records_def)

lemma runs_at_servable:
  assumes "\<forall>e \<in> set es. owner_servable lower e"
  shows "distinct (map s_type (runs_at es k))" and "k \<noteq> lower \<Longrightarrow> RT_SOA \<notin> set (map s_type (runs_at es k))"
    and "k \<noteq> lower \<Longrightarrow> map_of es k = Some nd \<Longrightarrow> s_wildcard nd \<Longrightarrow> RT_NS \<notin> set (map s_type (runs_at es k))"
    and "cname_count (runs_at es k) \<le> 1" and "0 < cname_count (runs_at es k) \<Longrightarrow> length (runs_at es k) = 1"
proof -
  have "(\<exists>e \<in> set es. fst e = k \<and> runs_at es k = s_rrsets (snd e)) \<or> runs_at es k = []"
    by (cases "map_of es k") (force simp: runs_at_def dest: map_of_SomeD)+
  moreover have "cname_count [] = 0" by (simp add: cname_count_def)
  ultimately have "distinct (map s_type (runs_at es k)) \<and> (k \<noteq> lower \<longrightarrow> RT_SOA \<notin> set (map s_type (runs_at es k))) \<and>
      cname_count (runs_at es k) \<le> 1 \<and> (0 < cname_count (runs_at es k) \<longrightarrow> length (runs_at es k) = 1)"
    using assms by (auto simp: owner_servable_def Let_def simp del: set_map)
  then show "distinct (map s_type (runs_at es k))" "k \<noteq> lower \<Longrightarrow> RT_SOA \<notin> set (map s_type (runs_at es k))"
    "cname_count (runs_at es k) \<le> 1" "0 < cname_count (runs_at es k) \<Longrightarrow> length (runs_at es k) = 1" by blast+
  show "RT_NS \<notin> set (map s_type (runs_at es k))" if "k \<noteq> lower" "map_of es k = Some nd" "s_wildcard nd"
    using assms that map_of_SomeD [OF that(2)] by (auto simp: owner_servable_def Let_def runs_at_def)
qed

definition rules_kept :: "name \<Rightarrow> bool \<Rightarrow> (name \<Rightarrow> bool) \<Rightarrow> (name \<Rightarrow> rtype \<Rightarrow> (u32 \<times> rdata) list) \<Rightarrow> bool" where
  "rules_kept apex soa_table wild D \<longleftrightarrow>
     (\<forall>k t x y. x \<in> set (D k t) \<longrightarrow> y \<in> set (D k t) \<longrightarrow> fst x = fst y) \<and>
     (\<forall>k. D k RT_CNAME \<noteq> [] \<longrightarrow> length (D k RT_CNAME) = 1 \<and> (\<forall>t. t \<noteq> RT_CNAME \<longrightarrow> D k t = [])) \<and>
     (\<forall>k. k \<noteq> apex \<longrightarrow> D k RT_SOA = []) \<and>
     (\<forall>k. k \<noteq> apex \<longrightarrow> wild k \<longrightarrow> D k RT_NS = []) \<and>
     length (D apex RT_SOA) = (if soa_table then 0 else 1) \<and> D apex RT_NS \<noteq> []"

text \<open>C6: a configuration whose zone is served keeps the rules of the protocol: one TTL per RRset
  (RFC 2181 5.2), a CNAME alone at its owner and only one (RFC 1034 3.6.2), no SOA below the
  apex, no NS set at an owner first declared as a wildcard, other than the apex (RFC 4592 4.2), exactly one
  SOA between the \<^verbatim>\<open>[zone.soa]\<close> table and the apex records (RFC 1035 5.2), and an NS set at the apex. A
  configuration that breaks one of them does not build.\<close>

theorem served_zone_keeps_rules:
  assumes "hickory_ok E" and "iter_ok iter" and "from_config E iter seed cfg = Inr Z"
    and "name_from_str E (zc_origin cfg) = Some origin"
  shows "rules_kept (lower_name origin) (zc_soa cfg \<noteq> None) (wild_owner E origin (zc_records cfg))
    (declared E origin (zc_default_ttl cfg) (zc_records cfg))"
proof (rule from_config_view [OF assms])
  fix es order
  assume bu: "built E (lower_name origin) es order Z"
    and rec: "\<And>k t. run_records t (runs_at es k) = declared E origin (zc_default_ttl cfg) (zc_records cfg) k t"
    and ch: "check_findings (lower_name origin) (zc_soa cfg \<noteq> None) es = []"
    and wild: "\<And>k nd. map_of es k = Some nd \<Longrightarrow> s_rrsets nd \<noteq> [] \<Longrightarrow> s_wildcard nd = wild_owner E origin (zc_records cfg) k"
  note b = built_facts [OF bu]
  have "distinct (map fst es)" using b(2) by (simp add: entries_ok_def)
  from ch [unfolded check_findings_Nil [OF this]] have
    ok: "\<forall>e \<in> set es. owner_servable (lower_name origin) e"
    and soa: "soa_values (runs_at es (lower_name origin)) = (if zc_soa cfg \<noteq> None then 0 else 1)"
    and ns: "RT_NS \<in> set (map s_type (runs_at es (lower_name origin)))" by blast+
  note srv = runs_at_servable [OF ok]
  have one_ttl: "fst x = fst y" if "x \<in> set (run_records t (runs_at es k))" "y \<in> set (run_records t (runs_at es k))" for k t x y
    using run_records_distinct [OF srv(1), of t k] that by auto
  have alone: "length (run_records RT_CNAME (runs_at es k)) = 1 \<and> (\<forall>t. t \<noteq> RT_CNAME \<longrightarrow> run_records t (runs_at es k) = [])"
    if "run_records RT_CNAME (runs_at es k) \<noteq> []" for k
  proof -
    have pos: "0 < cname_count (runs_at es k)" using that by (simp add: cname_count_records)
    from srv(5) [OF pos] obtain r where r: "runs_at es k = [r]" by (auto simp: length_Suc_conv)
    then have "s_type r = RT_CNAME" using that by (auto simp: run_records_single split: if_splits)
    moreover have "length (run_records RT_CNAME (runs_at es k)) = 1"
      using pos srv(4) [of k] unfolding cname_count_records by linarith
    ultimately show ?thesis using r by (auto simp: run_records_single)
  qed
  have no_soa: "run_records RT_SOA (runs_at es k) = []" if "k \<noteq> lower_name origin" for k
    using srv(2) [OF that] run_records_type by blast
  have no_wild: "run_records RT_NS (runs_at es k) = []" if k: "k \<noteq> lower_name origin" "wild_owner E origin (zc_records cfg) k" for k
  proof (cases "runs_at es k = []")
    case False
    then obtain nd where nd: "map_of es k = Some nd" "s_rrsets nd \<noteq> []" by (auto simp: runs_at_def split: option.splits)
    then show ?thesis using srv(3) [OF k(1) nd(1)] wild [OF nd] k(2) run_records_type by blast
  qed (simp add: run_records_def)
  have "run_records RT_NS (runs_at es (lower_name origin)) \<noteq> []" using ns by (rule ns_present [OF runs_at_ok [OF bu]])
  then show ?thesis
    using one_ttl alone no_soa no_wild soa unfolding rules_kept_def rec [symmetric] soa_values_records by blast
qed

theorem served_zone_keeps_rules_witness:
  "rules_kept [octets ''ex''] True (wild_owner demo_hickory [octets ''ex''] (zc_records demo_zone_config)) (declared demo_hickory [octets ''ex''] 60 (zc_records demo_zone_config))"
proof -
  have "zc_soa demo_zone_config \<noteq> None" "zc_default_ttl demo_zone_config = 60" by (simp_all add: demo_zone_config_def)
  then show ?thesis
    using served_zone_keeps_rules [OF demo_zone_facts demo_origin] unfolding demo_lower by simp
qed

end
