(* ===== verification/Ratelimit.thy ===== *)
theory Ratelimit
  imports Hickory
begin

text \<open>
  \<^verbatim>\<open>src/ratelimit.rs\<close>: the per-source-prefix token buckets. A slot is one 64-bit word holding a
  30-bit milli-token deficit and a 32-bit wrapping millisecond stamp; \<open>settle\<close> brings it up to
  the present, \<open>check_at\<close> charges it under a bounded compare-exchange loop. The loop takes the
  outcomes of its compare-exchange attempts as an argument (\<open>None\<close> success, \<open>Some actual\<close> the
  word found instead), so that contention by other threads is part of the model; \<open>cas_step\<close> is
  the interleaving of any number of threads on one slot. A clock reading (\<^verbatim>\<open>Instant\<close>) is a
  natural number of nanoseconds, and the per-process random hasher is a field of the state.

  Shown: packing loses nothing and leaves the reserved bits clear; a slot behaves as an ideal
  bucket over an unbounded clock across every gap below the backwards band; no interleaving
  admits more than the burst plus the refill; refusals store nothing; keys identify exactly
  the /24 or /56 of a source.
\<close>

section \<open>Constants\<close>

definition SLOT_BITS :: nat where "SLOT_BITS = 18"
definition SLOTS :: nat where "SLOTS = 2 ^ SLOT_BITS"
definition SLOT_MASK :: u64 where "SLOT_MASK = push_bit SLOT_BITS 1 - 1"
definition IPV4_PREFIX_BITS :: nat where "IPV4_PREFIX_BITS = 24"
definition IPV6_PREFIX_BITS :: nat where "IPV6_PREFIX_BITS = 56"
definition KEY_TAG_V4 :: u64 where "KEY_TAG_V4 = 0"
definition KEY_TAG_V6 :: u64 where "KEY_TAG_V6 = push_bit 62 1"
definition MAX_RATE :: u32 where "MAX_RATE = 1000000"
definition MILLI :: u64 where "MILLI = 1000"
definition DEFICIT_SHIFT :: nat where "DEFICIT_SHIFT = 32"
definition DEFICIT_MASK :: u64 where "DEFICIT_MASK = push_bit 30 1 - 1"
definition WRAP_GUARD_MS :: u32 where "WRAP_GUARD_MS = push_bit 31 1"
definition STALE_MAX_MS :: u32 where "STALE_MAX_MS = 60000"
definition BACKWARDS_FLOOR_MS :: u32 where "BACKWARDS_FLOOR_MS = - 1 - STALE_MAX_MS + 1"
definition CAS_ATTEMPTS :: nat where "CAS_ATTEMPTS = 8"

lemmas limiter_consts = SLOT_BITS_def SLOTS_def SLOT_MASK_def IPV4_PREFIX_BITS_def
  IPV6_PREFIX_BITS_def KEY_TAG_V4_def KEY_TAG_V6_def MAX_RATE_def MILLI_def DEFICIT_SHIFT_def
  DEFICIT_MASK_def WRAP_GUARD_MS_def STALE_MAX_MS_def BACKWARDS_FLOOR_MS_def CAS_ATTEMPTS_def

section \<open>Keys\<close>

definition to_ipv4_mapped :: "u128 \<Rightarrow> u32 option" where
  "to_ipv4_mapped v6 = (if drop_bit 32 v6 = 0xffff then Some (ucast v6) else None)"

definition v4_key :: "u32 \<Rightarrow> u64" where
  "v4_key v4 = KEY_TAG_V4 OR ucast (drop_bit (32 - IPV4_PREFIX_BITS) v4)"

definition v6_key :: "u128 \<Rightarrow> u64" where
  "v6_key v6 = (let prefix = ucast (drop_bit (128 - IPV6_PREFIX_BITS) v6) in KEY_TAG_V6 OR prefix)"

definition canonical_key :: "ip_addr \<Rightarrow> u64" where
  "canonical_key ip = (case ip of
       V4 v4 \<Rightarrow> v4_key v4
     | V6 v6 \<Rightarrow> (case to_ipv4_mapped v6 of None \<Rightarrow> v6_key v6 | Some v4 \<Rightarrow> v4_key v4))"

section \<open>Slot words\<close>

definition unpack :: "u64 \<Rightarrow> u64 \<times> u32" where
  "unpack word = (drop_bit DEFICIT_SHIFT word AND DEFICIT_MASK, ucast word)"

definition pack :: "u64 \<Rightarrow> u32 \<Rightarrow> u64" where
  "pack deficit last_ms = push_bit DEFICIT_SHIFT (deficit AND DEFICIT_MASK) OR ucast last_ms"

datatype band = Ordinary u32 | Backwards | LongIdle

definition band_of :: "u32 \<Rightarrow> u32 \<Rightarrow> band" where
  "band_of now_ms last_ms =
     (let elapsed = now_ms - last_ms
      in if elapsed < WRAP_GUARD_MS then Ordinary elapsed
         else if BACKWARDS_FLOOR_MS \<le> elapsed then Backwards
         else LongIdle)"

definition settle :: "u64 \<Rightarrow> u32 \<Rightarrow> u64 \<Rightarrow> u64 \<times> u32" where
  "settle word now_ms refill_per_ms =
     (let (deficit, last_ms) = unpack word
      in case band_of now_ms last_ms of
           Ordinary elapsed \<Rightarrow> (saturating_sub deficit (ucast elapsed * refill_per_ms), now_ms)
         | Backwards \<Rightarrow> (deficit, last_ms)
         | LongIdle \<Rightarrow> (0, now_ms))"

section \<open>The limiter\<close>

record rate_limiter =
  slots :: "u64 list"
  hasher :: "u64 \<Rightarrow> u64"
  epoch :: nat
  refill_per_ms :: u32
  capacity_milli :: u32

definition new_limiter :: "u32 \<Rightarrow> u32 \<Rightarrow> (u64 \<Rightarrow> u64) \<Rightarrow> nat \<Rightarrow> rate_limiter" where
  "new_limiter qps burst hash now = \<lparr>
     slots = replicate SLOTS 0,
     hasher = hash,
     epoch = now,
     refill_per_ms = clamp_word 1 MAX_RATE qps,
     capacity_milli = clamp_word 1 MAX_RATE burst * 1000\<rparr>"

definition slot_of :: "rate_limiter \<Rightarrow> ip_addr \<Rightarrow> nat" where
  "slot_of L ip = unat (hasher L (canonical_key ip) AND SLOT_MASK)"

definition millis_since_epoch :: "rate_limiter \<Rightarrow> nat \<Rightarrow> u32" where
  "millis_since_epoch L now = of_nat ((now - epoch L) div 1000000)"

fun cas_loop :: "u64 \<Rightarrow> u64 \<Rightarrow> u32 \<Rightarrow> (nat \<Rightarrow> u64 option) \<Rightarrow> nat \<Rightarrow> u64 \<Rightarrow> u64 option" where
  "cas_loop capacity refill now_ms outcome 0 observed = None"
| "cas_loop capacity refill now_ms outcome (Suc k) observed =
     (let (refilled, stamp) = settle observed now_ms refill;
          charged = refilled + MILLI
      in if capacity < charged then None
         else (case outcome k of
                 None \<Rightarrow> Some (pack charged stamp)
               | Some actual \<Rightarrow> cas_loop capacity refill now_ms outcome k actual))"

definition check_at :: "rate_limiter \<Rightarrow> ip_addr \<Rightarrow> nat \<Rightarrow> (nat \<Rightarrow> u64 option) \<Rightarrow> bool \<times> rate_limiter" where
  "check_at L ip now outcome =
     (let i = slot_of L ip in
      case cas_loop (ucast (capacity_milli L)) (ucast (refill_per_ms L)) (millis_since_epoch L now)
             outcome CAS_ATTEMPTS (slots L ! i) of
        None \<Rightarrow> (False, L)
      | Some w \<Rightarrow> (True, L\<lparr>slots := (slots L)[i := w]\<rparr>))"

definition memory_bytes :: "rate_limiter \<Rightarrow> nat" where
  "memory_bytes L = length (slots L) * 8"

definition active_at :: "rate_limiter \<Rightarrow> nat \<Rightarrow> nat" where
  "active_at L now =
     length (filter (\<lambda>w. 0 < fst (settle w (millis_since_epoch L now) (ucast (refill_per_ms L)))) (slots L))"

section \<open>Interleavings on one slot\<close>

text \<open>
  A thread that calls \<open>check_at\<close> loads the word, then repeats: refuse if the charge does not
  fit, store if the word is still the one observed, otherwise (or on a spurious failure of the
  weak exchange) observe again, at most \<open>CAS_ATTEMPTS\<close> times.
\<close>

datatype thread = Fresh | Trying nat u64 u32 | Done bool

record slot_sys =
  cell :: u64
  threads :: "nat \<Rightarrow> thread"
  granted :: nat

inductive cas_step :: "u64 \<Rightarrow> u64 \<Rightarrow> nat set \<Rightarrow> slot_sys \<Rightarrow> slot_sys \<Rightarrow> bool"
  for capacity refill :: u64 and readings :: "nat set" where
  load: "threads s i = Fresh \<Longrightarrow> t \<in> readings \<Longrightarrow>
     cas_step capacity refill readings s
       (s\<lparr>threads := (threads s)(i := Trying CAS_ATTEMPTS (cell s) (of_nat t))\<rparr>)"
| refuse: "threads s i = Trying (Suc k) obs now \<Longrightarrow> settle obs now refill = (d, st) \<Longrightarrow>
     capacity < d + MILLI \<Longrightarrow>
     cas_step capacity refill readings s (s\<lparr>threads := (threads s)(i := Done False)\<rparr>)"
| store: "threads s i = Trying (Suc k) obs now \<Longrightarrow> settle obs now refill = (d, st) \<Longrightarrow>
     d + MILLI \<le> capacity \<Longrightarrow> cell s = obs \<Longrightarrow>
     cas_step capacity refill readings s
       (s\<lparr>cell := pack (d + MILLI) st, threads := (threads s)(i := Done True),
          granted := Suc (granted s)\<rparr>)"
| retry: "threads s i = Trying (Suc k) obs now \<Longrightarrow> settle obs now refill = (d, st) \<Longrightarrow>
     d + MILLI \<le> capacity \<Longrightarrow>
     cas_step capacity refill readings s
       (s\<lparr>threads := (threads s)(i := Trying k (cell s) now)\<rparr>)"
| exhausted: "threads s i = Trying 0 obs now \<Longrightarrow>
     cas_step capacity refill readings s (s\<lparr>threads := (threads s)(i := Done False)\<rparr>)"

inductive cas_reach :: "u64 \<Rightarrow> u64 \<Rightarrow> nat set \<Rightarrow> u64 \<Rightarrow> slot_sys \<Rightarrow> bool"
  for capacity refill :: u64 and readings :: "nat set" and w0 :: u64 where
  cas_init: "cas_reach capacity refill readings w0 \<lparr>cell = w0, threads = (\<lambda>_. Fresh), granted = 0\<rparr>"
| cas_next: "cas_reach capacity refill readings w0 s \<Longrightarrow> cas_step capacity refill readings s s' \<Longrightarrow>
     cas_reach capacity refill readings w0 s'"

section \<open>The ideal bucket\<close>

text \<open>A bucket over natural numbers: its deficit and the time of its last charge.\<close>

definition ideal_refill :: "nat \<Rightarrow> nat \<Rightarrow> nat \<Rightarrow> nat" where
  "ideal_refill r gap d = d - r * gap"

definition ideal_check :: "nat \<Rightarrow> nat \<Rightarrow> nat \<times> nat \<Rightarrow> nat \<Rightarrow> bool \<times> (nat \<times> nat)" where
  "ideal_check capacity r b t =
     (let d = ideal_refill r (t - snd b) (fst b) + 1000
      in if d \<le> capacity then (True, (d, t)) else (False, b))"

section \<open>Packing\<close>

lemma DEFICIT_MASK_eq: "DEFICIT_MASK = mask 30"
  by (simp add: DEFICIT_MASK_def mask_eq_exp_minus_1 push_bit_eq_mult)

lemma fits_deficit: "unat d < 2 ^ 30 \<Longrightarrow> d AND DEFICIT_MASK = d" for d :: u64
  by (simp add: DEFICIT_MASK_eq word_unat_eq_iff unsigned_take_bit_eq take_bit_nat_eq_self
      flip: take_bit_eq_mask)

lemma unpack_pack: "unpack (pack d t) = (d AND DEFICIT_MASK, t)"
proof -
  have "drop_bit 32 (push_bit 32 (d AND mask 30) OR ucast t) AND mask 30 = d AND mask 30"
    by (rule bit_word_eqI) (auto simp: bit_simps dest: bit_imp_le_length)
  moreover have "ucast (push_bit 32 (d AND mask 30) OR (ucast t :: u64)) = t"
    by (rule bit_word_eqI) (auto simp: bit_simps)
  ultimately show ?thesis
    by (simp add: unpack_def pack_def DEFICIT_SHIFT_def DEFICIT_MASK_eq)
qed

lemma unpack_pack_fits: "unat d < 2 ^ 30 \<Longrightarrow> unpack (pack d t) = (d, t)"
  by (simp add: unpack_pack fits_deficit)

lemma pack_reserved: "n \<in> {62, 63} \<Longrightarrow> \<not> bit (pack d t) n"
  by (auto simp: pack_def DEFICIT_SHIFT_def DEFICIT_MASK_eq bit_simps dest: bit_imp_le_length)

lemma unpack_deficit_bound: "unat (fst (unpack w)) < 2 ^ 30"
proof -
  have "fst (unpack w) \<le> DEFICIT_MASK"
    by (simp add: unpack_def word_and_le1)
  also have "unat DEFICIT_MASK = 2 ^ 30 - 1"
    by (simp add: DEFICIT_MASK_def)
  finally show ?thesis by (simp add: word_le_nat_alt)
qed

section \<open>Bands\<close>

lemma elapsed_unat:
  "T \<le> t \<Longrightarrow> t - T < 2 ^ 32 \<Longrightarrow> unat (of_nat t - of_nat T :: u32) = t - T"
  by (simp flip: of_nat_diff add: unat_of_nat)

lemma band_consts:
  "unat WRAP_GUARD_MS = 2 ^ 31" "unat BACKWARDS_FLOOR_MS = 2 ^ 32 - 60000"
  by (simp_all add: WRAP_GUARD_MS_def BACKWARDS_FLOOR_MS_def STALE_MAX_MS_def)

lemma band_ordinary:
  assumes "T \<le> t" and "t - T < 2 ^ 31"
  shows "band_of (of_nat t) (of_nat T) = Ordinary (of_nat t - of_nat T)"
  using assms elapsed_unat [of T t]
  by (simp add: band_of_def Let_def word_less_nat_alt band_consts)

lemma band_long_idle:
  assumes "T \<le> t" and "2 ^ 31 \<le> t - T" and "t - T < 2 ^ 32 - 60000"
  shows "band_of (of_nat t) (of_nat T) = LongIdle"
  using assms elapsed_unat [of T t]
  by (simp add: band_of_def Let_def word_less_nat_alt word_le_nat_alt band_consts)

lemma band_backwards:
  assumes "t < T" and "T - t \<le> 60000"
  shows "band_of (of_nat t) (of_nat T) = Backwards"
proof -
  have "(of_nat t - of_nat T :: u32) = of_nat (2 ^ 32 - (T - t))"
    using assms by (simp add: of_nat_diff)
  then have "unat (of_nat t - of_nat T :: u32) = unat (of_nat (2 ^ 32 - (T - t)) :: u32)"
    by (rule arg_cong)
  also have "\<dots> = 2 ^ 32 - (T - t)"
    by (subst unat_of_nat) (use assms in simp)
  finally have "unat (of_nat t - of_nat T :: u32) = 2 ^ 32 - (T - t)" .
  then show ?thesis
    using assms by (simp add: band_of_def Let_def word_less_nat_alt word_le_nat_alt band_consts)
qed

section \<open>Settling\<close>

text \<open>A charge is what one attempt of the loop computes: the refilled deficit plus one token.\<close>

lemma MILLI_unat [simp]: "unat MILLI = 1000"
  by (simp add: MILLI_def)

lemma refill_product:
  assumes "e < 2 ^ 31" and "r \<le> 1000000"
  shows "unat (ucast (of_nat e :: u32) * of_nat r :: u64) = e * r"
proof -
  have "e * r \<le> 2 ^ 31 * 1000000" using assms by (intro mult_le_mono) auto
  then have "e * r < 2 ^ 64" by simp
  moreover have "unat (ucast (of_nat e :: u32) :: u64) = e"
    using assms by (simp add: unsigned_ucast_eq take_bit_nat_eq_self unat_of_nat)
  moreover have "unat (of_nat r :: u64) = r"
    using assms by (simp add: unat_of_nat)
  ultimately show ?thesis by (simp add: unat_word_ariths)
qed

lemma settle_forward:
  assumes "unat d < 2 ^ 30" and "T \<le> t" and "t - T < 2 ^ 32 - 60000"
    and "1 \<le> r" and "r \<le> 1000000"
  shows "unat (fst (settle (pack d (of_nat T)) (of_nat t) (of_nat r))) = ideal_refill r (t - T) (unat d)"
    and "snd (settle (pack d (of_nat T)) (of_nat t) (of_nat r)) = of_nat t"
proof -
  let ?s = "settle (pack d (of_nat T)) (of_nat t) (of_nat r)"
  have "unat (fst ?s) = ideal_refill r (t - T) (unat d) \<and> snd ?s = of_nat t"
  proof (cases "t - T < 2 ^ 31")
    case True
    have "unat (ucast (of_nat t - of_nat T :: u32) * of_nat r :: u64) = (t - T) * r"
      using refill_product [OF True assms(5)] assms(2) by (metis of_nat_diff)
    with True assms show ?thesis
      by (simp add: settle_def unpack_pack_fits band_ordinary saturating_sub_unat ideal_refill_def
          mult.commute)
  next
    case False
    have "unat d \<le> r * (t - T)"
    proof -
      have "unat d \<le> 1 * 2 ^ 31" using assms(1) by simp
      also have "\<dots> \<le> r * (t - T)" using assms(4) False by (intro mult_le_mono) auto
      finally show ?thesis .
    qed
    with False assms show ?thesis
      by (simp add: settle_def unpack_pack_fits band_long_idle ideal_refill_def)
  qed
  then show "unat (fst ?s) = ideal_refill r (t - T) (unat d)" and "snd ?s = of_nat t" by simp_all
qed

lemma settle_backwards:
  assumes "unat d < 2 ^ 30" and "t < T" and "T - t \<le> 60000"
  shows "settle (pack d (of_nat T)) (of_nat t) r = (d, of_nat T)"
  using assms by (simp add: settle_def unpack_pack_fits band_backwards)

lemma settle_le: "unat (fst (settle w now r)) \<le> unat (fst (unpack w))"
  by (auto simp: settle_def Let_def saturating_sub_unat split: prod.split band.split)

lemma charge_unat: "unat (fst (settle w now r) + MILLI) = unat (fst (settle w now r)) + 1000"
proof -
  have "unat (fst (settle w now r)) < 2 ^ 30"
    using settle_le unpack_deficit_bound by (rule le_less_trans)
  then show ?thesis by (simp add: unat_word_ariths)
qed

section \<open>Keys identify prefixes\<close>

text \<open>The network prefix a source is accounted under: the /24 of an IPv4 address, mapped ones
  included, or the /56 of any other IPv6 address.\<close>

definition source_prefix :: "ip_addr \<Rightarrow> nat + nat" where
  "source_prefix ip = (case ip of
       V4 a \<Rightarrow> Inl (unat a div 2 ^ 8)
     | V6 b \<Rightarrow> (if unat b div 2 ^ 32 = 0xffff then Inl (unat b mod 2 ^ 32 div 2 ^ 8)
               else Inr (unat b div 2 ^ 72)))"

lemma unat_v4_key: "unat (v4_key v) = unat v div 2 ^ 8"
proof -
  have "unat v div 2 ^ 8 < 2 ^ 64"
    using unat_less_pow [of v] by (simp add: less_mult_imp_div_less)
  then show ?thesis
    by (simp add: v4_key_def KEY_TAG_V4_def IPV4_PREFIX_BITS_def unsigned_ucast_eq
        unat_drop_bit take_bit_nat_eq_self)
qed

lemma unat_v6_key: "unat (v6_key v) = 2 ^ 62 + unat v div 2 ^ 72"
proof -
  let ?p = "ucast (drop_bit 72 v) :: u64"
  have lt: "unat v div 2 ^ 72 < 2 ^ 56"
    using unat_less_pow [of v] by (simp add: less_mult_imp_div_less)
  then have p: "unat ?p = unat v div 2 ^ 72"
    by (simp add: unsigned_ucast_eq unat_drop_bit take_bit_nat_eq_self)
  have tag: "n = 62" if "bit (push_bit 62 1 :: u64) n" for n
    using that by (auto simp only: bit_push_bit_iff bit_1_iff)
  have "\<not> bit ?p 62"
    by (auto simp: bit_simps dest: bit_imp_le_length)
  with tag have "push_bit 62 1 AND ?p = 0"
    by (intro bit_word_eqI) (metis bit_and_iff bit_0_eq bot_apply bot_bool_def)
  then have "push_bit 62 1 OR ?p = push_bit 62 1 + ?p"
    by (rule disjunctive_add_eq_or [symmetric])
  moreover have "unat (push_bit 62 1 + ?p) = 2 ^ 62 + unat ?p"
    using lt p by (simp add: unat_word_ariths)
  ultimately show ?thesis
    using p by (simp add: v6_key_def KEY_TAG_V6_def IPV6_PREFIX_BITS_def Let_def)
qed

lemma to_ipv4_mapped_eq:
  "to_ipv4_mapped v = (if unat v div 2 ^ 32 = 0xffff then Some (ucast v) else None)"
proof -
  have "drop_bit 32 v = 0xffff \<longleftrightarrow> unat (drop_bit 32 v) = 0xffff"
    by (subst word_unat_eq_iff) simp
  moreover have "unat (drop_bit 32 v) = unat v div 2 ^ 32"
    by (simp add: unat_drop_bit take_bit_nat_eq_self)
  ultimately show ?thesis
    by (simp add: to_ipv4_mapped_def)
qed

lemma canonical_key_unat:
  "unat (canonical_key ip) = (case source_prefix ip of Inl p \<Rightarrow> p | Inr p \<Rightarrow> 2 ^ 62 + p)"
  by (auto simp: canonical_key_def source_prefix_def to_ipv4_mapped_eq unat_v4_key unat_v6_key
      unsigned_ucast_eq take_bit_eq_mod split: ip_addr.split)

lemma source_prefix_v4_bound: "source_prefix ip = Inl p \<Longrightarrow> p < 2 ^ 24"
proof (cases ip)
  case (V4 a)
  moreover assume "source_prefix ip = Inl p"
  ultimately show ?thesis using unat_less_pow [of a]
    by (auto simp: source_prefix_def less_mult_imp_div_less)
next
  case (V6 b)
  moreover assume "source_prefix ip = Inl p"
  ultimately show ?thesis
    by (auto simp: source_prefix_def less_mult_imp_div_less split: if_splits)
qed

text \<open>Two sources share a bucket key exactly when they are in the same IPv4 /24 (an
  IPv4-mapped address counting as its IPv4 form) or the same IPv6 /56; the families never meet.\<close>

lemma canonical_key_eq_iff: "canonical_key a = canonical_key b \<longleftrightarrow> source_prefix a = source_prefix b"
  using canonical_key_unat [of a] canonical_key_unat [of b]
    source_prefix_v4_bound [of a] source_prefix_v4_bound [of b]
  by (cases "source_prefix a"; cases "source_prefix b") (auto simp: word_unat_eq_iff)

section \<open>The loop and the limiter's invariant\<close>

definition slot_ok :: "u64 \<Rightarrow> u64 \<Rightarrow> bool" where
  "slot_ok capacity w \<longleftrightarrow> unat (fst (unpack w)) \<le> unat capacity \<and> (\<forall>n \<in> {62, 63}. \<not> bit w n)"

definition limiter_ok :: "rate_limiter \<Rightarrow> bool" where
  "limiter_ok L \<longleftrightarrow> length (slots L) = SLOTS \<and>
     1 \<le> unat (refill_per_ms L) \<and> unat (refill_per_ms L) \<le> 1000000 \<and>
     1000 \<le> unat (capacity_milli L) \<and> unat (capacity_milli L) \<le> 1000000000 \<and>
     (\<forall>w \<in> set (slots L). slot_ok (ucast (capacity_milli L)) w)"

lemma unat_ucast_u32_u64 [simp]: "unat (ucast (x :: u32) :: u64) = unat x"
proof -
  have "unat x < 2 ^ 64" using unat_less_pow [of x] by simp
  then show ?thesis by (simp add: unsigned_ucast_eq take_bit_nat_eq_self)
qed

lemma unat_ucast_capacity: "limiter_ok L \<Longrightarrow> unat (ucast (capacity_milli L) :: u64) \<le> 1000000000"
  by (simp add: limiter_ok_def)

lemma slot_ok_pack:
  assumes "unat d \<le> unat capacity" and "unat capacity \<le> 1000000000"
  shows "slot_ok capacity (pack d t)"
proof -
  have "unat d < 2 ^ 30" using assms by simp
  then show ?thesis using assms(1) pack_reserved by (auto simp: slot_ok_def unpack_pack_fits)
qed

lemma cas_loop_Some:
  assumes "cas_loop capacity refill now outcome k observed = Some w"
  shows "\<exists>obs. w = pack (fst (settle obs now refill) + MILLI) (snd (settle obs now refill)) \<and>
    unat (fst (settle obs now refill)) + 1000 \<le> unat capacity"
  using assms
proof (induction k arbitrary: observed)
  case (Suc k)
  let ?c = "fst (settle observed now refill) + MILLI"
  from Suc.prems have le: "unat ?c \<le> unat capacity"
    by (auto simp: Let_def word_le_nat_alt not_less split: prod.splits if_splits)
  show ?case
  proof (cases "outcome k")
    case None
    with Suc.prems le show ?thesis
      by (intro exI [of _ observed]) (auto simp: Let_def charge_unat split: prod.splits if_splits)
  next
    case (Some actual)
    with Suc.prems show ?thesis
      by (intro Suc.IH [of actual]) (auto simp: Let_def split: prod.splits if_splits)
  qed
qed simp

lemma cas_loop_slot_ok:
  assumes "cas_loop capacity refill now outcome k observed = Some w" and "unat capacity \<le> 1000000000"
  shows "slot_ok capacity w"
proof -
  from cas_loop_Some [OF assms(1)] obtain obs where
    w: "w = pack (fst (settle obs now refill) + MILLI) (snd (settle obs now refill))"
    and "unat (fst (settle obs now refill)) + 1000 \<le> unat capacity" by blast
  then have "unat (fst (settle obs now refill) + MILLI) \<le> unat capacity"
    by (simp add: charge_unat)
  then show ?thesis unfolding w using assms(2) by (rule slot_ok_pack)
qed

lemma slot_of_bound: "slot_of L ip < SLOTS"
proof -
  have "hasher L (canonical_key ip) AND SLOT_MASK \<le> SLOT_MASK" by (rule word_and_le1)
  then show ?thesis by (simp add: slot_of_def word_le_nat_alt limiter_consts)
qed

lemma clamp_rate: "1 \<le> unat (clamp_word 1 MAX_RATE x) \<and> unat (clamp_word 1 MAX_RATE x) \<le> 1000000"
  using clamp_word_bounds [of 1 MAX_RATE x]
  by (simp add: MAX_RATE_def word_le_nat_alt)

lemma new_limiter_ok: "limiter_ok (new_limiter qps burst hash now)"
proof -
  have "unat (clamp_word 1 MAX_RATE burst * 1000) = unat (clamp_word 1 MAX_RATE burst) * 1000"
    using clamp_rate [of burst] by (simp add: unat_word_ariths)
  moreover have "slot_ok c 0" for c
    by (simp add: slot_ok_def unpack_def)
  ultimately show ?thesis
    using clamp_rate [of qps] clamp_rate [of burst]
    by (auto simp: limiter_ok_def new_limiter_def SLOTS_def)
qed

lemma check_at_refused: "check_at L ip now outcome = (False, L') \<Longrightarrow> L' = L"
  by (auto simp: check_at_def Let_def split: option.splits)

lemma check_at_ok:
  assumes "limiter_ok L" and "check_at L ip now outcome = (b, L')"
  shows "limiter_ok L'"
proof -
  let ?i = "slot_of L ip"
  consider "L' = L" | w where "cas_loop (ucast (capacity_milli L)) (ucast (refill_per_ms L))
      (millis_since_epoch L now) outcome CAS_ATTEMPTS (slots L ! ?i) = Some w"
      and "L' = L\<lparr>slots := (slots L)[?i := w]\<rparr>"
    using assms(2) by (auto simp: check_at_def Let_def split: option.splits)
  then show ?thesis
  proof cases
    case (2 w)
    have "slot_ok (ucast (capacity_milli L)) w"
      using 2(1) unat_ucast_capacity [OF assms(1)] by (rule cas_loop_slot_ok)
    then have "\<forall>x \<in> set ((slots L)[?i := w]). slot_ok (ucast (capacity_milli L)) x"
      using assms(1) set_update_subset_insert [of "slots L" ?i w] by (auto simp: limiter_ok_def)
    with 2(2) assms(1) show ?thesis by (simp add: limiter_ok_def)
  qed (simp add: assms(1))
qed

lemma check_at_frame:
  assumes "check_at L ip now outcome = (b, L')"
  shows "length (slots L') = length (slots L)" and "capacity_milli L' = capacity_milli L"
    and "refill_per_ms L' = refill_per_ms L" and "hasher L' = hasher L" and "epoch L' = epoch L"
    and "j \<noteq> slot_of L ip \<Longrightarrow> slots L' ! j = slots L ! j"
  using assms by (auto simp: check_at_def Let_def split: option.splits)

section \<open>The contract of an admission control\<close>

text \<open>
  What the request handler relies on: a refusal leaves the limiter as it was, and whatever the
  answer the limiter stays well formed.
\<close>

locale admission =
  fixes admit :: "'s \<Rightarrow> 'a \<Rightarrow> bool \<times> 's"
    and invar :: "'s \<Rightarrow> bool"
  assumes admit_refused: "admit s a = (False, s') \<Longrightarrow> s' = s"
    and admit_invar: "invar s \<Longrightarrow> admit s a = (b, s') \<Longrightarrow> invar s'"
begin

fun admit_all :: "'s \<Rightarrow> 'a list \<Rightarrow> bool list \<times> 's" where
  "admit_all s [] = ([], s)"
| "admit_all s (a # as) = (let (b, s') = admit s a; (bs, t) = admit_all s' as in (b # bs, t))"

lemma admit_all_invar: "invar s \<Longrightarrow> invar (snd (admit_all s as))"
proof (induction as arbitrary: s)
  case (Cons a as)
  obtain b s' where st: "admit s a = (b, s')" by fastforce
  have "invar s'" using Cons.prems st by (rule admit_invar)
  then have "invar (snd (admit_all s' as))" by (rule Cons.IH)
  with st show ?case by (simp add: Let_def case_prod_beta)
qed simp

lemma admit_all_refused: "True \<notin> set (fst (admit_all s as)) \<Longrightarrow> snd (admit_all s as) = s"
proof (induction as arbitrary: s)
  case (Cons a as)
  obtain b s' where st: "admit s a = (b, s')" by fastforce
  from Cons.prems st have "b = False" and rest: "True \<notin> set (fst (admit_all s' as))"
    by (auto simp: Let_def case_prod_beta)
  with st have "s' = s" by (simp add: admit_refused)
  with Cons.IH [OF rest] st show ?case by (simp add: Let_def case_prod_beta)
qed simp

end

interpretation limiter: admission "\<lambda>L r. check_at L (fst r) (fst (snd r)) (snd (snd r))" limiter_ok
  by unfold_locales (auto dest: check_at_refused check_at_ok)

section \<open>Refinement of the ideal bucket\<close>

lemma cas_loop_uncontended:
  "cas_loop capacity refill now (\<lambda>_. None) CAS_ATTEMPTS observed =
     (let d = fst (settle observed now refill) + MILLI
      in if capacity < d then None else Some (pack d (snd (settle observed now refill))))"
  by (simp add: CAS_ATTEMPTS_def numeral_eq_Suc Let_def split: prod.splits)

lemma check_at_ideal:
  assumes ok: "limiter_ok L"
    and slot: "slots L ! slot_of L ip = pack (of_nat d) (of_nat T)"
    and d: "d \<le> unat (capacity_milli L)"
    and t: "t = (now - epoch L) div 1000000"
    and fwd: "T \<le> t" and gap: "t - T < 2 ^ 32 - 60000"
  shows "ideal_check (unat (capacity_milli L)) (unat (refill_per_ms L)) (d, T) t = (b, d', T') \<Longrightarrow>
    check_at L ip now (\<lambda>_. None) =
      (b, L\<lparr>slots := (slots L)[slot_of L ip := pack (of_nat d') (of_nat T')]\<rparr>)"
proof -
  assume ideal: "ideal_check (unat (capacity_milli L)) (unat (refill_per_ms L)) (d, T) t = (b, d', T')"
  let ?r = "unat (refill_per_ms L)" and ?c = "unat (capacity_milli L)"
  let ?s = "settle (slots L ! slot_of L ip) (of_nat t) (ucast (refill_per_ms L))"
  have c: "?c \<le> 1000000000" and r: "1 \<le> ?r" "?r \<le> 1000000" and len: "length (slots L) = SLOTS"
    using ok by (simp_all add: limiter_ok_def)
  have du: "unat (of_nat d :: u64) = d" using d c by (simp add: unat_of_nat)
  have rw: "(ucast (refill_per_ms L) :: u64) = of_nat ?r" by (simp add: word_unat_eq_iff unat_of_nat)
  have s: "unat (fst ?s) = ideal_refill ?r (t - T) d" "snd ?s = of_nat t"
    using settle_forward [of "of_nat d" T t ?r] du d c r fwd gap unfolding slot rw by simp_all
  have ch: "unat (fst ?s + MILLI) = ideal_refill ?r (t - T) d + 1000"
    by (simp add: charge_unat s)
  have dec: "\<not> ucast (capacity_milli L) < fst ?s + MILLI \<longleftrightarrow> ideal_refill ?r (t - T) d + 1000 \<le> ?c"
    by (simp add: word_less_nat_alt ch not_less)
  have ms: "millis_since_epoch L now = of_nat t" by (simp add: millis_since_epoch_def t)
  have keep: "L\<lparr>slots := (slots L)[slot_of L ip := pack (of_nat d) (of_nat T)]\<rparr> = L"
    using slot slot_of_bound [of L ip] len by (metis list_update_id rate_limiter.surjective rate_limiter.update_convs(1))
  have "ideal_refill ?r (t - T) d + 1000 < 2 ^ 64" using d c by (simp add: ideal_refill_def)
  then have "fst ?s + MILLI = of_nat (ideal_refill ?r (t - T) d + 1000)"
    using ch by (simp only: word_unat_eq_iff unat_of_nat) simp
  with s(2) have new:
    "pack (fst ?s + MILLI) (snd ?s) = pack (of_nat (ideal_refill ?r (t - T) d + 1000)) (of_nat t)"
    by simp
  show ?thesis
    using ideal dec keep new
    by (auto simp: check_at_def cas_loop_uncontended ms ideal_check_def Let_def split: if_splits)
qed

section \<open>Interleavings\<close>

text \<open>A slot that starts with deficit \<open>d0\<close> under stamp \<open>T0\<close>, read at moments from \<open>lo\<close> to \<open>hi\<close>.\<close>

definition window_cell :: "u64 \<Rightarrow> nat \<Rightarrow> nat \<Rightarrow> nat \<Rightarrow> nat \<Rightarrow> nat \<Rightarrow> u64 \<Rightarrow> nat \<Rightarrow> bool" where
  "window_cell capacity r lo hi d0 T0 w g \<longleftrightarrow>
     (\<exists>d T. w = pack d (of_nat T) \<and> T0 \<le> T \<and> T \<le> hi \<and> unat d \<le> unat capacity \<and>
        1000 * g + d0 \<le> unat d + r * (T - T0) \<and> (T < lo \<longrightarrow> g = 0) \<and> (lo \<le> T \<longrightarrow> 1000 * g \<le> unat d + r * (T - lo)))"

definition window_inv :: "u64 \<Rightarrow> nat \<Rightarrow> nat set \<Rightarrow> nat \<Rightarrow> nat \<Rightarrow> nat \<Rightarrow> nat \<Rightarrow> slot_sys \<Rightarrow> bool" where
  "window_inv capacity r readings lo hi d0 T0 s \<longleftrightarrow> window_cell capacity r lo hi d0 T0 (cell s) (granted s) \<and>
     (\<forall>i k obs now. threads s i = Trying k obs now \<longrightarrow> (\<exists>t \<in> readings. now = of_nat t))"

lemma window_inv_store:
  assumes cap: "unat capacity \<le> 1000000000" and r: "1 \<le> r" "r \<le> 1000000"
    and win: "readings \<subseteq> {lo..hi}" "hi - lo \<le> 60000" "hi - T0 < 2 ^ 32 - 60000"
    and inv: "window_inv capacity r readings lo hi d0 T0 s"
    and th: "threads s i = Trying (Suc k) (cell s) now"
    and st: "settle (cell s) now (of_nat r) = (d', stamp)" and le: "d' + MILLI \<le> capacity"
  shows "window_inv capacity r readings lo hi d0 T0
    (s\<lparr>cell := pack (d' + MILLI) stamp, threads := (threads s)(i := Done True), granted := Suc (granted s)\<rparr>)"
proof -
  from inv obtain d T where c: "cell s = pack d (of_nat T)" and T: "T0 \<le> T" "T \<le> hi"
    and d: "unat d \<le> unat capacity" and all: "1000 * granted s + d0 \<le> unat d + r * (T - T0)"
    and early: "T < lo \<Longrightarrow> granted s = 0" and bound: "lo \<le> T \<Longrightarrow> 1000 * granted s \<le> unat d + r * (T - lo)"
    by (auto simp: window_inv_def window_cell_def)
  from inv th obtain t where "t \<in> readings" and now: "now = of_nat t"
    unfolding window_inv_def by blast
  with win have t: "lo \<le> t" "t \<le> hi" by auto
  have d30: "unat d < 2 ^ 30" using d cap by simp
  have ch: "unat (d' + MILLI) = unat d' + 1000" using charge_unat [of "cell s" now "of_nat r"] st by simp
  have up: "unat (d' + MILLI) \<le> unat capacity" using le by (simp add: word_le_nat_alt)
  have "window_cell capacity r lo hi d0 T0 (pack (d' + MILLI) stamp) (Suc (granted s))"
  proof (cases "T \<le> t")
    case True
    have d': "unat d' = ideal_refill r (t - T) (unat d)" and stamp: "stamp = of_nat t"
      using settle_forward [OF d30 True _ r] st c now t T win by simp_all
    have refill: "unat d \<le> unat d' + r * (t - T)" by (simp add: d' ideal_refill_def)
    have split: "r * (t - x) = r * (t - T) + r * (T - x)" if "x \<le> T" for x
      using True that by (simp flip: distrib_left)
    have "1000 * Suc (granted s) + d0 \<le> unat (d' + MILLI) + r * (t - T0)"
      using all refill split [OF T(1)] ch by simp
    moreover have "1000 * Suc (granted s) \<le> unat (d' + MILLI) + r * (t - lo)"
    proof (cases "T < lo")
      case False
      then show ?thesis using bound refill split [of lo] ch by simp
    qed (use early ch in simp)
    ultimately show ?thesis unfolding window_cell_def stamp using T True t up by (intro exI [of _ "d' + MILLI"] exI [of _ t]) simp
  next
    case False
    then have "settle (pack d (of_nat T)) (of_nat t) (of_nat r) = (d, of_nat T)"
      using d30 t T win by (intro settle_backwards) auto
    with st c now have "d' = d" and stamp: "stamp = of_nat T" by simp_all
    then show ?thesis unfolding window_cell_def stamp
      using all bound T ch False t up by (intro exI [of _ "d' + MILLI"] exI [of _ T]) simp
  qed
  then show ?thesis using inv by (auto simp: window_inv_def)
qed

lemma window_inv_step:
  assumes "unat capacity \<le> 1000000000" and "1 \<le> r" "r \<le> 1000000"
    and "readings \<subseteq> {lo..hi}" "hi - lo \<le> 60000" "hi - T0 < 2 ^ 32 - 60000"
    and inv: "window_inv capacity r readings lo hi d0 T0 s"
    and "cas_step capacity (of_nat r) readings s s'"
  shows "window_inv capacity r readings lo hi d0 T0 s'"
  using assms(8)
proof (cases rule: cas_step.cases)
  case (load i t)
  then show ?thesis using inv by (auto simp: window_inv_def)
next
  case (refuse i k obs now d st)
  then show ?thesis using inv by (auto simp: window_inv_def)
next
  case (store i k obs now d st)
  then show ?thesis using window_inv_store [OF assms(1-7)] by auto
next
  case (retry i k obs now d st)
  then show ?thesis using inv by (auto simp: window_inv_def)
next
  case (exhausted i obs now)
  then show ?thesis using inv by (auto simp: window_inv_def)
qed

lemma window_inv_reach:
  assumes "unat capacity \<le> 1000000000" and "1 \<le> r" "r \<le> 1000000"
    and "readings \<subseteq> {lo..hi}" "hi - lo \<le> 60000" "T0 \<le> hi" "hi - T0 < 2 ^ 32 - 60000" and "d0 \<le> unat capacity"
    and "cas_reach capacity (of_nat r) readings (pack (of_nat d0) (of_nat T0)) s"
  shows "window_inv capacity r readings lo hi d0 T0 s"
  using assms(9)
proof (induction rule: cas_reach.induct)
  case cas_init
  have "unat (of_nat d0 :: u64) = d0" using assms(1,8) by (simp add: unat_of_nat)
  then show ?case
    using assms(6,8) unfolding window_inv_def window_cell_def
    by (intro conjI exI [of _ "of_nat d0"] exI [of _ T0]) simp_all
next
  case (cas_next s s')
  from assms(1-5,7) cas_next.IH cas_next.hyps(2) show ?case by (rule window_inv_step)
qed

text \<open>C10: in every interleaving of any number of threads on one slot, lost races, spurious
  failures and stale readings included, the queries admitted while the clock readings span at most a
  minute cost at most the capacity plus the refill of those readings' span, whatever the slot held
  before; and at most the capacity the slot had left under its stamp plus the refill since that stamp. The
  stamp lies before the last reading, less than 49 days back. A reading that is used more than a minute after
  a later one was stored is taken for a long idle time, so no such bound holds beyond the minute.\<close>

theorem interleaved_admissions_bounded:
  assumes "unat capacity \<le> 1000000000" and "1 \<le> r" and "r \<le> 1000000"
    and "readings \<subseteq> {lo..hi}" and "hi - lo \<le> 60000"
    and "T0 \<le> hi" and "hi - T0 < 2 ^ 32 - 60000" and "d0 \<le> unat capacity"
    and "cas_reach capacity (of_nat r) readings (pack (of_nat d0) (of_nat T0)) s"
  shows "1000 * granted s \<le> unat capacity + r * (hi - lo) \<and>
    1000 * granted s + d0 \<le> unat capacity + r * (hi - T0)"
proof -
  from window_inv_reach [OF assms] obtain d :: u64 and T where T: "T \<le> hi" and d: "unat d \<le> unat capacity"
    and all: "1000 * granted s + d0 \<le> unat d + r * (T - T0)"
    and early: "T < lo \<longrightarrow> granted s = 0" and bound: "lo \<le> T \<longrightarrow> 1000 * granted s \<le> unat d + r * (T - lo)"
    unfolding window_inv_def window_cell_def by blast
  have m: "r * (T - x) \<le> r * (hi - x)" for x using T by (intro mult_le_mono) auto
  have "1000 * granted s \<le> unat capacity + r * (hi - lo)"
  proof (cases "T < lo")
    case False
    then have "1000 * granted s \<le> unat d + r * (T - lo)" using bound by simp
    then show ?thesis using d m [of lo] by linarith
  qed (use early in simp)
  then show ?thesis using d all m [of T0] by linarith
qed

text \<open>C12: whatever the source, the clock reading and the contention, a check keeps the limiter
  well formed (deficits within the capacity, reserved bits clear), keeps its table at its size,
  touches no slot but the source's own, and when it refuses stores nothing at all.\<close>

theorem check_at_safe:
  assumes "limiter_ok L" and "check_at L ip now outcome = (b, L')"
  shows "limiter_ok L' \<and> memory_bytes L' = memory_bytes L \<and> (\<not> b \<longrightarrow> L' = L) \<and>
    (\<forall>j. j \<noteq> slot_of L ip \<longrightarrow> slots L' ! j = slots L ! j)"
  using check_at_ok [OF assms] check_at_frame [OF assms(2)] check_at_refused assms(2)
  by (auto simp: memory_bytes_def)

section \<open>Concrete limiters and the remaining properties\<close>

definition demo_limiter :: rate_limiter where
  "demo_limiter = new_limiter 10 2 (\<lambda>k. k) 0"

lemma demo_limiter_ok: "limiter_ok demo_limiter"
  by (simp add: demo_limiter_def new_limiter_ok)

lemma demo_limiter_slot: "slots demo_limiter ! slot_of demo_limiter ip = 0"
  using slot_of_bound [of demo_limiter ip] by (simp add: demo_limiter_def new_limiter_def)

lemma demo_limiter_fields:
  "capacity_milli demo_limiter = 2000" "refill_per_ms demo_limiter = 10" "epoch demo_limiter = 0"
  by (simp_all add: demo_limiter_def new_limiter_def clamp_word_def MAX_RATE_def)

theorem check_at_safe_witness:
  "limiter_ok demo_limiter \<and>
   limiter_ok (snd (check_at demo_limiter (V4 0x01020304) 5000000 (\<lambda>_. None)))"
proof -
  obtain b L' where "check_at demo_limiter (V4 0x01020304) 5000000 (\<lambda>_. None) = (b, L')" by fastforce
  with check_at_safe [OF demo_limiter_ok this] show ?thesis by (simp add: demo_limiter_ok)
qed

text \<open>C14: a source is not locked out: once the gap since its slot's stamp has refilled one token,
  an uncontended check is admitted, for every gap below the backwards band, the 24.86-day
  long-idle band included.\<close>

theorem check_at_admits:
  assumes "limiter_ok L"
    and "slots L ! slot_of L ip = pack (of_nat d) (of_nat T)"
    and "d \<le> unat (capacity_milli L)"
    and "T \<le> (now - epoch L) div 1000000"
    and "(now - epoch L) div 1000000 - T < 2 ^ 32 - 60000"
    and "1000 \<le> unat (refill_per_ms L) * ((now - epoch L) div 1000000 - T)"
  shows "fst (check_at L ip now (\<lambda>_. None))"
proof -
  let ?t = "(now - epoch L) div 1000000"
  let ?i = "ideal_check (unat (capacity_milli L)) (unat (refill_per_ms L)) (d, T) ?t"
  obtain b d' T' where i: "?i = (b, d', T')" by (cases ?i) auto
  have "1000 \<le> unat (capacity_milli L)" using assms(1) by (simp add: limiter_ok_def)
  with i assms(3,6) have b
    by (auto simp: ideal_check_def ideal_refill_def Let_def split: if_splits)
  with check_at_ideal [OF assms(1-3) refl assms(4,5) i] show ?thesis by simp
qed

theorem check_at_admits_witness:
  "fst (check_at demo_limiter (V4 0x01020304) 100000000 (\<lambda>_. None))"
proof -
  have "slots demo_limiter ! slot_of demo_limiter (V4 0x01020304) = pack (of_nat 0) (of_nat 0)"
    by (simp add: demo_limiter_slot pack_def)
  with check_at_admits [OF demo_limiter_ok this, of 100000000] show ?thesis
    by (simp add: demo_limiter_fields)
qed

text \<open>C11: for every gap below the backwards band, across any number of wraps of the 32-bit
  clock, an uncontended check on a slot is the check of an ideal token bucket over natural
  numbers: same decision, and the stored word encodes the ideal bucket's new state.\<close>

theorem check_at_refines_ideal:
  assumes "limiter_ok L"
    and "slots L ! slot_of L ip = pack (of_nat d) (of_nat T)"
    and "d \<le> unat (capacity_milli L)"
    and "t = (now - epoch L) div 1000000"
    and "T \<le> t" and "t - T < 2 ^ 32 - 60000"
    and "ideal_check (unat (capacity_milli L)) (unat (refill_per_ms L)) (d, T) t = (b, d', T')"
  shows "check_at L ip now (\<lambda>_. None) =
      (b, L\<lparr>slots := (slots L)[slot_of L ip := pack (of_nat d') (of_nat T')]\<rparr>)"
  using assms by (rule check_at_ideal)

theorem check_at_refines_ideal_witness:
  "check_at demo_limiter (V6 0x20010db8000000000000000000000001) 5000000 (\<lambda>_. None) =
     (True, demo_limiter\<lparr>slots := (slots demo_limiter)
        [slot_of demo_limiter (V6 0x20010db8000000000000000000000001) := pack (of_nat 1000) (of_nat 5)]\<rparr>)"
proof -
  have "slots demo_limiter ! slot_of demo_limiter (V6 0x20010db8000000000000000000000001)
      = pack (of_nat 0) (of_nat 0)"
    by (simp add: demo_limiter_slot pack_def)
  then show ?thesis
    by (rule check_at_refines_ideal [OF demo_limiter_ok])
      (simp_all add: demo_limiter_fields ideal_check_def ideal_refill_def)
qed

lemma settle_full: "settle (pack 0 (of_nat t)) (of_nat t) (of_nat r) = (0, of_nat t)"
  by (simp add: settle_def unpack_pack_fits band_ordinary saturating_sub_def)

theorem interleaved_admissions_bounded_witness:
  "\<exists>s. cas_reach 1000 (of_nat 1) {5} (pack (of_nat 0) (of_nat 5)) s \<and> granted s = 1 \<and>
     1000 * granted s \<le> unat (1000 :: u64) + 1 * (5 - 5)"
proof -
  let ?s0 = "\<lparr>cell = pack 0 5, threads = (\<lambda>_. Fresh), granted = 0\<rparr>"
  let ?s1 = "?s0\<lparr>threads := (threads ?s0)(0 := Trying CAS_ATTEMPTS (cell ?s0) (of_nat 5))\<rparr>"
  let ?s2 = "?s1\<lparr>cell := pack (0 + MILLI) 5, threads := (threads ?s1)(0 := Done True), granted := Suc (granted ?s1)\<rparr>"
  have "cas_reach 1000 1 {5} (pack 0 5) ?s1"
    by (rule cas_next [OF cas_init load]) simp_all
  moreover have "cas_step 1000 1 {5} ?s1 ?s2"
  proof (rule store)
    show "threads ?s1 0 = Trying (Suc 7) (pack 0 5) 5" by (simp add: CAS_ATTEMPTS_def)
    show "settle (pack 0 5) 5 1 = (0, 5)" using settle_full [of 5 1] by simp
  qed (simp_all add: MILLI_def)
  ultimately have r: "cas_reach 1000 (of_nat 1) {5} (pack (of_nat 0) (of_nat 5)) ?s2"
    by (simp add: cas_next)
  have "1000 * granted ?s2 \<le> unat (1000 :: u64) + 1 * (5 - 5)"
    using interleaved_admissions_bounded [OF _ _ _ _ _ _ _ _ r, of 5 5] by simp
  with r show ?thesis by (intro exI [of _ ?s2]) simp
qed

text \<open>A reading that moved backwards by at most a minute is charged without a refill, and
  the charge is stored under the slot's own, later, stamp. The comment on the backwards band says
  it is the band that does not store; what it does not store is the reading.\<close>

lemma backwards_reading_stores:
  assumes "limiter_ok L"
    and "slots L ! slot_of L ip = pack (of_nat d) (of_nat T)"
    and "d + 1000 \<le> unat (capacity_milli L)"
    and "t = (now - epoch L) div 1000000" and "t < T" and "T - t \<le> 60000"
  shows "check_at L ip now (\<lambda>_. None) =
     (True, L\<lparr>slots := (slots L)[slot_of L ip := pack (of_nat (d + 1000)) (of_nat T)]\<rparr>)"
proof -
  have c: "unat (capacity_milli L) \<le> 1000000000" using assms(1) by (simp add: limiter_ok_def)
  have d: "unat (of_nat d :: u64) = d" using assms(3) c by (simp add: unat_of_nat)
  have "settle (slots L ! slot_of L ip) (of_nat t) (ucast (refill_per_ms L)) = (of_nat d, of_nat T)"
    unfolding assms(2) using d assms(3,5,6) c by (intro settle_backwards) simp_all
  moreover have "(of_nat d :: u64) + MILLI = of_nat (d + 1000)" by (simp add: MILLI_def)
  moreover have "\<not> (ucast (capacity_milli L) :: u64) < of_nat (d + 1000)"
    using assms(3) c by (simp only: word_less_nat_alt unat_of_nat) simp
  ultimately show ?thesis
    by (simp only: check_at_def cas_loop_uncontended millis_since_epoch_def assms(4) [symmetric] Let_def
        fst_conv snd_conv if_False option.case)
qed

end
