(* ===== verification/Metrics.thy ===== *)
theory Metrics
  imports Hickory
begin

text \<open>
  \<^verbatim>\<open>src/metrics.rs\<close>: the server-wide counters. Each is an \<^verbatim>\<open>AtomicU64\<close> that is only ever
  incremented by a relaxed \<^verbatim>\<open>fetch_add\<close>, so concurrent updates act in some order and a
  64-bit word that wraps is the whole state. The exposition is modelled as the list of samples
  it writes: series, labels and reading, with the number formatting and the comment lines left
  out. Shown: every counter is the number of the events it counts, and the exposition of
  fewer than \<open>2 ^ 64\<close> events is consistent (the transports and the response codes add up to
  their totals, the histogram is cumulative).

  A duration is a number of nanoseconds. The bucket bounds are decimal fractions of a second
  that are whole numbers of nanoseconds, on which the comparison of the correctly rounded
  \<^verbatim>\<open>f64\<close> of a duration below a second with the literal agrees with the exact one.
\<close>

section \<open>Data\<close>

text \<open>hickory's \<^verbatim>\<open>ResponseCode\<close>, as far as the sources name its values.\<close>

datatype response_code =
    NoError | FormErr | ServFail | NXDomain | NotImp | Refused | BADVERS | OtherCode u16

datatype transport = Udp | Tcp | OtherTransport

definition LATENCY_BUCKETS :: "nat list" where
  "LATENCY_BUCKETS = [50000, 100000, 500000, 1000000, 5000000, 10000000, 50000000, 100000000, 500000000]"

definition TRACKED_RCODES :: "(string \<times> response_code) list" where
  "TRACKED_RCODES = [(''noerror'', NoError), (''nxdomain'', NXDomain), (''refused'', Refused),
     (''servfail'', ServFail), (''formerr'', FormErr), (''notimp'', NotImp)]"

record metrics =
  m_started :: nat
  zone_records :: u64
  queries_total :: u64
  queries_udp :: u64
  queries_tcp :: u64
  queries_other :: u64
  responses :: "u64 list"
  rate_limited_total :: u64
  send_errors_total :: u64
  latency_buckets :: "u64 list"
  latency_count :: u64
  latency_sum_micros :: u64

definition metrics_new :: "nat \<Rightarrow> metrics" where
  "metrics_new now = \<lparr>m_started = now, zone_records = 0, queries_total = 0, queries_udp = 0, queries_tcp = 0,
     queries_other = 0, responses = replicate (length TRACKED_RCODES + 1) 0, rate_limited_total = 0,
     send_errors_total = 0, latency_buckets = replicate (length LATENCY_BUCKETS) 0, latency_count = 0,
     latency_sum_micros = 0\<rparr>"

section \<open>Recording\<close>

definition set_zone_records :: "u64 \<Rightarrow> metrics \<Rightarrow> metrics" where
  "set_zone_records c m = m\<lparr>zone_records := c\<rparr>"

definition query :: "transport \<Rightarrow> metrics \<Rightarrow> metrics" where
  "query t m =
     (let m = m\<lparr>queries_total := queries_total m + 1\<rparr> in
      case t of
        Udp \<Rightarrow> m\<lparr>queries_udp := queries_udp m + 1\<rparr>
      | Tcp \<Rightarrow> m\<lparr>queries_tcp := queries_tcp m + 1\<rparr>
      | OtherTransport \<Rightarrow> m\<lparr>queries_other := queries_other m + 1\<rparr>)"

definition rcode_slot :: "response_code \<Rightarrow> nat" where
  "rcode_slot c = unwrap_or (length TRACKED_RCODES) (position c (map snd TRACKED_RCODES))"

definition response :: "response_code \<Rightarrow> metrics \<Rightarrow> metrics" where
  "response c m = (let i = rcode_slot c in m\<lparr>responses := (responses m)[i := responses m ! i + 1]\<rparr>)"

definition rate_limited :: "metrics \<Rightarrow> metrics" where
  "rate_limited m = m\<lparr>rate_limited_total := rate_limited_total m + 1\<rparr>"

definition send_error :: "metrics \<Rightarrow> metrics" where
  "send_error m = m\<lparr>send_errors_total := send_errors_total m + 1\<rparr>"

definition micros_u64 :: "nat \<Rightarrow> nat" where
  "micros_u64 elapsed = min (elapsed div 1000) (2 ^ 64 - 1)"

definition observe_latency :: "nat \<Rightarrow> metrics \<Rightarrow> metrics" where
  "observe_latency elapsed m = m\<lparr>
     latency_count := latency_count m + 1,
     latency_sum_micros := latency_sum_micros m + of_nat (micros_u64 elapsed),
     latency_buckets := map (\<lambda>(bucket, upper). if elapsed \<le> upper then bucket + 1 else bucket)
       (zip (latency_buckets m) LATENCY_BUCKETS)\<rparr>"

section \<open>Reading\<close>

definition queries :: "metrics \<Rightarrow> u64" where
  "queries m = queries_total m"

definition in_flight :: "metrics \<Rightarrow> u64" where
  "in_flight m = saturating_sub (queries_total m) (latency_count m)"

definition uptime :: "nat \<Rightarrow> metrics \<Rightarrow> nat" where
  "uptime now m = now - m_started m"

text \<open>A reading is an integer or, for the two series in seconds, the fraction that is rounded.\<close>

datatype reading = Whole u64 | Fraction nat nat

type_synonym sample = "string \<times> (string \<times> string) list \<times> reading"

definition render_info :: "string \<Rightarrow> nat \<Rightarrow> metrics \<Rightarrow> sample list" where
  "render_info version now m =
     [(''dns_build_info'', [(''version'', version)], Whole 1),
      (''dns_uptime_seconds'', [], Fraction (uptime now m) 1000000000),
      (''dns_zone_records'', [], Whole (zone_records m))]"

definition render_queries :: "metrics \<Rightarrow> sample list" where
  "render_queries m =
     (''dns_queries_total'', [], Whole (queries_total m)) #
     map (\<lambda>(label, v). (''dns_queries_by_transport_total'', [(''transport'', label)], Whole v))
       [(''udp'', queries_udp m), (''tcp'', queries_tcp m), (''other'', queries_other m)] @
     map (\<lambda>(idx, label, _). (''dns_responses_total'', [(''rcode'', label)], Whole (responses m ! idx)))
       (enumerate 0 TRACKED_RCODES) @
     [(''dns_responses_total'', [(''rcode'', ''other'')], Whole (responses m ! length TRACKED_RCODES)),
      (''dns_rate_limited_total'', [], Whole (rate_limited_total m)),
      (''dns_send_errors_total'', [], Whole (send_errors_total m))]"

text \<open>The first argument is the size of the limiter's table and its occupancy at the scrape.\<close>

definition render_rate_limit :: "(nat \<times> nat) option \<Rightarrow> sample list" where
  "render_rate_limit limiter =
     (case limiter of
        None \<Rightarrow> []
      | Some (slots, active) \<Rightarrow>
          [(''dns_ratelimit_slots'', [], Whole (of_nat (min slots (2 ^ 64 - 1)))),
           (''dns_ratelimit_active'', [], Whole (of_nat (min active (2 ^ 64 - 1))))])"

text \<open>The label of a bucket is its bound in seconds; here the nanoseconds stand for it.\<close>

definition render_latency :: "(nat \<Rightarrow> string) \<Rightarrow> metrics \<Rightarrow> sample list" where
  "render_latency seconds m =
     map (\<lambda>(bucket, upper). (''dns_query_duration_seconds_bucket'', [(''le'', seconds upper)], Whole bucket))
       (zip (latency_buckets m) LATENCY_BUCKETS) @
     [(''dns_query_duration_seconds_bucket'', [(''le'', ''+Inf'')], Whole (latency_count m)),
      (''dns_query_duration_seconds_sum'', [], Fraction (unat (latency_sum_micros m)) 1000000),
      (''dns_query_duration_seconds_count'', [], Whole (latency_count m))]"

definition render_prometheus :: "string \<Rightarrow> (nat \<Rightarrow> string) \<Rightarrow> nat \<Rightarrow> (nat \<times> nat) option \<Rightarrow> metrics \<Rightarrow> sample list" where
  "render_prometheus version seconds now limiter m =
     render_info version now m @ render_queries m @ render_rate_limit limiter @ render_latency seconds m"

section \<open>Counters count\<close>

datatype metric_event =
    Ev_query transport | Ev_response response_code | Ev_rate_limited | Ev_send_error | Ev_latency nat

fun apply_event :: "metric_event \<Rightarrow> metrics \<Rightarrow> metrics" where
  "apply_event (Ev_query t) m = query t m"
| "apply_event (Ev_response c) m = response c m"
| "apply_event Ev_rate_limited m = rate_limited m"
| "apply_event Ev_send_error m = send_error m"
| "apply_event (Ev_latency d) m = observe_latency d m"

definition run_events :: "metric_event list \<Rightarrow> metrics \<Rightarrow> metrics" where
  "run_events evs m = fold apply_event evs m"

definition tally :: "(metric_event \<Rightarrow> bool) \<Rightarrow> metric_event list \<Rightarrow> nat" where
  "tally p evs = length (filter p evs)"

definition is_query :: "metric_event \<Rightarrow> bool" where
  "is_query e = (case e of Ev_query _ \<Rightarrow> True | _ \<Rightarrow> False)"

definition is_latency :: "(nat \<Rightarrow> bool) \<Rightarrow> metric_event \<Rightarrow> bool" where
  "is_latency p e = (case e of Ev_latency d \<Rightarrow> p d | _ \<Rightarrow> False)"

definition is_response :: "nat \<Rightarrow> metric_event \<Rightarrow> bool" where
  "is_response i e = (case e of Ev_response c \<Rightarrow> rcode_slot c = i | _ \<Rightarrow> False)"

definition latency_of :: "metric_event \<Rightarrow> nat" where
  "latency_of e = (case e of Ev_latency d \<Rightarrow> micros_u64 d | _ \<Rightarrow> 0)"

lemmas event_preds = is_query_def is_latency_def is_response_def latency_of_def

lemma tally_simps [simp]:
  "tally p [] = 0"
  "tally p (evs @ [e]) = tally p evs + (if p e then 1 else 0)"
  by (simp_all add: tally_def)

lemma tally_Cons: "tally p (e # evs) = (if p e then 1 else 0) + tally p evs"
  by (simp add: tally_def)

lemma tally_le: "(\<And>e. p e \<Longrightarrow> q e) \<Longrightarrow> tally p evs \<le> tally q evs"
  unfolding tally_def by (induction evs) auto

lemma tally_le_length: "tally p evs \<le> length evs"
  by (simp add: tally_def)

lemma run_events_snoc [simp]: "run_events (evs @ [e]) m = apply_event e (run_events evs m)"
  by (simp add: run_events_def)

lemma run_events_Nil [simp]: "run_events [] m = m"
  by (simp add: run_events_def)

lemma rcode_slot_less: "rcode_slot c < 7"
proof (cases "position c (map snd TRACKED_RCODES)")
  case None
  then show ?thesis by (simp add: rcode_slot_def TRACKED_RCODES_def)
next
  case (Some i)
  then show ?thesis using position_Some [OF Some] by (simp add: rcode_slot_def TRACKED_RCODES_def)
qed

lemma rcode_slots: "rcode_slot NoError = 0" "rcode_slot NXDomain = 1" "rcode_slot Refused = 2"
  "rcode_slot ServFail = 3" "rcode_slot FormErr = 4" "rcode_slot NotImp = 5" "rcode_slot BADVERS = 6"
  "rcode_slot (OtherCode k) = 6"
  by (simp_all add: rcode_slot_def TRACKED_RCODES_def)

text \<open>The state after a sequence of events, as the tallies of the events.\<close>

definition counted :: "metric_event list \<Rightarrow> metrics \<Rightarrow> bool" where
  "counted evs m \<longleftrightarrow>
     queries_total m = of_nat (tally is_query evs) \<and>
     queries_udp m = of_nat (tally (\<lambda>e. e = Ev_query Udp) evs) \<and>
     queries_tcp m = of_nat (tally (\<lambda>e. e = Ev_query Tcp) evs) \<and>
     queries_other m = of_nat (tally (\<lambda>e. e = Ev_query OtherTransport) evs) \<and>
     responses m = map (\<lambda>i. of_nat (tally (is_response i) evs)) [0..<7] \<and>
     rate_limited_total m = of_nat (tally (\<lambda>e. e = Ev_rate_limited) evs) \<and>
     send_errors_total m = of_nat (tally (\<lambda>e. e = Ev_send_error) evs) \<and>
     latency_buckets m = map (\<lambda>upper. of_nat (tally (is_latency (\<lambda>d. d \<le> upper)) evs)) LATENCY_BUCKETS \<and>
     latency_count m = of_nat (tally (is_latency (\<lambda>_. True)) evs) \<and>
     latency_sum_micros m = of_nat (sum_list (map latency_of evs))"

lemma counted_new: "counted [] (metrics_new now)"
  by (simp add: counted_def metrics_new_def TRACKED_RCODES_def LATENCY_BUCKETS_def upt_rec)

lemma counted_step: "counted evs m \<Longrightarrow> counted (evs @ [e]) (apply_event e m)"
proof (cases e)
  case (Ev_query t)
  assume "counted evs m"
  then show ?thesis
    using Ev_query by (cases t) (simp_all add: counted_def query_def event_preds)
next
  case (Ev_response c)
  assume c: "counted evs m"
  have "(map f [0..<7])[rcode_slot c := f (rcode_slot c) + 1] =
      map (\<lambda>i. f i + (if rcode_slot c = i then 1 else 0)) [0..<7]" for f :: "nat \<Rightarrow> u64"
    using rcode_slot_less [of c] by (intro nth_equalityI) (auto simp: nth_list_update)
  then show ?thesis
    using c Ev_response rcode_slot_less [of c]
    by (simp add: counted_def response_def Let_def event_preds if_distrib add.commute cong: if_cong)
next
  case (Ev_latency d)
  assume c: "counted evs m"
  have "map (\<lambda>(bucket, upper). if d \<le> upper then bucket + 1 else bucket) (zip (map f us) us) =
      map (\<lambda>upper. f upper + (if d \<le> upper then 1 else 0)) us" for f :: "nat \<Rightarrow> u64" and us
    by (induction us) auto
  then show ?thesis
    using c Ev_latency by (simp add: counted_def observe_latency_def event_preds if_distrib cong: if_cong)
qed (simp_all add: counted_def rate_limited_def send_error_def event_preds)

lemma counted_run: "counted evs (run_events evs (metrics_new now))"
  by (induction evs rule: rev_induct) (simp_all add: counted_new counted_step)

text \<open>C30: whatever sequence of queries, responses, rate-limit refusals, send errors and latencies the
  server records from its start, in whatever order concurrent tasks interleave them, every counter
  is the number of the events it counts modulo \<open>2 ^ 64\<close>: the total and each transport, each tracked
  response code and the remaining ones in the last slot, each latency bucket the events within its
  bound, and the sum the microseconds observed.\<close>

theorem counters_count_events: "counted evs (run_events evs (metrics_new now))"
  by (rule counted_run)

section \<open>The exposition is consistent\<close>

lemma tally_transports:
  "tally is_query evs = tally (\<lambda>e. e = Ev_query Udp) evs + tally (\<lambda>e. e = Ev_query Tcp) evs +
     tally (\<lambda>e. e = Ev_query OtherTransport) evs"
  by (induction evs)
    (auto simp: tally_def is_query_def split: metric_event.splits, metis transport.exhaust)

lemma tally_responses:
  "sum_list (map (\<lambda>i. tally (is_response i) evs) [0..<7]) = tally (\<lambda>e. \<exists>c. e = Ev_response c) evs"
proof (induction evs)
  case (Cons e evs)
  have "sum_list (map (\<lambda>i. if is_response i e then 1 else 0) [0..<7]) = (if \<exists>c. e = Ev_response c then 1 else 0 :: nat)"
  proof (cases e)
    case (Ev_response c)
    have "sum_list (map (\<lambda>i. if i = k then 1 else 0) [0..<7]) = (1 :: nat)" if "k < 7" for k
      using that by (simp add: interv_sum_list_conv_sum_set_nat)
    then show ?thesis using rcode_slot_less [of c] Ev_response by (simp add: is_response_def eq_commute)
  qed (simp_all add: is_response_def)
  then show ?case unfolding tally_Cons sum_list_addf using Cons by simp
qed simp

lemma latency_tally_mono:
  "a \<le> b \<Longrightarrow> tally (is_latency (\<lambda>d. d \<le> a)) evs \<le> tally (is_latency (\<lambda>d. d \<le> b)) evs"
  by (rule tally_le) (auto simp: is_latency_def split: metric_event.splits)

lemma latency_tally_all: "tally (is_latency p) evs \<le> tally (is_latency (\<lambda>_. True)) evs"
  by (rule tally_le) (auto simp: is_latency_def split: metric_event.splits)

lemma unat_tally: "length evs < 2 ^ 64 \<Longrightarrow> unat (of_nat (tally p evs) :: u64) = tally p evs"
  using tally_le_length [of p evs] by (simp add: unat_of_nat)

lemma buckets_sorted: "sorted LATENCY_BUCKETS"
  by (simp add: LATENCY_BUCKETS_def)

text \<open>The exposition of a server that has recorded fewer than \<open>2 ^ 64\<close> events is consistent: the
  transports add up to the total, the response codes to the responses recorded, the latency buckets
  are cumulative and none exceeds the \<open>+Inf\<close> bucket, and the in-flight count the shutdown waits on
  is the number of queries begun and not yet observed as finished.\<close>

lemma exposition_consistent:
  assumes "length evs < 2 ^ 64"
  shows "let m = run_events evs (metrics_new now) in
     unat (queries_total m) = unat (queries_udp m) + unat (queries_tcp m) + unat (queries_other m) \<and>
     sum_list (map unat (responses m)) = tally (\<lambda>e. \<exists>c. e = Ev_response c) evs \<and>
     sorted (map unat (latency_buckets m)) \<and> (\<forall>b \<in> set (latency_buckets m). b \<le> latency_count m) \<and>
     unat (in_flight m) = tally is_query evs - tally (is_latency (\<lambda>_. True)) evs"
proof -
  define m where "m = run_events evs (metrics_new now)"
  note c = counted_run [of evs now, folded m_def, unfolded counted_def]
  note u = unat_tally [OF assms]
  have "sorted (map unat (latency_buckets m))"
    using c u buckets_sorted by (simp add: sorted_iff_nth_mono latency_tally_mono)
  moreover have "\<forall>b \<in> set (latency_buckets m). b \<le> latency_count m"
    using c u by (simp add: word_le_nat_alt latency_tally_all)
  moreover have "sum_list (map unat (responses m)) = tally (\<lambda>e. \<exists>c. e = Ev_response c) evs"
    using c u tally_responses [of evs] by (simp add: comp_def)
  moreover have "unat (queries_total m) = unat (queries_udp m) + unat (queries_tcp m) + unat (queries_other m)"
    using c u by (simp add: tally_transports [symmetric])
  moreover have "unat (in_flight m) = tally is_query evs - tally (is_latency (\<lambda>_. True)) evs"
    using c u by (simp add: in_flight_def saturating_sub_unat)
  ultimately show ?thesis by (simp add: m_def Let_def)
qed

end
