(* ===== verification/Handler.thy ===== *)
theory Handler
  imports Zone_Rules Ratelimit Metrics
begin

text \<open>
  \<^verbatim>\<open>src/handler.rs\<close>: the diagnostic sub-zones, resolution of one question against the zone being
  served, the gates in front of it (rate limiter, message type, op code, EDNS version, question
  count, class, meta types), and the assembly of the response with the EDNS clamp and the
  512-octet limit of plain UDP.

  The version string of the build and the network send are arguments; \<open>send\<close> gives the response
  code that went on the wire, or None when the write failed. The contention the rate limiter meets
  is the argument \<open>outcome\<close>, as in the rate limiter itself. Log lines are not modelled.
\<close>

section \<open>Messages\<close>

datatype protocol = Proto_Udp | Proto_Tcp | Proto_Other

datatype message_type = Msg_Query | Msg_Response

datatype op_code = Op_Query | Op_Other u8

record edns =
  ed_version :: u8
  ed_max_payload :: u16

record lower_query =
  q_name :: name
  q_type :: rtype
  q_class :: u16

abbreviation CLASS_IN :: u16 where "CLASS_IN \<equiv> 1"

record request =
  rq_src :: ip_addr
  rq_protocol :: protocol
  rq_message_type :: message_type
  rq_op_code :: op_code
  rq_edns :: "edns option"
  rq_queries :: "lower_query list"

record dns_response =
  rs_code :: response_code
  rs_authoritative :: bool
  rs_truncation :: bool
  rs_edns :: "edns option"
  rs_queries :: "lower_query list"
  rs_answers :: "dns_record list"
  rs_authority :: "dns_record list"
  rs_additional :: "dns_record list"

definition MIN_EDNS_PAYLOAD :: u16 where "MIN_EDNS_PAYLOAD = 512"
definition MAX_EDNS_PAYLOAD :: u16 where "MAX_EDNS_PAYLOAD = 1232"
definition MAX_UDP_NO_EDNS :: nat where "MAX_UDP_NO_EDNS = 512"
definition MAILB_QTYPE :: rtype where "MAILB_QTYPE = 253"
definition MAILA_QTYPE :: rtype where "MAILA_QTYPE = 254"
definition HEADER_SIZE :: nat where "HEADER_SIZE = 12"
definition QUESTION_FIXED :: nat where "QUESTION_FIXED = 4"
definition RECORD_FIXED :: nat where "RECORD_FIXED = 10"
definition RDATA_BOUND_FALLBACK :: nat where "RDATA_BOUND_FALLBACK = 65535"

lemmas handler_consts = MIN_EDNS_PAYLOAD_def MAX_EDNS_PAYLOAD_def MAX_UDP_NO_EDNS_def MAILB_QTYPE_def
  MAILA_QTYPE_def HEADER_SIZE_def QUESTION_FIXED_def RECORD_FIXED_def RDATA_BOUND_FALLBACK_def

section \<open>The diagnostic sub-zones\<close>

record builtins =
  bi_hello :: name
  bi_counter :: name
  bi_myip :: name
  bi_version :: name
  bi_ttl :: u32

definition builtins_new :: "hickory \<Rightarrow> name \<Rightarrow> u32 \<Rightarrow> builtins option" where
  "builtins_new E origin ttl =
     (let sub = (\<lambda>label. map_option (lower_from E) (name_parse E label origin)) in
      Option.bind (sub ''hello'') (\<lambda>hello. Option.bind (sub ''counter'') (\<lambda>counter.
      Option.bind (sub ''myip'') (\<lambda>myip. Option.bind (sub ''version'') (\<lambda>version.
      Some \<lparr>bi_hello = hello, bi_counter = counter, bi_myip = myip, bi_version = version, bi_ttl = ttl\<rparr>)))))"

record resolved =
  r_code :: response_code
  r_answers :: "dns_record list"
  r_authority :: "dns_record list"
  r_additional :: "dns_record list"
  r_authoritative :: bool

definition found :: "dns_record list \<Rightarrow> resolved" where
  "found answers = \<lparr>r_code = NoError, r_answers = answers, r_authority = [], r_additional = [], r_authoritative = True\<rparr>"

definition negative :: "response_code \<Rightarrow> dns_record \<Rightarrow> resolved" where
  "negative code the_soa = \<lparr>r_code = code, r_answers = [], r_authority = [the_soa], r_additional = [], r_authoritative = True\<rparr>"

definition resolved_referral :: "bool \<Rightarrow> dns_record list \<Rightarrow> dns_record list \<Rightarrow> dns_record list \<Rightarrow> resolved" where
  "resolved_referral aa answers authority additional =
     \<lparr>r_code = NoError, r_answers = answers, r_authority = authority, r_additional = additional, r_authoritative = aa\<rparr>"

definition refused :: resolved where
  "refused = \<lparr>r_code = Refused, r_answers = [], r_authority = [], r_additional = [], r_authoritative = False\<rparr>"

definition resolved_error :: "response_code \<Rightarrow> resolved" where
  "resolved_error code = \<lparr>r_code = code, r_answers = [], r_authority = [], r_additional = [], r_authoritative = False\<rparr>"

lemmas resolved_defs = found_def negative_def resolved_referral_def refused_def resolved_error_def

record active =
  act_zone :: zone
  act_builtins :: "builtins option"

definition active_new :: "hickory \<Rightarrow> zone \<Rightarrow> bool \<Rightarrow> active" where
  "active_new E Z builtins_enabled =
     \<lparr>act_zone = Z, act_builtins = (if builtins_enabled then builtins_new E (lower_origin Z) (default_ttl Z) else None)\<rparr>"

record dns_handler =
  h_active :: active
  h_metrics :: metrics
  h_limiter :: "rate_limiter option"

definition handler_new :: "hickory \<Rightarrow> zone \<Rightarrow> zone_config \<Rightarrow> metrics \<Rightarrow> rate_limiter option \<Rightarrow> dns_handler" where
  "handler_new E Z cfg m limiter =
     \<lparr>h_active = active_new E Z (zc_builtins cfg), h_metrics = m, h_limiter = limiter\<rparr>"

definition replace_zone :: "hickory \<Rightarrow> zone \<Rightarrow> bool \<Rightarrow> dns_handler \<Rightarrow> dns_handler" where
  "replace_zone E Z builtins_enabled h = h\<lparr>h_active := active_new E Z builtins_enabled\<rparr>"

definition handler_zone :: "dns_handler \<Rightarrow> zone" where
  "handler_zone h = act_zone (h_active h)"

definition minimal_any :: "name \<Rightarrow> u32 \<Rightarrow> dns_record" where
  "minimal_any owner ttl = from_rdata owner ttl (RD_HINFO (octets ''RFC8482'') [])"

definition txt_builtin :: "name \<Rightarrow> rtype \<Rightarrow> u32 \<Rightarrow> u8 list \<Rightarrow> dns_record \<Rightarrow> resolved" where
  "txt_builtin qname qtype ttl txt the_soa =
     (if qtype = RT_TXT \<or> qtype = RT_ANY then found [from_rdata qname ttl (RD_TXT [txt])]
      else negative NoError the_soa)"

text \<open>\<^verbatim>\<open>u64::to_string\<close>, as octets.\<close>

function decimal :: "nat \<Rightarrow> u8 list" where
  "decimal n = (if n < 10 then [48 + of_nat n] else decimal (n div 10) @ [48 + of_nat (n mod 10)])"
  by auto
termination by (relation "measure id") auto

declare decimal.simps [simp del]

text \<open>
  \<^verbatim>\<open>String::from_utf8_lossy\<close>: how many octets from the front form a character, or, as Inl, how many
  form the longest prefix of one before the input stops being UTF-8.
\<close>

definition is_cont :: "u8 \<Rightarrow> bool" where
  "is_cont b \<longleftrightarrow> 0x80 \<le> b \<and> b \<le> 0xBF"

definition second_ok :: "u8 \<Rightarrow> u8 \<Rightarrow> bool" where
  "second_ok a b =
     (if a = 0xE0 then 0xA0 \<le> b \<and> b \<le> 0xBF
      else if a = 0xED then 0x80 \<le> b \<and> b \<le> 0x9F
      else if a = 0xF0 then 0x90 \<le> b \<and> b \<le> 0xBF
      else if a = 0xF4 then 0x80 \<le> b \<and> b \<le> 0x8F
      else is_cont b)"

definition char_width :: "u8 \<Rightarrow> nat" where
  "char_width a = (if a < 0x80 then 1 else if 0xC2 \<le> a \<and> a \<le> 0xDF then 2
     else if 0xE0 \<le> a \<and> a \<le> 0xEF then 3 else if 0xF0 \<le> a \<and> a \<le> 0xF4 then 4 else 0)"

fun cont_prefix :: "nat \<Rightarrow> u8 list \<Rightarrow> nat" where
  "cont_prefix (Suc k) (b # bs) = (if is_cont b then Suc (cont_prefix k bs) else 0)"
| "cont_prefix _ _ = 0"

definition utf8_front :: "u8 \<Rightarrow> u8 list \<Rightarrow> nat + nat" where
  "utf8_front a bs =
     (let w = char_width a in
      if w = 0 then Inl 1
      else if w = 1 then Inr 1
      else case bs of
             [] \<Rightarrow> Inl 1
           | b # rest \<Rightarrow>
               if \<not> second_ok a b then Inl 1
               else let k = cont_prefix (w - 2) rest in if k = w - 2 then Inr w else Inl (2 + k))"

definition REPLACEMENT :: "u8 list" where "REPLACEMENT = [0xEF, 0xBF, 0xBD]"

lemma utf8_front_pos: "utf8_front a bs = Inl k \<Longrightarrow> 0 < k" "utf8_front a bs = Inr k \<Longrightarrow> 0 < k"
  by (auto simp: utf8_front_def Let_def char_width_def split: if_splits list.splits)

function utf8_lossy :: "u8 list \<Rightarrow> u8 list" where
  "utf8_lossy [] = []"
| "utf8_lossy (a # bs) =
     (case utf8_front a bs of
        Inr w \<Rightarrow> take w (a # bs) @ utf8_lossy (drop w (a # bs))
      | Inl k \<Rightarrow> REPLACEMENT @ utf8_lossy (drop k (a # bs)))"
  by pat_completeness auto
termination
  by (relation "measure length") (auto dest: utf8_front_pos)

fun join_space :: "u8 list list \<Rightarrow> u8 list" where
  "join_space [] = []"
| "join_space [x] = x"
| "join_space (x # y # xs) = x @ [32] @ join_space (y # xs)"

definition greeting :: "hickory \<Rightarrow> name \<Rightarrow> name \<Rightarrow> u8 list" where
  "greeting E qname hello_zone =
     (let extra = num_labels E qname - num_labels E hello_zone in
      if extra = 0 then octets ''hello, world''
      else octets ''hello, '' @ join_space (map utf8_lossy (take extra qname)))"

definition resolve_builtin :: "hickory \<Rightarrow> u8 list \<Rightarrow> metrics \<Rightarrow> active \<Rightarrow> name \<Rightarrow> rtype \<Rightarrow> ip_addr \<Rightarrow> resolved option" where
  "resolve_builtin E build m a n qtype src =
     (case act_builtins a of
        None \<Rightarrow> None
      | Some b \<Rightarrow>
          let the_soa = soa (act_zone a) in
          if zone_of E (bi_myip b) n then
            (let (rd, wanted) = (case src of V4 v4 \<Rightarrow> (RD_A v4, RT_A) | V6 v6 \<Rightarrow> (RD_AAAA v6, RT_AAAA)) in
             if qtype = wanted \<or> qtype = RT_ANY then Some (found [from_rdata n (bi_ttl b) rd])
             else Some (negative NoError the_soa))
          else if zone_of E (bi_counter b) n then
            Some (txt_builtin n qtype (bi_ttl b) (decimal (unat (queries m))) the_soa)
          else if zone_of E (bi_version b) n then Some (txt_builtin n qtype (bi_ttl b) build the_soa)
          else if zone_of E (bi_hello b) n then Some (txt_builtin n qtype (bi_ttl b) (greeting E n (bi_hello b)) the_soa)
          else None)"

section \<open>Resolution\<close>

definition resolve_any :: "hickory \<Rightarrow> zone \<Rightarrow> name \<Rightarrow> resolved" where
  "resolve_any E Z n =
     (if \<not> zone_exists E Z n then negative NXDomain (soa Z)
      else let answer = lookup E Z n RT_CNAME in
           case answer of
             Referral answers authority additional \<Rightarrow>
               resolved_referral (is_authoritative answer) answers authority additional
           | Records cnames \<Rightarrow>
               if cnames \<noteq> [] then found cnames else found [minimal_any n (default_ttl Z)]
           | _ \<Rightarrow> found [minimal_any n (default_ttl Z)])"

definition resolved_of :: "zone \<Rightarrow> answer \<Rightarrow> resolved" where
  "resolved_of Z answer =
     (case answer of
        Records records \<Rightarrow> if records = [] then negative NoError (soa Z) else found records
      | Referral answers authority additional \<Rightarrow>
          resolved_referral (is_authoritative answer) answers authority additional
      | NoData \<Rightarrow> negative NoError (soa Z)
      | NxDomain \<Rightarrow> negative NXDomain (soa Z))"

definition handler_resolve :: "hickory \<Rightarrow> u8 list \<Rightarrow> dns_handler \<Rightarrow> name \<Rightarrow> rtype \<Rightarrow> ip_addr \<Rightarrow> resolved" where
  "handler_resolve E build h n qtype src =
     (let a = h_active h; Z = act_zone a in
      if \<not> contains E Z n then refused
      else case resolve_builtin E build (h_metrics h) a n qtype src of
             Some r \<Rightarrow> r
           | None \<Rightarrow>
               if qtype = RT_ANY then resolve_any E Z n
               else if qtype = RT_SOA \<and> n = lower_origin Z then found [soa Z]
               else resolved_of Z (lookup E Z n qtype))"

section \<open>The gates\<close>

definition check_limiter :: "request \<Rightarrow> nat \<Rightarrow> (nat \<Rightarrow> u64 option) \<Rightarrow> dns_handler \<Rightarrow> bool \<times> dns_handler" where
  "check_limiter rq now outcome h =
     (case h_limiter h of
        None \<Rightarrow> (True, h)
      | Some L \<Rightarrow>
          (let (admitted, L) = check_at L (rq_src rq) now outcome;
               h = h\<lparr>h_limiter := Some L\<rparr>
           in if admitted then (True, h) else (False, h\<lparr>h_metrics := rate_limited (h_metrics h)\<rparr>)))"

definition gate :: "request \<Rightarrow> resolved + lower_query" where
  "gate rq =
     (if rq_message_type rq \<noteq> Msg_Query then Inl (resolved_error FormErr)
      else if rq_op_code rq \<noteq> Op_Query then Inl (resolved_error NotImp)
      else if is_some_and (rq_edns rq) (\<lambda>e. 0 < ed_version e) then Inl (resolved_error BADVERS)
      else case rq_queries rq of
             [q] \<Rightarrow>
               if q_class q \<noteq> CLASS_IN then Inl refused
               else if q_type q = RT_AXFR \<or> q_type q = RT_IXFR then Inl refused
               else if q_type q = RT_OPT \<or> q_type q = RT_TSIG \<or> q_type q = RT_ZERO then Inl (resolved_error FormErr)
               else if q_type q = MAILB_QTYPE \<or> q_type q = MAILA_QTYPE then Inl (resolved_error NotImp)
               else Inr q
           | _ \<Rightarrow> Inl (resolved_error FormErr))"

definition accept :: "hickory \<Rightarrow> u8 list \<Rightarrow> request \<Rightarrow> dns_handler \<Rightarrow> resolved" where
  "accept E build rq h =
     (case gate rq of Inl r \<Rightarrow> r | Inr q \<Rightarrow> handler_resolve E build h (q_name q) (q_type q) (rq_src rq))"

definition dispatch :: "hickory \<Rightarrow> u8 list \<Rightarrow> request \<Rightarrow> nat \<Rightarrow> (nat \<Rightarrow> u64 option) \<Rightarrow> dns_handler
    \<Rightarrow> resolved option \<times> dns_handler" where
  "dispatch E build rq now outcome h =
     (let (admitted, h) = check_limiter rq now outcome h in
      if \<not> admitted then (if rq_protocol rq = Proto_Udp then (None, h) else (Some refused, h))
      else (Some (accept E build rq h), h))"

section \<open>Sizes\<close>

definition rdata_size_bound :: "hickory \<Rightarrow> rdata \<Rightarrow> nat" where
  "rdata_size_bound E rd =
     (case rd of
        RD_A _ \<Rightarrow> 4
      | RD_AAAA _ \<Rightarrow> 16
      | RD_NS n \<Rightarrow> name_len E n + 1
      | RD_CNAME n \<Rightarrow> name_len E n + 1
      | RD_PTR n \<Rightarrow> name_len E n + 1
      | RD_MX _ n \<Rightarrow> 2 + name_len E n + 1
      | RD_SRV _ _ _ n \<Rightarrow> 6 + name_len E n + 1
      | RD_SOA mn rn _ _ _ _ _ \<Rightarrow> name_len E mn + 1 + name_len E rn + 1 + 20
      | RD_TXT strs \<Rightarrow> sum_list (map (\<lambda>s. length s + 1) strs)
      | RD_HINFO cpu os \<Rightarrow> length cpu + 1 + length os + 1
      | RD_OTHER _ _ \<Rightarrow> unwrap_or RDATA_BOUND_FALLBACK (rdata_wire_len E rd))"

definition record_size_bound :: "hickory \<Rightarrow> dns_record \<Rightarrow> nat" where
  "record_size_bound E r = name_len E (rec_name r) + 1 + RECORD_FIXED + rdata_size_bound E (rec_data r)"

definition response_size_bound :: "hickory \<Rightarrow> request \<Rightarrow> resolved \<Rightarrow> nat" where
  "response_size_bound E rq r =
     (let question = (case rq_queries rq of [] \<Rightarrow> 0 | q # _ \<Rightarrow> name_len E (q_name q) + 1 + QUESTION_FIXED)
      in HEADER_SIZE + question + sum_list (map (record_size_bound E) (r_answers r @ r_authority r @ r_additional r)))"

section \<open>Handling a request\<close>

definition transport_of :: "protocol \<Rightarrow> transport" where
  "transport_of p = (case p of Proto_Udp \<Rightarrow> Udp | Proto_Tcp \<Rightarrow> Tcp | Proto_Other \<Rightarrow> OtherTransport)"

definition response_edns :: "request \<Rightarrow> edns option" where
  "response_edns rq = map_option (\<lambda>e.
     \<lparr>ed_version = 0, ed_max_payload = clamp_word MIN_EDNS_PAYLOAD MAX_EDNS_PAYLOAD (ed_max_payload e)\<rparr>) (rq_edns rq)"

definition build_response :: "hickory \<Rightarrow> request \<Rightarrow> resolved \<Rightarrow> dns_response" where
  "build_response E rq r =
     (let resp_edns = response_edns rq;
          truncated = (rq_protocol rq = Proto_Udp \<and> resp_edns = None \<and> MAX_UDP_NO_EDNS < response_size_bound E rq r);
          r = (if truncated then r\<lparr>r_answers := [], r_authority := [], r_additional := []\<rparr> else r)
      in \<lparr>rs_code = r_code r, rs_authoritative = r_authoritative r, rs_truncation = truncated, rs_edns = resp_edns,
          rs_queries = rq_queries rq, rs_answers = r_answers r, rs_authority = r_authority r, rs_additional = r_additional r\<rparr>)"

record handled =
  hd_sent :: "dns_response option"
  hd_info :: response_code
  hd_handler :: dns_handler

definition handle_request :: "hickory \<Rightarrow> u8 list \<Rightarrow> (dns_response \<Rightarrow> response_code option) \<Rightarrow> nat \<Rightarrow> (nat \<Rightarrow> u64 option)
    \<Rightarrow> nat \<Rightarrow> request \<Rightarrow> dns_handler \<Rightarrow> handled" where
  "handle_request E build send now outcome elapsed rq h =
     (let h = h\<lparr>h_metrics := query (transport_of (rq_protocol rq)) (h_metrics h)\<rparr> in
      case dispatch E build rq now outcome h of
        (None, h) \<Rightarrow>
          \<lparr>hd_sent = None, hd_info = Refused, hd_handler = h\<lparr>h_metrics := observe_latency elapsed (h_metrics h)\<rparr>\<rparr>
      | (Some r, h) \<Rightarrow>
          (let resp = build_response E rq r;
               code = send resp;
               m = response (unwrap_or ServFail code) (observe_latency elapsed (h_metrics h))
           in case code of
                Some c \<Rightarrow> \<lparr>hd_sent = Some resp, hd_info = c, hd_handler = h\<lparr>h_metrics := m\<rparr>\<rparr>
              | None \<Rightarrow> \<lparr>hd_sent = Some resp, hd_info = ServFail, hd_handler = h\<lparr>h_metrics := send_error m\<rparr>\<rparr>))"

section \<open>Referrals of the reference algorithm\<close>


lemma spec_resolve_grows: "length out \<le> length (snd (spec_resolve Z n t depth out))"
proof (induction "8 - depth" arbitrary: n depth out rule: less_induct)
  case less
  have IH: "length o1 \<le> length o2" if "spec_resolve Z m t (Suc depth) o1 = (r, o2)" "\<not> 8 \<le> depth" for m o1 o2 r
    using less.hyps [of "Suc depth" o1 m] that by simp
  show ?case
    by (subst spec_resolve.simps)
      (auto simp: Let_def dest!: IH split: option.split list.split rdata.split prod.split resolution.split)
qed

lemma records_at_nonempty:
  assumes "sets_ok Z" and "nd \<in> set (nodes Z)" and "sets_at Z nd t \<noteq> []"
  shows "records_at Z nd t ow \<noteq> []"
proof -
  from assms(1,2) obtain rs where rs: "span_get (rrsets Z) (node_rrsets nd) = Some rs"
    "\<forall>r \<in> set rs. \<exists>vs. span_get (rdatas Z) (rr_rdata r) = Some vs \<and> vs \<noteq> []"
    by (force simp: sets_ok_def)
  from assms(3) obtain r where r: "r \<in> set (sets_at Z nd t)" by (meson list.set_sel(1))
  then have "r \<in> set rs" using rs(1) by (simp add: sets_at_def)
  then have "values_of Z r \<noteq> []" using rs(2) by (auto simp: values_of_def)
  then show ?thesis using r by (auto simp: records_at_def)
qed

lemma spec_referral_uncut:
  assumes "sets_ok Z" and "governing_cut Z n = None" and "spec_resolve Z n t 0 [] = (Res_Referral c, out)"
  shows "out \<noteq> []"
proof -
  have "suffix (lower_origin Z) n" using assms(3) by (rule_tac ccontr) (simp add: spec_resolve.simps [of Z n])
  obtain i where i: "node_named Z n = Some i"
    using assms(2,3) by (cases "node_named Z n") (auto simp: spec_resolve.simps [of Z n] Let_def split: if_splits option.splits)
  let ?nd = "nodes Z ! i"
  have "?nd \<in> set (nodes Z)" using node_named_Some [OF i] by simp
  note ne = records_at_nonempty [OF assms(1) this, of RT_CNAME "node_name ?nd"]
  have grow: "length out1 \<le> length out2" if "spec_resolve Z m t (Suc 0) out1 = (r, out2)" for m r out1 out2
    using spec_resolve_grows [of out1 Z m t "Suc 0"] that by simp
  show ?thesis
    using assms(2,3) i ne by (auto simp: spec_resolve.simps [of Z n t 0] Let_def dest!: grow
        split: if_splits list.splits rdata.splits prod.splits resolution.splits)
qed


section \<open>What the zone promises the handler\<close>

text \<open>
  The laws of \<^verbatim>\<open>Zone::exists\<close> and \<^verbatim>\<open>Zone::lookup\<close> the handler relies on, for a zone and a
  name inside it: a name under a cut is answered with a referral, elsewhere existence is what
  separates the name error from every other answer and does not depend on the type, and a
  referral below no cut comes with the aliases that led to it.
\<close>

locale zone_store =
  fixes good :: "'z \<Rightarrow> name \<Rightarrow> bool" and below_cut :: "'z \<Rightarrow> name \<Rightarrow> bool"
    and exist :: "'z \<Rightarrow> name \<Rightarrow> bool" and look :: "'z \<Rightarrow> name \<Rightarrow> rtype \<Rightarrow> answer"
  assumes cut_referral: "good z n \<Longrightarrow> below_cut z n \<Longrightarrow> \<exists>au ad. look z n t = Referral [] au ad"
    and exist_iff: "good z n \<Longrightarrow> \<not> below_cut z n \<Longrightarrow> exist z n \<longleftrightarrow> look z n t \<noteq> NxDomain"
    and uncut_referral: "good z n \<Longrightarrow> \<not> below_cut z n \<Longrightarrow> look z n t = Referral as au ad \<Longrightarrow> as \<noteq> []"
begin

lemma authoritative_iff: "good z n \<Longrightarrow> is_authoritative (look z n t) \<longleftrightarrow> \<not> below_cut z n"
  using cut_referral [of z n t] uncut_referral [of z n t]
  by (cases "look z n t"; cases "below_cut z n") (auto simp: is_authoritative_def)

lemma denial_type_independent: "good z n \<Longrightarrow> look z n t = NxDomain \<longleftrightarrow> look z n t' = NxDomain"
  using cut_referral [of z n t] cut_referral [of z n t'] exist_iff [of z n t] exist_iff [of z n t'] by force

lemma never_denied_below_cut: "good z n \<Longrightarrow> below_cut z n \<Longrightarrow> look z n t \<noteq> NxDomain"
  using cut_referral [of z n t] by force

end

definition served_query :: "hickory \<times> zone \<Rightarrow> name \<Rightarrow> bool" where
  "served_query EZ n \<longleftrightarrow> hickory_ok (fst EZ) \<and> zone_ok (snd EZ) \<and> targets_ok (snd EZ) \<and> is_lower n \<and> length n \<le> 127 \<and>
     suffix (lower_origin (snd EZ)) n"

lemma served_lookup: "served_query (E, Z) n \<Longrightarrow> lookup E Z n t = spec_lookup Z n t"
  by (rule lookup_refines) (simp_all add: served_query_def)

interpretation served: zone_store served_query "\<lambda>EZ n. governing_cut (snd EZ) n \<noteq> None"
  "\<lambda>EZ. zone_exists (fst EZ) (snd EZ)" "\<lambda>EZ. lookup (fst EZ) (snd EZ)"
proof
  fix EZ n t
  assume g: "served_query EZ n"
  then have l: "lookup (fst EZ) (snd EZ) n t = spec_lookup (snd EZ) n t" using served_lookup [of "fst EZ" "snd EZ"] by simp
  show "\<exists>au ad. lookup (fst EZ) (snd EZ) n t = Referral [] au ad" if "governing_cut (snd EZ) n \<noteq> None"
    using that g unfolding l by (auto simp: spec_lookup_def spec_resolve.simps [of "snd EZ" n t 0] served_query_def)
  show "zone_exists (fst EZ) (snd EZ) n \<longleftrightarrow> lookup (fst EZ) (snd EZ) n t \<noteq> NxDomain" if "\<not> governing_cut (snd EZ) n \<noteq> None"
    using that g zone_exists_iff [of "fst EZ" "snd EZ" n]
    unfolding l by (simp add: served_query_def spec_lookup_NxDomain name_error_def)
  show "as \<noteq> []" if "\<not> governing_cut (snd EZ) n \<noteq> None" "lookup (fst EZ) (snd EZ) n t = Referral as au ad" for as au ad
    using that g spec_referral_uncut [of "snd EZ" n t] unfolding l
    by (auto simp: spec_lookup_def served_query_def zone_ok_def split: prod.splits resolution.splits)
qed

end
