(* ===== verification/Handler_Theorems.thy ===== *)
theory Handler_Theorems
  imports Handler
begin

text \<open>
  What the handler sends: the answer of the reference algorithm with the AA bit and SOA the
  protocol asks for, ANY answered like the other types outside delegated subtrees, no plain UDP
  response above 512 octets, EDNS mirrored within its clamp, silence only for rate-limited UDP,
  and every request accounted for in the counters.
\<close>

section \<open>Answers\<close>

lemma from_config_served:
  assumes "hickory_ok E" and "iter_ok iter" and "from_config E iter seed cfg = Inr Z"
    and "is_lower n" and "length n \<le> 127" and "suffix (lower_origin Z) n"
  shows "served_query (E, Z) n"
proof -
  from from_config_built [OF assms(1-3)] obtain lower es order where bu: "built E lower es order Z" by blast
  then show ?thesis
    using built_zone_ok [OF bu] built_targets_ok [OF bu] assms by (simp add: served_query_def)
qed

lemma from_config_contains:
  assumes "hickory_ok E" and "iter_ok iter" and "from_config E iter seed cfg = Inr Z" and "is_lower n"
  shows "contains E Z n \<longleftrightarrow> suffix (lower_origin Z) n"
proof -
  from from_config_built [OF assms(1-3)] obtain lower es order where bu: "built E lower es order Z" by blast
  then show ?thesis using contains_eq [OF assms(1) built_zone_ok [OF bu] assms(4)] by simp
qed

lemma resolved_of_NXDomain: "r_code (resolved_of Z a) = NXDomain \<longleftrightarrow> a = NxDomain"
  by (cases a) (auto simp: resolved_of_def resolved_defs)

lemma apex_uncut:
  assumes "hickory_ok E" and "iter_ok iter" and "from_config E iter seed cfg = Inr Z"
  shows "governing_cut Z (lower_origin Z) = None" and "node_named Z (lower_origin Z) \<noteq> None"
proof -
  from from_config_built [OF assms] obtain lower es order where bu: "built E lower es order Z" by blast
  note b = built_facts [OF bu]
  have "ranked es order ! 0 = lower" "0 < length es" using b(1,3) by (auto simp: order_ok_def closed_entries_def has_key_def)
  then show "governing_cut Z (lower_origin Z) = None"
    using cut_by_origin [OF b(3,2)] built_governing_cut [OF bu] b(5) by simp
  show "node_named Z (lower_origin Z) \<noteq> None" using origin_named built_zone_ok [OF bu] by (simp add: zone_ok_def)
qed

text \<open>
  The reference answer to a question inside the zone, from the owner names: the apex SOA, the answer
  of the reference lookup, and for ANY a name error, the CNAME the name holds or one synthesised HINFO,
  or the referral that governs the name.
\<close>

definition spec_exists :: "zone \<Rightarrow> name \<Rightarrow> bool" where
  "spec_exists Z n \<longleftrightarrow> node_named Z n \<noteq> None \<or> wildcard_source Z n \<noteq> None"

definition spec_any :: "zone \<Rightarrow> name \<Rightarrow> resolved" where
  "spec_any Z n =
     (case spec_lookup Z n RT_CNAME of
        NxDomain \<Rightarrow> negative NXDomain (soa Z)
      | Referral as au ad \<Rightarrow> resolved_referral (as \<noteq> []) as au ad
      | Records rs \<Rightarrow> found (if rs = [] then [minimal_any n (default_ttl Z)] else rs)
      | NoData \<Rightarrow> found [minimal_any n (default_ttl Z)])"

definition spec_handler :: "zone \<Rightarrow> name \<Rightarrow> rtype \<Rightarrow> resolved" where
  "spec_handler Z n t =
     (if t = RT_ANY then spec_any Z n
      else if t = RT_SOA \<and> n = lower_origin Z then found [soa Z]
      else resolved_of Z (spec_lookup Z n t))"

lemma resolve_any_reference:
  assumes g: "served_query (E, Z) n" and "governing_cut Z n = None \<or> spec_exists Z n"
  shows "resolve_any E Z n = spec_any Z n"
proof -
  have ex: "zone_exists E Z n \<longleftrightarrow> spec_exists Z n"
    using zone_exists_iff [of E Z n] g by (simp add: served_query_def spec_exists_def)
  have nx: "spec_lookup Z n RT_CNAME = NxDomain \<longleftrightarrow> \<not> spec_exists Z n"
    using g assms(2) unfolding spec_lookup_NxDomain by (auto simp: name_error_def served_query_def spec_exists_def)
  show ?thesis
    using nx unfolding resolve_any_def spec_any_def ex served_lookup [OF g] Let_def
    by (auto simp: is_authoritative_def split: answer.split)
qed

text \<open>What the protocol asks of a reference answer.\<close>

lemma spec_handler_protocol:
  assumes g: "served_query (E, Z) n" and apex: "governing_cut Z (lower_origin Z) = None" "node_named Z (lower_origin Z) \<noteq> None"
  fixes t
  defines "r \<equiv> spec_handler Z n t"
  shows "r_authoritative r = (governing_cut Z n = None)"
    and "governing_cut Z n \<noteq> None \<Longrightarrow> r_code r = NoError \<and> r_answers r = []"
    and "r_code r = NXDomain \<longleftrightarrow> name_error Z n"
    and "governing_cut Z n = None \<Longrightarrow> r_answers r = [] \<Longrightarrow> r_authority r = [soa Z]"
proof -
  have ne: "\<not> name_error Z (lower_origin Z)" using apex(2) by (simp add: name_error_def)
  have aa: "is_authoritative (spec_lookup Z n t) \<longleftrightarrow> governing_cut Z n = None" for t
    using served.authoritative_iff [OF g, of t] served_lookup [OF g] by simp
  have ref: "as \<noteq> []" if "governing_cut Z n = None" "spec_lookup Z n t = Referral as au ad" for as au ad t
    using served.uncut_referral [OF g, of t] that served_lookup [OF g] by simp
  have cut: "\<exists>au ad. spec_lookup Z n t = Referral [] au ad" if "governing_cut Z n \<noteq> None" for t
    using served.cut_referral [OF g, of t] that served_lookup [OF g] by simp
  show "r_authoritative r = (governing_cut Z n = None)"
    using aa [of t] aa [of RT_CNAME] cut [of t] cut [of RT_CNAME] apex(1)
    by (auto simp: r_def spec_handler_def spec_any_def resolved_of_def resolved_defs is_authoritative_def split: answer.splits)
  show "r_code r = NoError \<and> r_answers r = []" if "governing_cut Z n \<noteq> None"
    using cut [OF that, of t] cut [OF that, of RT_CNAME] that apex(1)
    by (auto simp: r_def spec_handler_def spec_any_def resolved_of_def resolved_defs)
  show "r_code r = NXDomain \<longleftrightarrow> name_error Z n"
    using ne spec_lookup_NxDomain [of Z n]
    by (auto simp: r_def spec_handler_def spec_any_def resolved_of_NXDomain resolved_defs split: answer.splits)
  show "r_authority r = [soa Z]" if "governing_cut Z n = None" "r_answers r = []"
    using ref [OF that(1), of t] ref [OF that(1), of RT_CNAME] that(2)
    by (auto simp: r_def spec_handler_def spec_any_def resolved_of_def resolved_defs split: answer.splits if_splits)
qed

text \<open>C25: every question the handler resolves is answered as the reference on owner names answers it, QTYPE=ANY and
  the apex SOA included. Outside the zone the answer is REFUSED, and a name of the diagnostic sub-zones is answered by
  them. For every other name inside the zone the answer is \<open>spec_handler\<close>: under a delegation a referral without
  answers and without AA; elsewhere AA is set, NXDOMAIN is answered exactly for a name error, and every answer without
  records carries the SOA of the zone as its only authority record. One case departs from it: ANY for a
  name below a delegation at which the zone has no node and no wildcard is answered NXDOMAIN with AA.\<close>

theorem handler_answers_reference:
  assumes "hickory_ok E" and "iter_ok iter" and "from_config E iter seed cfg = Inr (act_zone (h_active h))"
    and "is_lower n" and "length n \<le> 127"
  shows "let Z = act_zone (h_active h); r = handler_resolve E build h n t src in
     if \<not> suffix (lower_origin Z) n then r = refused
     else case resolve_builtin E build (h_metrics h) (h_active h) n t src of
            Some b \<Rightarrow> r = b
          | None \<Rightarrow>
              if t = RT_ANY \<and> governing_cut Z n \<noteq> None \<and> \<not> spec_exists Z n then r = negative NXDomain (soa Z)
              else r = spec_handler Z n t \<and>
                r_authoritative r = (governing_cut Z n = None) \<and>
                (governing_cut Z n \<noteq> None \<longrightarrow> r_code r = NoError \<and> r_answers r = []) \<and>
                (r_code r = NXDomain \<longleftrightarrow> name_error Z n) \<and>
                (governing_cut Z n = None \<and> r_answers r = [] \<longrightarrow> r_authority r = [soa Z])"
proof -
  define Z where "Z = act_zone (h_active h)"
  define r where "r = handler_resolve E build h n t src"
  note c = from_config_contains [OF assms(1-4), folded Z_def]
  show ?thesis
  proof (cases "suffix (lower_origin Z) n")
    case False
    then have "r = refused" using c by (simp add: r_def handler_resolve_def Z_def [symmetric])
    then show ?thesis using False by (simp add: Let_def Z_def r_def)
  next
    case True
    have g: "served_query (E, Z) n" using from_config_served [OF assms(1-5)] True by (simp add: Z_def)
    note p = spec_handler_protocol [OF g apex_uncut [OF assms(1-3), folded Z_def], of t]
    show ?thesis
    proof (cases "resolve_builtin E build (h_metrics h) (h_active h) n t src")
      case None
      have ex: "zone_exists E Z n \<longleftrightarrow> spec_exists Z n"
        using zone_exists_iff [of E Z n] g by (simp add: served_query_def spec_exists_def)
      have r: "r = (if t = RT_ANY then resolve_any E Z n else spec_handler Z n t)"
        using True c None served_lookup [OF g] by (simp add: r_def handler_resolve_def Let_def Z_def [symmetric] spec_handler_def)
      show ?thesis
      proof (cases "t = RT_ANY \<and> governing_cut Z n \<noteq> None \<and> \<not> spec_exists Z n")
        case denied: True
        then have "r = negative NXDomain (soa Z)" using r ex by (simp add: resolve_any_def)
        then show ?thesis using True None denied unfolding Let_def Z_def [symmetric] r_def [symmetric] by simp
      next
        case False
        then have "r = spec_handler Z n t"
          using r resolve_any_reference [OF g] by (auto simp: spec_handler_def)
        then show ?thesis using True None False p by (simp only: Let_def Z_def [symmetric] r_def [symmetric]) simp
      qed
    qed (use True c in \<open>simp add: Let_def Z_def [symmetric] r_def [symmetric]\<close>, simp add: r_def handler_resolve_def Let_def Z_def [symmetric])
  qed
qed

definition demo_handler :: dns_handler where
  "demo_handler = handler_new demo_hickory demo_zone demo_zone_config (metrics_new 0) None"

lemma demo_handler_zone: "act_zone (h_active demo_handler) = demo_zone" "act_builtins (h_active demo_handler) = None"
  by (simp_all add: demo_handler_def handler_new_def active_new_def demo_zone_config_def)

lemma demo_handler_built:
  "from_config demo_hickory (\<lambda>es. es) 7 demo_zone_config = Inr (act_zone (h_active demo_handler))"
  using demo_zone_builds by (simp add: demo_handler_zone)

lemma demo_no_builtin: "resolve_builtin demo_hickory build m (h_active demo_handler) n t src = None"
  by (simp add: resolve_builtin_def demo_handler_zone)

lemma demo_zone_origin: "lower_origin demo_zone = [octets ''ex'']"
  by (rule demo_built) (rule built_facts(5))

theorem handler_answers_reference_witness:
  "handler_resolve demo_hickory [] demo_handler [octets ''x'', octets ''w'', octets ''ex''] RT_A (V4 0) =
     resolved_of demo_zone (spec_lookup demo_zone [octets ''x'', octets ''w'', octets ''ex''] RT_A)"
proof -
  have len: "length [octets ''x'', octets ''w'', octets ''ex''] \<le> 127" by simp
  have "suffix [octets ''ex''] [octets ''x'', octets ''w'', octets ''ex'']" by (simp add: suffix_Cons)
  then show ?thesis
    using handler_answers_reference [OF demo_hickory_ok iter_id demo_handler_built demo_names(1) len, of "[]" RT_A "V4 0"]
    by (simp add: Let_def demo_handler_zone demo_zone_origin demo_no_builtin spec_handler_def)
qed

section \<open>ANY\<close>

text \<open>Outside delegated subtrees QTYPE=ANY gets the same existence verdict as every other type: it is
  answered NXDOMAIN exactly when the name is a name error. It never enumerates the node: a positive
  answer is the CNAME records at the name or one synthesised HINFO.\<close>

lemma any_agrees_outside_cuts:
  assumes "hickory_ok E" and "iter_ok iter" and "from_config E iter seed cfg = Inr (act_zone (h_active h))"
    and "is_lower n" and "length n \<le> 127" and "suffix (lower_origin (act_zone (h_active h))) n"
    and "resolve_builtin E build (h_metrics h) (h_active h) n RT_ANY src = None"
    and "governing_cut (act_zone (h_active h)) n = None"
  shows "let Z = act_zone (h_active h); r = handler_resolve E build h n RT_ANY src in
     (r_code r = NXDomain \<longleftrightarrow> name_error Z n) \<and> r_authoritative r \<and>
     (\<not> name_error Z n \<longrightarrow> r_answers r = [minimal_any n (default_ttl Z)] \<or>
        (\<exists>au ad. lookup E Z n RT_CNAME = Records (r_answers r) \<or> lookup E Z n RT_CNAME = Referral (r_answers r) au ad))"
proof -
  define Z where "Z = act_zone (h_active h)"
  have g: "served_query (E, Z) n" using from_config_served [OF assms(1-6)] by (simp add: Z_def)
  have r: "handler_resolve E build h n RT_ANY src = resolve_any E Z n"
    using from_config_contains [OF assms(1-4)] assms(6,7) by (simp add: handler_resolve_def Let_def Z_def)
  have nc: "governing_cut Z n = None" using assms(8) by (simp add: Z_def)
  have ne: "zone_exists E Z n \<longleftrightarrow> \<not> name_error Z n"
    using served.exist_iff [OF g, of RT_CNAME] served_lookup [OF g, of RT_CNAME] nc by (simp add: spec_lookup_NxDomain)
  have aa: "is_authoritative (lookup E Z n RT_CNAME)" using served.authoritative_iff [OF g, of RT_CNAME] nc by simp
  show ?thesis
    using ne aa unfolding Let_def Z_def [symmetric] r
    by (auto simp: resolve_any_def resolved_defs Let_def split: answer.split)
qed

text \<open>Inside a delegated subtree QTYPE=ANY does not follow the other types. A name below a cut that is
  neither a node nor covered by a wildcard is answered NXDOMAIN with AA for ANY, while every other type is
  answered with the referral: the existence test for ANY comes before the cut is looked at.\<close>

lemma any_below_cut_denied:
  assumes "hickory_ok E" and "iter_ok iter" and "from_config E iter seed cfg = Inr (act_zone (h_active h))"
    and "is_lower n" and "length n \<le> 127" and "suffix (lower_origin (act_zone (h_active h))) n"
    and "act_builtins (h_active h) = None"
    and "governing_cut (act_zone (h_active h)) n \<noteq> None" and "\<not> zone_exists E (act_zone (h_active h)) n"
  shows "handler_resolve E build h n RT_ANY src = negative NXDomain (soa (act_zone (h_active h))) \<and>
     (\<forall>t. t \<noteq> RT_ANY \<and> t \<noteq> RT_SOA \<longrightarrow> r_code (handler_resolve E build h n t src) = NoError \<and>
        \<not> r_authoritative (handler_resolve E build h n t src))"
proof -
  define Z where "Z = act_zone (h_active h)"
  have g: "served_query (E, Z) n" using from_config_served [OF assms(1-6)] by (simp add: Z_def)
  have b: "resolve_builtin E build (h_metrics h) (h_active h) n t src = None" for t
    using assms(7) by (simp add: resolve_builtin_def)
  have c: "contains E Z n" using from_config_contains [OF assms(1-4)] assms(6) by (simp add: Z_def)
  have "handler_resolve E build h n RT_ANY src = negative NXDomain (soa Z)"
    using b c assms(9) by (simp add: handler_resolve_def Let_def Z_def [symmetric] resolve_any_def)
  moreover have "r_code (handler_resolve E build h n t src) = NoError \<and> \<not> r_authoritative (handler_resolve E build h n t src)"
    if t: "t \<noteq> RT_ANY" "t \<noteq> RT_SOA" for t
  proof -
    obtain au ad where "lookup E Z n t = Referral [] au ad"
      using served.cut_referral [OF g, of t] assms(8) by (auto simp: Z_def)
    then show ?thesis
      using b c t by (simp add: handler_resolve_def Let_def Z_def [symmetric] resolved_of_def resolved_defs is_authoritative_def)
  qed
  ultimately show ?thesis by (simp add: Z_def)
qed

lemma demo_owner_names: "set (owner_names demo_zone) \<subseteq> {[octets ''ex''], [octets ''w'', octets ''ex''],
   [[42], octets ''w'', octets ''ex''], [octets ''sub'', octets ''ex''], [octets ''g'', octets ''sub'', octets ''ex'']}"
proof
  fix n
  assume "n \<in> set (owner_names demo_zone)"
  then have n: "suffix [octets ''ex''] n" "n = [octets ''ex''] \<or> (\<exists>s \<in> set (zc_records demo_zone_config). \<exists>k.
      spec_owner demo_hickory [octets ''ex''] s = Some k \<and> suffix n k)"
    unfolding from_config_names [OF demo_zone_facts demo_origin] demo_lower by auto
  have "map (spec_owner demo_hickory [octets ''ex'']) (zc_records demo_zone_config) =
    [Some [octets ''ex''], Some [[42], octets ''w'', octets ''ex''], Some [octets ''sub'', octets ''ex''],
     Some [octets ''g'', octets ''sub'', octets ''ex'']]" by code_simp
  then have "spec_owner demo_hickory [octets ''ex''] s \<in> {Some [octets ''ex''], Some [[42], octets ''w'', octets ''ex''],
      Some [octets ''sub'', octets ''ex''], Some [octets ''g'', octets ''sub'', octets ''ex'']}"
    if "s \<in> set (zc_records demo_zone_config)" for s
    using that by (metis (no_types, lifting) image_eqI list.set_map list.simps(15) empty_set)
  then show "n \<in> {[octets ''ex''], [octets ''w'', octets ''ex''],
   [[42], octets ''w'', octets ''ex''], [octets ''sub'', octets ''ex''], [octets ''g'', octets ''sub'', octets ''ex'']}"
    using n by (fastforce simp: suffix_Cons)
qed

lemma demo_name_absent: "\<not> zone_exists demo_hickory demo_zone [octets ''q'', octets ''sub'', octets ''ex'']"
proof -
  let ?n = "[octets ''q'', octets ''sub'', octets ''ex'']"
  have ne: "octets ''q'' \<noteq> octets ''w''" "octets ''q'' \<noteq> octets ''g''" "octets ''q'' \<noteq> [42]" "octets ''sub'' \<noteq> octets ''w''"
    "octets ''ex'' \<noteq> octets ''w''" "[42] \<noteq> octets ''ex''" "[42] \<noteq> octets ''w''" "[42] \<noteq> octets ''sub''" "[42] \<noteq> octets ''g''" by code_simp+
  obtain es order where bu: "built demo_hickory [octets ''ex''] es order demo_zone" by (rule demo_built)
  have o: "lower_origin demo_zone = [octets ''ex'']" by (rule built_facts(5) [OF bu])
  have "node_named demo_zone ?n = None"
    unfolding node_named_None using demo_owner_names ne by auto
  moreover have "node_named demo_zone (WILDCARD_LABEL # nearest_encloser demo_zone ?n) = None"
  proof -
    have "[42] # p \<notin> set (owner_names demo_zone)" if "p \<noteq> [octets ''w'', octets ''ex'']" for p
      using demo_owner_names ne that by auto
    moreover have "nearest_encloser demo_zone ?n \<noteq> [octets ''w'', octets ''ex'']" using ne by simp
    ultimately show ?thesis by (simp add: node_named_None WILDCARD_LABEL_def)
  qed
  then have "wildcard_source demo_zone ?n = None" by (simp add: wildcard_source_def)
  ultimately show ?thesis
    using zone_exists_iff [OF demo_hickory_ok built_zone_ok [OF bu] demo_names(2)] by (simp add: o suffix_Cons)
qed

lemma demo_name_cut: "governing_cut demo_zone [octets ''q'', octets ''sub'', octets ''ex''] \<noteq> None"
proof (rule from_config_view [OF demo_zone_facts demo_origin])
  fix es order
  assume bu: "built demo_hickory (lower_name [octets ''ex'']) es order demo_zone"
    and rec: "\<And>k t. run_records t (runs_at es k) = declared demo_hickory [octets ''ex''] (zc_default_ttl demo_zone_config)
      (zc_records demo_zone_config) k t"
  have d: "declared demo_hickory [octets ''ex''] (zc_default_ttl demo_zone_config) (zc_records demo_zone_config)
      [octets ''sub'', octets ''ex''] RT_NS \<noteq> []" by code_simp
  obtain i where "governing_cut demo_zone [octets ''sub'', octets ''ex''] = Some i"
    by (rule declared_cut [OF bu rec d]) simp_all
  then show ?thesis using governing_cut_above [of demo_zone 1 "[octets ''q'', octets ''sub'', octets ''ex'']"] by simp
qed

lemma any_below_cut_example:
  "handler_resolve demo_hickory [] demo_handler [octets ''q'', octets ''sub'', octets ''ex''] RT_ANY (V4 0) =
     negative NXDomain (soa demo_zone)"
proof -
  have len: "length [octets ''q'', octets ''sub'', octets ''ex''] \<le> 127" by simp
  have suf: "suffix (lower_origin (act_zone (h_active demo_handler))) [octets ''q'', octets ''sub'', octets ''ex'']"
    by (simp add: demo_handler_zone demo_zone_origin suffix_Cons)
  have cut: "governing_cut (act_zone (h_active demo_handler)) [octets ''q'', octets ''sub'', octets ''ex''] \<noteq> None"
    "\<not> zone_exists demo_hickory (act_zone (h_active demo_handler)) [octets ''q'', octets ''sub'', octets ''ex'']"
    using demo_name_cut demo_name_absent by (simp_all add: demo_handler_zone)
  show ?thesis
    using any_below_cut_denied [OF demo_hickory_ok iter_id demo_handler_built demo_names(2) len suf demo_handler_zone(2) cut, of "[]" "V4 0"]
    unfolding demo_handler_zone by blast
qed


section \<open>Zone cuts\<close>

text \<open>\<^verbatim>\<open>Zone::lookup\<close> answers nothing at or below a zone cut from the answer section. For a name whose ancestor (or the
  name itself) declares NS records and is not the apex, every type gets the same referral, without answers, whether the zone holds a node at that name, a wildcard above the cut would match it, or it
  does not exist.\<close>

lemma lookup_below_cut:
  assumes "hickory_ok E" and "iter_ok iter" and "from_config E iter seed cfg = Inr Z"
    and "name_from_str E (zc_origin cfg) = Some origin"
    and "declared E origin (zc_default_ttl cfg) (zc_records cfg) c RT_NS \<noteq> []" and "c \<noteq> lower_name origin"
    and "suffix c n" and "is_lower n" and "length n \<le> 127"
  shows "governing_cut Z n \<noteq> None \<and> suffix (lower_origin Z) n \<and>
    (\<exists>auth add. \<forall>t. lookup E Z n t = Referral [] auth add)"
proof (rule from_config_view [OF assms(1-4)])
  fix es order
  assume bu: "built E (lower_name origin) es order Z"
    and rec: "\<And>k t. run_records t (runs_at es k) = declared E origin (zc_default_ttl cfg) (zc_records cfg) k t"
  note b = built_facts [OF bu]
  obtain i where i: "i < length es" "ranked es order ! i = c" "governing_cut Z c = Some i"
    by (rule declared_cut [OF bu rec assms(5,6)])
  obtain k where k: "c = drop k n" using drop_to_suffix [OF assms(7)] by metis
  then obtain g where g: "governing_cut Z n = Some g" using governing_cut_above [of Z k n] i(3) by auto
  have "c \<in> fst ` set es" using ranked_facts [OF b(3,2)] i(1,2) nth_mem by metis
  then have "suffix (lower_name origin) c" by (rule entry_key_facts(2) [OF b(2)])
  from suffix_order.trans [OF this assms(7)] have suf: "suffix (lower_origin Z) n" by (simp only: b(5))
  with g have "spec_resolve Z n t 0 [] = (Res_Referral (of_nat g), [])" for t
    by (subst spec_resolve.simps) simp
  then obtain auth add where r: "\<And>t. spec_lookup Z n t = Referral [] auth add" by (simp add: spec_lookup_def)
  have "lookup E Z n t = Referral [] auth add" for t
    unfolding lookup_refines [OF assms(1) built_zone_ok [OF bu] built_targets_ok [OF bu] assms(8,9), of t] r ..
  then show ?thesis using g suf by simp
qed

text \<open>C5: nothing at or below a zone cut is answered with authority. Let the configuration declare NS records at a name that is
  not the apex. A question for that name or any name below it, of any type, that the diagnostic sub-zones do not claim
  is answered by the handler with NOERROR, an empty answer section and without AA, and its other
  sections are those of the zone's referral, whether the zone holds records at the name, a wildcard would match it, or it
  does not exist. For QTYPE=ANY this needs the zone to have a node or wildcard for the name.\<close>

theorem below_cut_only_referrals:
  assumes "hickory_ok E" and "iter_ok iter" and "from_config E iter seed cfg = Inr (act_zone (h_active h))"
    and "name_from_str E (zc_origin cfg) = Some origin"
    and "declared E origin (zc_default_ttl cfg) (zc_records cfg) c RT_NS \<noteq> []" and "c \<noteq> lower_name origin"
    and "suffix c n" and "is_lower n" and "length n \<le> 127"
    and "resolve_builtin E build (h_metrics h) (h_active h) n t src = None"
    and "t = RT_ANY \<longrightarrow> zone_exists E (act_zone (h_active h)) n"
  shows "\<exists>auth add. lookup E (act_zone (h_active h)) n t = Referral [] auth add \<and>
    handler_resolve E build h n t src =
      \<lparr>r_code = NoError, r_answers = [], r_authority = auth, r_additional = add, r_authoritative = False\<rparr>"
proof -
  define Z where "Z = act_zone (h_active h)"
  from lookup_below_cut [OF assms(1-9), folded Z_def] obtain auth add where l: "governing_cut Z n \<noteq> None"
    "suffix (lower_origin Z) n" "\<And>t. lookup E Z n t = Referral [] auth add" by blast
  have "n \<noteq> lower_origin Z" using l(1) apex_uncut(1) [OF assms(1-3)] by (auto simp: Z_def)
  then have "handler_resolve E build h n t src =
      \<lparr>r_code = NoError, r_answers = [], r_authority = auth, r_additional = add, r_authoritative = False\<rparr>"
    using l from_config_contains [OF assms(1-3,8)] assms(10,11)
    by (simp add: handler_resolve_def Let_def Z_def [symmetric] resolve_any_def resolved_of_def resolved_referral_def is_authoritative_def)
  then show ?thesis using l(3) [of t] by (auto simp: Z_def)
qed

theorem below_cut_only_referrals_witness:
  "\<not> r_authoritative (handler_resolve demo_hickory [] demo_handler [octets ''q'', octets ''sub'', octets ''ex''] RT_A (V4 0))"
proof -
  have d: "declared demo_hickory [octets ''ex''] (zc_default_ttl demo_zone_config) (zc_records demo_zone_config)
      [octets ''sub'', octets ''ex''] RT_NS \<noteq> []" by code_simp
  have ne: "[octets ''sub'', octets ''ex''] \<noteq> lower_name [octets ''ex'']" by simp
  have suf: "suffix [octets ''sub'', octets ''ex''] [octets ''q'', octets ''sub'', octets ''ex'']" by (simp add: suffix_Cons)
  have len: "length [octets ''q'', octets ''sub'', octets ''ex''] \<le> 127" by simp
  have any: "RT_A = RT_ANY \<longrightarrow> zone_exists demo_hickory (act_zone (h_active demo_handler)) [octets ''q'', octets ''sub'', octets ''ex'']" by simp
  show ?thesis
    using below_cut_only_referrals [OF demo_hickory_ok iter_id demo_handler_built demo_origin d ne suf demo_names(2) len demo_no_builtin any, of "[]" "V4 0"]
    by auto
qed

section \<open>Sizes\<close>

text \<open>The octets of an uncompressed message, and what the size bound relies on of \<^verbatim>\<open>Name::len\<close>.\<close>

definition wire_len :: "name \<Rightarrow> nat" where
  "wire_len n = sum_list (map (\<lambda>l. length l + 1) n) + 1"

definition rdata_octets :: "hickory \<Rightarrow> rdata \<Rightarrow> nat" where
  "rdata_octets E rd =
     (case rd of
        RD_A _ \<Rightarrow> 4 | RD_AAAA _ \<Rightarrow> 16
      | RD_NS n \<Rightarrow> wire_len n | RD_CNAME n \<Rightarrow> wire_len n | RD_PTR n \<Rightarrow> wire_len n
      | RD_MX _ n \<Rightarrow> 2 + wire_len n | RD_SRV _ _ _ n \<Rightarrow> 6 + wire_len n
      | RD_SOA mn rn _ _ _ _ _ \<Rightarrow> wire_len mn + wire_len rn + 20
      | RD_TXT strs \<Rightarrow> sum_list (map (\<lambda>s. 1 + length s) strs)
      | RD_HINFO cpu os \<Rightarrow> (1 + length cpu) + (1 + length os)
      | RD_OTHER _ _ \<Rightarrow> unwrap_or 65535 (rdata_wire_len E rd))"

definition record_octets :: "hickory \<Rightarrow> dns_record \<Rightarrow> nat" where
  "record_octets E r = wire_len (rec_name r) + 10 + rdata_octets E (rec_data r)"

definition response_octets :: "hickory \<Rightarrow> dns_response \<Rightarrow> nat" where
  "response_octets E p = 12 + sum_list (map (\<lambda>q. wire_len (q_name q) + 4) (rs_queries p)) +
     sum_list (map (record_octets E) (rs_answers p @ rs_authority p @ rs_additional p)) +
     (case rs_edns p of None \<Rightarrow> 0 | Some _ \<Rightarrow> 11)"

definition name_len_ok :: "hickory \<Rightarrow> bool" where
  "name_len_ok E \<longleftrightarrow> (\<forall>n. wire_len n \<le> name_len E n + 1)"

lemma rdata_octets_le:
  assumes "name_len_ok E"
  shows "rdata_octets E rd \<le> rdata_size_bound E rd"
proof -
  have n: "wire_len n \<le> Suc (name_len E n)" for n using assms by (simp add: name_len_ok_def)
  show ?thesis
  proof (cases rd)
    case (RD_SOA mn rn)
    then show ?thesis using n [of mn] n [of rn] by (simp add: rdata_octets_def rdata_size_bound_def)
  qed (simp_all add: rdata_octets_def rdata_size_bound_def RDATA_BOUND_FALLBACK_def n)
qed

lemma record_octets_le: "name_len_ok E \<Longrightarrow> record_octets E r \<le> record_size_bound E r"
  unfolding record_octets_def record_size_bound_def RECORD_FIXED_def
  by (intro add_mono rdata_octets_le) (simp_all add: name_len_ok_def)

lemma records_octets_le:
  "name_len_ok E \<Longrightarrow> sum_list (map (record_octets E) rs) \<le> sum_list (map (record_size_bound E) rs)"
  by (intro sum_list_mono record_octets_le)

text \<open>C28: the 512 octets of plain UDP. For a request over UDP without EDNS, whose first question has a name the wire can
  carry, the uncompressed size of the response built for whatever was resolved is at most 512 octets plus the octets
  of the questions after the first, which the response repeats and the size bound does not count; with at most one
  question, the only case in which anything but an error is resolved, that is 512. If records had to be cut, TC is set
  and all three sections are empty, glue included; otherwise nothing was removed.\<close>

theorem plain_udp_response_fits:
  assumes "name_len_ok E" and "rq_protocol rq = Proto_Udp" and "rq_edns rq = None"
    and "\<forall>q \<in> set (take 1 (rq_queries rq)). wire_len (q_name q) \<le> 255"
  shows "let p = build_response E rq r in
     response_octets E p \<le> 512 + sum_list (map (\<lambda>q. wire_len (q_name q) + 4) (tl (rs_queries p))) \<and>
     (length (rq_queries rq) \<le> 1 \<longrightarrow> response_octets E p \<le> 512) \<and>
     (if rs_truncation p then rs_answers p = [] \<and> rs_authority p = [] \<and> rs_additional p = []
      else rs_answers p = r_answers r \<and> rs_authority p = r_authority r \<and> rs_additional p = r_additional r)"
proof -
  let ?p = "build_response E rq r" and ?rest = "sum_list (map (\<lambda>q. wire_len (q_name q) + 4) (tl (rq_queries rq)))"
  have q: "rs_queries ?p = rq_queries rq" by (simp add: build_response_def Let_def)
  have "response_octets E ?p \<le> 512 + ?rest"
  proof (cases "512 < response_size_bound E rq r")
    case True
    then show ?thesis
      using assms by (cases "rq_queries rq") (auto simp: build_response_def Let_def response_edns_def response_octets_def handler_consts)
  next
    case False
    have "sum_list (map (record_octets E) (r_answers r @ r_authority r @ r_additional r)) \<le>
        sum_list (map (record_size_bound E) (r_answers r @ r_authority r @ r_additional r))"
      by (rule records_octets_le [OF assms(1)])
    moreover have "sum_list (map (\<lambda>q. wire_len (q_name q) + 4) (rq_queries rq)) \<le>
        (case rq_queries rq of [] \<Rightarrow> 0 | q # _ \<Rightarrow> name_len E (q_name q) + 1 + QUESTION_FIXED) + ?rest"
      using assms(1) by (cases "rq_queries rq") (auto simp: name_len_ok_def QUESTION_FIXED_def)
    ultimately have "response_octets E ?p \<le> response_size_bound E rq r + ?rest"
      using False assms by (simp add: build_response_def Let_def response_edns_def response_octets_def response_size_bound_def handler_consts)
    then show ?thesis using False by simp
  qed
  moreover have "?rest = 0" if "length (rq_queries rq) \<le> 1" using that by (cases "rq_queries rq") simp_all
  ultimately show ?thesis using assms by (auto simp: q Let_def) (auto simp: build_response_def Let_def response_edns_def)
qed

definition demo_request :: request where
  "demo_request = \<lparr>rq_src = V4 0xC0000201, rq_protocol = Proto_Udp, rq_message_type = Msg_Query, rq_op_code = Op_Query,
     rq_edns = None, rq_queries = [\<lparr>q_name = [octets ''ex''], q_type = RT_TXT, q_class = CLASS_IN\<rparr>]\<rparr>"

lemma demo_name_len: "name_len_ok demo_hickory"
  by (simp add: name_len_ok_def demo_hickory_def wire_len_def)

theorem plain_udp_response_fits_witness:
  "response_octets demo_hickory (build_response demo_hickory demo_request
     (found (replicate 40 (from_rdata [octets ''ex''] 60 (RD_TXT [octets ''abc''])))))  \<le> 512"
proof -
  have "rq_protocol demo_request = Proto_Udp" "rq_edns demo_request = None"
    "\<forall>q \<in> set (take 1 (rq_queries demo_request)). wire_len (q_name q) \<le> 255" "length (rq_queries demo_request) \<le> 1"
    by (simp_all add: demo_request_def wire_len_def octets_def)
  from plain_udp_response_fits [OF demo_name_len this(1-3)] this(4) show ?thesis by (simp add: Let_def)
qed

text \<open>
  The bound counts the first question only, while a response repeats the question section of its
  request: a refused request with several long questions gets an answer above the limit.
\<close>

lemma many_questions_exceed_limit:
  "let long = replicate 3 (replicate 60 97); q = \<lparr>q_name = long, q_type = RT_A, q_class = CLASS_IN\<rparr>;
       p = build_response demo_hickory (demo_request\<lparr>rq_queries := [q, q, q]\<rparr>) (resolved_error FormErr)
   in 512 < response_octets demo_hickory p \<and> \<not> rs_truncation p"
  by (simp add: build_response_def Let_def response_octets_def response_edns_def demo_request_def resolved_error_def
      response_size_bound_def handler_consts wire_len_def demo_hickory_def numeral_eq_Suc)

section \<open>EDNS\<close>

text \<open>EDNS is mirrored, never volunteered and never at the size the client chose: the response carries
  an OPT exactly when the request did, of version 0, with a payload between 512 and 1232 that is the
  client's own figure when that lies in the range.\<close>

lemma edns_mirrored_within_clamp:
  "case rs_edns (build_response E rq r) of
     None \<Rightarrow> rq_edns rq = None
   | Some e \<Rightarrow> \<exists>c. rq_edns rq = Some c \<and> ed_version e = 0 \<and> 512 \<le> ed_max_payload e \<and> ed_max_payload e \<le> 1232 \<and>
       (512 \<le> ed_max_payload c \<longrightarrow> ed_max_payload c \<le> 1232 \<longrightarrow> ed_max_payload e = ed_max_payload c)"
proof (cases "rq_edns rq")
  case (Some c)
  have "(512 :: u16) \<le> 1232" by simp
  from clamp_word_bounds [OF this, of "ed_max_payload c"] show ?thesis
    using Some by (auto simp: build_response_def Let_def response_edns_def handler_consts clamp_word_def)
qed (simp add: build_response_def Let_def response_edns_def)

section \<open>The gates\<close>

lemma demo_zone_of: "zone_of demo_hickory = suffix"
  by (simp add: demo_hickory_def)

lemma gate_Inl: "gate rq = Inl r \<Longrightarrow> r = refused \<or> r \<in> range resolved_error"
  by (auto simp: gate_def split: if_splits list.splits)

lemma gate_Inr:
  assumes "gate rq = Inr q"
  shows "rq_message_type rq = Msg_Query" "rq_op_code rq = Op_Query" "rq_edns rq = Some e \<Longrightarrow> ed_version e = 0"
    "rq_queries rq = [q]" "q_class q = CLASS_IN"
    "q_type q \<notin> {RT_AXFR, RT_IXFR, RT_OPT, RT_TSIG, RT_ZERO, MAILB_QTYPE, MAILA_QTYPE}"
  using assms by (auto simp: gate_def word_gt_0 split: if_splits list.splits)

text \<open>C26: zone data is behind every gate. A response with AA or with any record in it is only ever built for
  a query, with op code QUERY, without an EDNS version this server does not speak, with exactly one
  question, of class IN, for a type that is neither a zone transfer, a pseudo type nor an obsolete mail
  query; every other message gets an error code and empty sections.\<close>

theorem data_behind_gates:
  assumes "r_authoritative (accept E build rq h) \<or> r_answers (accept E build rq h) @ r_authority (accept E build rq h) @
     r_additional (accept E build rq h) \<noteq> []"
  shows "rq_message_type rq = Msg_Query \<and> rq_op_code rq = Op_Query \<and>
     (\<forall>e. rq_edns rq = Some e \<longrightarrow> ed_version e = 0) \<and>
     (\<exists>q. rq_queries rq = [q] \<and> q_class q = CLASS_IN \<and>
        q_type q \<notin> {RT_AXFR, RT_IXFR, RT_OPT, RT_TSIG, RT_ZERO, MAILB_QTYPE, MAILA_QTYPE} \<and>
        contains E (act_zone (h_active h)) (q_name q))"
proof (cases "gate rq")
  case (Inl r)
  then show ?thesis using assms gate_Inl [OF Inl] by (auto simp: accept_def refused_def resolved_error_def)
next
  case (Inr q)
  then have "contains E (act_zone (h_active h)) (q_name q)"
    using assms by (rule_tac ccontr) (simp add: accept_def handler_resolve_def refused_def)
  then show ?thesis using gate_Inr [OF Inr] by blast
qed

theorem data_behind_gates_witness:
  "rq_op_code demo_request = Op_Query"
proof -
  have "r_authoritative (accept demo_hickory [] (demo_request\<lparr>rq_queries := [\<lparr>q_name = [octets ''ex''], q_type = RT_SOA, q_class = CLASS_IN\<rparr>]\<rparr>) demo_handler)"
    by (simp add: accept_def gate_def demo_request_def handler_resolve_def Let_def demo_handler_zone contains_def demo_zone_origin
        demo_no_builtin handler_consts resolved_defs demo_zone_of)
  from data_behind_gates [OF disjI1, OF this] show ?thesis by simp
qed

section \<open>Accounting\<close>

type_synonym served_step = "nat \<times> (nat \<Rightarrow> u64 option) \<times> nat \<times> request"

definition serve_one :: "hickory \<Rightarrow> u8 list \<Rightarrow> (dns_response \<Rightarrow> response_code option) \<Rightarrow> served_step \<Rightarrow> dns_handler \<Rightarrow> handled" where
  "serve_one E build send st h = (case st of (now, outcome, elapsed, rq) \<Rightarrow> handle_request E build send now outcome elapsed rq h)"

definition serve_all :: "hickory \<Rightarrow> u8 list \<Rightarrow> (dns_response \<Rightarrow> response_code option) \<Rightarrow> served_step list \<Rightarrow> dns_handler \<Rightarrow> dns_handler" where
  "serve_all E build send = fold (\<lambda>st h. hd_handler (serve_one E build send st h))"

text \<open>The limiter's verdict on a request, and the events a request leaves in the counters.\<close>

definition limited :: "request \<Rightarrow> nat \<Rightarrow> (nat \<Rightarrow> u64 option) \<Rightarrow> dns_handler \<Rightarrow> bool" where
  "limited rq now outcome h = (case h_limiter h of None \<Rightarrow> False | Some L \<Rightarrow> \<not> fst (check_at L (rq_src rq) now outcome))"

definition request_events :: "(dns_response \<Rightarrow> response_code option) \<Rightarrow> request \<Rightarrow> bool \<Rightarrow> nat \<Rightarrow> dns_response option \<Rightarrow> metric_event list" where
  "request_events send rq lim elapsed sent =
     [Ev_query (transport_of (rq_protocol rq))] @ (if lim then [Ev_rate_limited] else []) @ [Ev_latency elapsed] @
     (case sent of
        None \<Rightarrow> []
      | Some p \<Rightarrow> (case send p of Some c \<Rightarrow> [Ev_response c] | None \<Rightarrow> [Ev_response ServFail, Ev_send_error]))"

lemma check_limiter_verdict:
  "fst (check_limiter rq now outcome h) \<longleftrightarrow> \<not> limited rq now outcome h"
  "h_metrics (snd (check_limiter rq now outcome h)) = run_events (if limited rq now outcome h then [Ev_rate_limited] else []) (h_metrics h)"
  by (auto simp: check_limiter_def limited_def run_events_def Let_def split: option.split prod.split if_splits)

lemma handle_request_outcome:
  fixes E build send now outcome elapsed rq h
  defines "x \<equiv> handle_request E build send now outcome elapsed rq h"
  shows "hd_sent x = None \<longleftrightarrow> limited rq now outcome h \<and> rq_protocol rq = Proto_Udp"
    and "h_metrics (hd_handler x) = run_events (request_events send rq (limited rq now outcome h) elapsed (hd_sent x)) (h_metrics h)"
proof -
  let ?h = "h\<lparr>h_metrics := query (transport_of (rq_protocol rq)) (h_metrics h)\<rparr>"
  have lim: "limited rq now outcome ?h = limited rq now outcome h" by (simp add: limited_def)
  obtain ok h1 where c: "check_limiter rq now outcome ?h = (ok, h1)" by (cases "check_limiter rq now outcome ?h")
  have v: "ok = (\<not> limited rq now outcome h)" "h_metrics h1 = run_events (if limited rq now outcome h then [Ev_rate_limited] else []) (h_metrics ?h)"
    using check_limiter_verdict [of rq now outcome ?h] c lim by simp_all
  show "hd_sent x = None \<longleftrightarrow> limited rq now outcome h \<and> rq_protocol rq = Proto_Udp"
    using c v(1) by (auto simp: x_def handle_request_def dispatch_def Let_def split: option.split)
  show "h_metrics (hd_handler x) = run_events (request_events send rq (limited rq now outcome h) elapsed (hd_sent x)) (h_metrics h)"
    using c v by (auto simp: x_def handle_request_def dispatch_def Let_def request_events_def run_events_def split: option.split)
qed

text \<open>The server is silent for exactly one reason: nothing is sent for a request if and only if the rate
  limiter refused it and it came over UDP; the same refusal over another transport is answered REFUSED
  with empty sections.\<close>

lemma silence_is_rate_limited_udp:
  "(hd_sent (handle_request E build send now outcome elapsed rq h) = None \<longleftrightarrow>
     limited rq now outcome h \<and> rq_protocol rq = Proto_Udp) \<and>
   (case hd_sent (handle_request E build send now outcome elapsed rq h) of
      None \<Rightarrow> True
    | Some p \<Rightarrow> if limited rq now outcome h then rs_code p = Refused \<and> rs_answers p = [] \<and> rs_authority p = [] \<and> \<not> rs_authoritative p
                else True)"
proof -
  let ?h = "h\<lparr>h_metrics := query (transport_of (rq_protocol rq)) (h_metrics h)\<rparr>"
  have "limited rq now outcome ?h = limited rq now outcome h" by (simp add: limited_def)
  then have "fst (check_limiter rq now outcome ?h) = (\<not> limited rq now outcome h)"
    using check_limiter_verdict(1) [of rq now outcome ?h] by simp
  then have "rs_code p = Refused \<and> rs_answers p = [] \<and> rs_authority p = [] \<and> \<not> rs_authoritative p"
    if "hd_sent (handle_request E build send now outcome elapsed rq h) = Some p" "limited rq now outcome h" for p
    using that by (auto simp: handle_request_def dispatch_def Let_def build_response_def refused_def
        split: prod.splits option.splits if_splits)
  then show ?thesis using handle_request_outcome(1) [of E build send now outcome elapsed rq h] by (simp split: option.split)
qed

text \<open>
  What happened to each request of a sequence: the request, whether the limiter refused it, the time it
  took and what the handler made of it.
\<close>

fun serve_log :: "hickory \<Rightarrow> u8 list \<Rightarrow> (dns_response \<Rightarrow> response_code option) \<Rightarrow> served_step list \<Rightarrow> dns_handler
    \<Rightarrow> (request \<times> bool \<times> nat \<times> handled) list" where
  "serve_log E build send [] h = []"
| "serve_log E build send ((now, outcome, elapsed, rq) # steps) h =
     (let x = serve_one E build send (now, outcome, elapsed, rq) h in
      (rq, limited rq now outcome h, elapsed, x) # serve_log E build send steps (hd_handler x))"

definition log_events :: "(dns_response \<Rightarrow> response_code option) \<Rightarrow> request \<times> bool \<times> nat \<times> handled \<Rightarrow> metric_event list" where
  "log_events send entry = (case entry of (rq, lim, elapsed, x) \<Rightarrow> request_events send rq lim elapsed (hd_sent x))"

definition was_limited :: "request \<times> bool \<times> nat \<times> handled \<Rightarrow> bool" where
  "was_limited entry = (case entry of (rq, lim, elapsed, x) \<Rightarrow> lim)"

definition answered_as :: "nat \<Rightarrow> request \<times> bool \<times> nat \<times> handled \<Rightarrow> bool" where
  "answered_as i entry = (case entry of (rq, lim, elapsed, x) \<Rightarrow> hd_sent x \<noteq> None \<and> rcode_slot (hd_info x) = i)"

definition send_failed :: "(dns_response \<Rightarrow> response_code option) \<Rightarrow> request \<times> bool \<times> nat \<times> handled \<Rightarrow> bool" where
  "send_failed send entry = (case entry of (rq, lim, elapsed, x) \<Rightarrow> hd_sent x \<noteq> None \<and> send (the (hd_sent x)) = None)"

lemmas log_preds = log_events_def was_limited_def answered_as_def send_failed_def

lemma handle_request_info:
  "hd_sent (handle_request E build send now outcome elapsed rq h) = Some p \<Longrightarrow>
     hd_info (handle_request E build send now outcome elapsed rq h) = unwrap_or ServFail (send p)"
  by (auto simp: handle_request_def Let_def split: prod.splits option.splits)

lemma serve_log_entries:
  "(rq, lim, elapsed, x) \<in> set (serve_log E build send steps h) \<Longrightarrow>
     (hd_sent x = None \<longleftrightarrow> lim \<and> rq_protocol rq = Proto_Udp) \<and> (\<forall>p. hd_sent x = Some p \<longrightarrow> hd_info x = unwrap_or ServFail (send p))"
proof (induction E build send steps h rule: serve_log.induct)
  case (2 E build send now outcome el r steps h)
  then show ?case
    using handle_request_outcome(1) [of E build send now outcome el r h] handle_request_info [of E build send now outcome el r h]
    by (auto simp: Let_def serve_one_def)
qed simp

lemma serve_all_run:
  "h_metrics (serve_all E build send steps h) = run_events (concat (map (log_events send) (serve_log E build send steps h))) (h_metrics h)"
proof (induction E build send steps h rule: serve_log.induct)
  case (2 E build send now outcome el rq steps h)
  let ?x = "handle_request E build send now outcome el rq h"
  have "h_metrics (serve_all E build send ((now, outcome, el, rq) # steps) h) = h_metrics (serve_all E build send steps (hd_handler ?x))"
    by (simp add: serve_all_def serve_one_def)
  also have "\<dots> = run_events (concat (map (log_events send) (serve_log E build send steps (hd_handler ?x)))) (h_metrics (hd_handler ?x))"
    using 2 by (simp add: serve_one_def)
  finally show ?case
    using handle_request_outcome(2) [of E build send now outcome el rq h]
    by (simp add: Let_def serve_one_def run_events_def) (simp add: log_events_def)
qed (simp add: serve_all_def run_events_def)

lemma length_serve_log [simp]: "length (serve_log E build send steps h) = length steps"
  by (induction E build send steps h rule: serve_log.induct) (simp_all add: Let_def)

lemma tally_log:
  assumes "\<And>e. e \<in> set log \<Longrightarrow> tally p (f e) = (if q e then 1 else 0)"
  shows "tally p (concat (map f log)) = length (filter q log)"
  using assms by (induction log) (auto simp: tally_def)

text \<open>C29: every request is accounted for, whatever the requests, the rate limiter and the network do. After serving
  any sequence of requests from a fresh start the query total is their number and nothing is in flight, so a
  shutdown that waits for in-flight requests does not wait for finished ones; the responses counted under a
  code are exactly the requests answered with it; the refusals counted are exactly the requests the
  limiter refused; the send errors are exactly the answers the network did not take, counted as SERVFAIL; and a request
  without an answer is exactly one the limiter refused over UDP. Counters are 64 bits wide and wrap.\<close>

theorem requests_accounted:
  assumes "h_metrics h = metrics_new t"
  shows "let m = h_metrics (serve_all E build send steps h); log = serve_log E build send steps h in
     queries m = of_nat (length steps) \<and> in_flight m = 0 \<and>
     responses m = map (\<lambda>i. of_nat (length (filter (answered_as i) log))) [0..<7] \<and>
     rate_limited_total m = of_nat (length (filter was_limited log)) \<and>
     send_errors_total m = of_nat (length (filter (send_failed send) log)) \<and>
     map fst log = map (\<lambda>(now, outcome, elapsed, rq). rq) steps \<and>
     (\<forall>(rq, lim, elapsed, x) \<in> set log. (hd_sent x = None \<longleftrightarrow> lim \<and> rq_protocol rq = Proto_Udp) \<and>
        (\<forall>p. hd_sent x = Some p \<longrightarrow> hd_info x = unwrap_or ServFail (send p)))"
proof -
  define log where "log = serve_log E build send steps h"
  define evs where "evs = concat (map (log_events send) log)"
  have m: "h_metrics (serve_all E build send steps h) = run_events evs (metrics_new t)"
    using serve_all_run [of E build send steps h] assms by (simp add: evs_def log_def)
  have ent: "(hd_sent x = None \<longleftrightarrow> lim \<and> rq_protocol rq = Proto_Udp) \<and> (\<forall>p. hd_sent x = Some p \<longrightarrow> hd_info x = unwrap_or ServFail (send p))"
    if "(rq, lim, el, x) \<in> set log" for rq lim el x
    using serve_log_entries that unfolding log_def by blast
  have q: "tally is_query evs = length steps" "tally (is_latency (\<lambda>_. True)) evs = length steps"
    unfolding evs_def by (subst tally_log [where q = "\<lambda>_. True"];
      auto simp: log_def log_events_def request_events_def tally_def is_query_def is_latency_def split: option.splits)+
  have r: "tally (is_response i) evs = length (filter (answered_as i) log)" for i
    unfolding evs_def
    by (rule tally_log) (auto simp: log_preds request_events_def tally_def is_response_def dest!: ent split: option.splits if_splits)
  have l: "tally (\<lambda>e. e = Ev_rate_limited) evs = length (filter was_limited log)"
    unfolding evs_def by (rule tally_log) (auto simp: log_preds request_events_def tally_def split: option.splits)
  have s: "tally (\<lambda>e. e = Ev_send_error) evs = length (filter (send_failed send) log)"
    unfolding evs_def by (rule tally_log) (auto simp: log_preds request_events_def tally_def split: option.splits)
  have f: "map fst log = map (\<lambda>(now, outcome, elapsed, rq). rq) steps"
    unfolding log_def by (induction E build send steps h rule: serve_log.induct) (simp_all add: Let_def)
  note c = counted_run [of evs t, unfolded counted_def r l s q]
  show ?thesis
    using c ent f unfolding m Let_def log_def [symmetric]
    by (auto simp: queries_def in_flight_def saturating_sub_def)
qed

theorem requests_accounted_witness:
  "queries (h_metrics (serve_all demo_hickory [] (\<lambda>_. None) [(0, \<lambda>_. None, 5, demo_request), (1, \<lambda>_. None, 5, demo_request)] demo_handler)) = 2"
  using requests_accounted [of demo_handler 0 demo_hickory "[]" "\<lambda>_. None"
      "[(0, \<lambda>_. None, 5, demo_request), (1, \<lambda>_. None, 5, demo_request)]"]
  by (simp add: Let_def demo_handler_def handler_new_def)

end
