(* ===== verification/Lifecycle.thy ===== *)
theory Lifecycle
  imports Prelude
begin

text \<open>
  \<^verbatim>\<open>src/lifecycle.rs\<close>: the phase the process publishes, one atomic byte that
  \<^verbatim>\<open>Lifecycle::enter\<close> only ever raises, and the shutdown deadline, set once. \<open>enter\<close> is the
  operation as its callers use it; \<open>enter_step\<close> is its compare-exchange loop with any number of
  tasks on the same byte, lost races and spurious failures of the weak exchange included.
  Shown: every call of the loop takes effect as one atomic \<open>enter\<close> at the step it returns, the
  phase never goes back and ends at the furthest phase asked for, each phase is entered by one caller,
  and every call returns unless the exchange fails spuriously for ever.
\<close>

section \<open>Phases\<close>

datatype phase = Starting | Serving | Draining | Stopping | Closing

fun phase_bits :: "phase \<Rightarrow> u8" where
  "phase_bits Starting = 0"
| "phase_bits Serving = 1"
| "phase_bits Draining = 2"
| "phase_bits Stopping = 3"
| "phase_bits Closing = 4"

fun phase_as_str :: "phase \<Rightarrow> string" where
  "phase_as_str Starting = ''starting''"
| "phase_as_str Serving = ''serving''"
| "phase_as_str Draining = ''draining''"
| "phase_as_str Stopping = ''stopping''"
| "phase_as_str Closing = ''closing''"

definition from_bits :: "u8 \<Rightarrow> phase" where
  "from_bits b = (if b = 0 then Starting else if b = 1 then Serving else if b = 2 then Draining
     else if b = 3 then Stopping else Closing)"

lemma from_bits_bits [simp]: "from_bits (phase_bits p) = p"
  by (cases p) (simp_all add: from_bits_def)

lemma phase_bits_inject [simp]: "phase_bits p = phase_bits q \<longleftrightarrow> p = q"
  by (metis from_bits_bits)

instantiation phase :: linorder
begin

definition less_eq_phase :: "phase \<Rightarrow> phase \<Rightarrow> bool" where
  "less_eq_phase p q \<longleftrightarrow> phase_bits p \<le> phase_bits q"

definition less_phase :: "phase \<Rightarrow> phase \<Rightarrow> bool" where
  "less_phase p q \<longleftrightarrow> phase_bits p < phase_bits q"

instance
  by standard (auto simp: less_eq_phase_def less_phase_def less_le)

end

lemma phase_bits_le [simp]: "phase_bits p \<le> phase_bits q \<longleftrightarrow> p \<le> q"
  and phase_bits_less [simp]: "phase_bits p < phase_bits q \<longleftrightarrow> p < q"
  by (simp_all add: less_eq_phase_def less_phase_def)

lemma phase_less_simps [simp]:
  "Starting \<le> p" "p \<le> Closing" "Serving \<le> Draining" "Draining \<le> Stopping" "Serving < Draining"
  "Draining < Stopping" "Stopping < Closing" "Starting < Serving" "\<not> Draining \<le> Serving" "Draining \<le> Closing"
  by (cases p; simp add: less_eq_phase_def less_phase_def word_le_nat_alt word_less_nat_alt)+

section \<open>The published phase\<close>

record lifecycle =
  lc_phase :: u8
  lc_deadline :: "nat option"

definition lifecycle_new :: lifecycle where
  "lifecycle_new = \<lparr>lc_phase = phase_bits Starting, lc_deadline = None\<rparr>"

definition phase_of :: "lifecycle \<Rightarrow> phase" where
  "phase_of L = from_bits (lc_phase L)"

definition enter :: "phase \<Rightarrow> lifecycle \<Rightarrow> bool \<times> lifecycle" where
  "enter nxt L = (if phase_bits nxt \<le> lc_phase L then (False, L) else (True, L\<lparr>lc_phase := phase_bits nxt\<rparr>))"

definition is_ready :: "lifecycle \<Rightarrow> bool" where
  "is_ready L \<longleftrightarrow> phase_of L = Serving"

definition is_draining :: "lifecycle \<Rightarrow> bool" where
  "is_draining L \<longleftrightarrow> Draining \<le> phase_of L"

definition arm_deadline :: "nat \<Rightarrow> lifecycle \<Rightarrow> lifecycle" where
  "arm_deadline at L = (case lc_deadline L of None \<Rightarrow> L\<lparr>lc_deadline := Some at\<rparr> | Some _ \<Rightarrow> L)"

definition deadline_in :: "nat \<Rightarrow> lifecycle \<Rightarrow> nat option" where
  "deadline_in now L = map_option (\<lambda>at. at - now) (lc_deadline L)"

definition lifecycle_ok :: "lifecycle \<Rightarrow> bool" where
  "lifecycle_ok L \<longleftrightarrow> (\<exists>p. lc_phase L = phase_bits p)"

lemma lifecycle_ok_new [simp]: "lifecycle_ok lifecycle_new"
  by (auto simp: lifecycle_ok_def lifecycle_new_def simp del: phase_bits.simps)

lemma phase_of_new [simp]: "phase_of lifecycle_new = Starting"
  by (simp add: phase_of_def lifecycle_new_def del: phase_bits.simps)

lemma enter_phase [simp]:
  "lifecycle_ok L \<Longrightarrow> phase_of (snd (enter p L)) = max p (phase_of L)"
  by (auto simp: lifecycle_ok_def phase_of_def enter_def max_def simp del: phase_bits.simps)

lemma enter_ok [simp]: "lifecycle_ok L \<Longrightarrow> lifecycle_ok (snd (enter p L))"
  by (auto simp: lifecycle_ok_def enter_def)

lemma enter_deadline [simp]: "lc_deadline (snd (enter p L)) = lc_deadline L"
  by (simp add: enter_def)

lemma arm_deadline_simps [simp]:
  "phase_of (arm_deadline t L) = phase_of L" "lifecycle_ok (arm_deadline t L) = lifecycle_ok L"
  "lc_deadline (arm_deadline t L) = Some (unwrap_or t (lc_deadline L))"
  by (simp_all add: arm_deadline_def phase_of_def lifecycle_ok_def split: option.split)

section \<open>The contract the readers rely on\<close>

text \<open>
  What a reader of the phase may assume of its writers: a write raises the value to the phase
  entered and never lowers it, whatever the order the writers come in.
\<close>

locale phase_cell =
  fixes ok :: "'s \<Rightarrow> bool" and read :: "'s \<Rightarrow> 'p::linorder" and raise_to :: "'p \<Rightarrow> 's \<Rightarrow> 's"
  assumes raise_ok: "ok s \<Longrightarrow> ok (raise_to p s)"
    and read_raise: "ok s \<Longrightarrow> read (raise_to p s) = max p (read s)"
begin

lemma raise_mono: "ok s \<Longrightarrow> read s \<le> read (raise_to p s)"
  by (simp add: read_raise)

lemma raise_reaches: "ok s \<Longrightarrow> p \<le> read (raise_to p s)"
  by (simp add: read_raise)

lemma raise_keeps: "ok s \<Longrightarrow> p \<le> read s \<Longrightarrow> p \<le> read (raise_to q s)"
  by (simp add: read_raise le_max_iff_disj)

lemma raise_all_keeps: "ok s \<Longrightarrow> p \<le> read s \<Longrightarrow> p \<le> read (fold raise_to qs s)"
  by (induction qs arbitrary: s) (simp_all add: raise_ok raise_keeps)

lemma raise_commute: "ok s \<Longrightarrow> read (raise_to p (raise_to q s)) = read (raise_to q (raise_to p s))"
  by (simp add: read_raise raise_ok max.left_commute)

lemma late_raise: "ok s \<Longrightarrow> p \<le> read s \<Longrightarrow> read (raise_to p s) = read s"
  by (simp add: read_raise max_absorb2)

end

definition publish :: "phase \<Rightarrow> lifecycle \<Rightarrow> lifecycle" where
  "publish p L = snd (enter p L)"

interpretation life: phase_cell lifecycle_ok phase_of publish
  by unfold_locales (simp_all add: publish_def)

lemma publish_deadline [simp]: "lc_deadline (publish p L) = lc_deadline L"
  by (simp add: publish_def)

section \<open>The compare-exchange loop\<close>

datatype enter_pc = Called | Loaded u8 | Returned bool

record caller =
  target :: phase
  pc :: enter_pc

record enter_sys =
  shared :: u8
  callers :: "caller list"

definition move :: "nat \<Rightarrow> enter_pc \<Rightarrow> enter_sys \<Rightarrow> enter_sys" where
  "move i q s = s\<lparr>callers := (callers s)[i := (callers s ! i)\<lparr>pc := q\<rparr>]\<rparr>"

text \<open>What a step does. The weak exchange fails when the byte is no longer the one loaded, and now and then when it
  still is; either way the loop goes on with the byte it was told.\<close>

datatype enter_act = A_Load | A_Refuse | A_Exchange | A_Lost | A_Spurious

inductive enter_step :: "enter_act \<Rightarrow> enter_sys \<Rightarrow> enter_sys \<Rightarrow> bool" where
  load: "i < length (callers s) \<Longrightarrow> pc (callers s ! i) = Called \<Longrightarrow>
     enter_step A_Load s (move i (Loaded (shared s)) s)"
| refuse: "i < length (callers s) \<Longrightarrow> pc (callers s ! i) = Loaded c \<Longrightarrow>
     phase_bits (target (callers s ! i)) \<le> c \<Longrightarrow> enter_step A_Refuse s (move i (Returned False) s)"
| exchange: "i < length (callers s) \<Longrightarrow> pc (callers s ! i) = Loaded c \<Longrightarrow>
     c < phase_bits (target (callers s ! i)) \<Longrightarrow> shared s = c \<Longrightarrow>
     enter_step A_Exchange s (move i (Returned True) s\<lparr>shared := phase_bits (target (callers s ! i))\<rparr>)"
| lost: "i < length (callers s) \<Longrightarrow> pc (callers s ! i) = Loaded c \<Longrightarrow>
     c < phase_bits (target (callers s ! i)) \<Longrightarrow> shared s \<noteq> c \<Longrightarrow> enter_step A_Lost s (move i (Loaded (shared s)) s)"
| spurious: "i < length (callers s) \<Longrightarrow> pc (callers s ! i) = Loaded c \<Longrightarrow>
     c < phase_bits (target (callers s ! i)) \<Longrightarrow> shared s = c \<Longrightarrow> enter_step A_Spurious s (move i (Loaded (shared s)) s)"

inductive enter_run :: "enter_act list \<Rightarrow> enter_sys \<Rightarrow> enter_sys \<Rightarrow> bool" where
  run_start: "enter_run [] s s"
| run_step: "enter_run acts s t \<Longrightarrow> enter_step a t u \<Longrightarrow> enter_run (acts @ [a]) s u"

definition enter_init :: "phase \<Rightarrow> phase list \<Rightarrow> enter_sys" where
  "enter_init p ts = \<lparr>shared = phase_bits p, callers = map (\<lambda>t. \<lparr>target = t, pc = Called\<rparr>) ts\<rparr>"

lemma move_simps [simp]:
  "shared (move i q s) = shared s" "length (callers (move i q s)) = length (callers s)"
  "i < length (callers s) \<Longrightarrow> callers (move i q s) ! j =
     (if i = j then (callers s ! i)\<lparr>pc := q\<rparr> else callers s ! j)"
  by (simp_all add: move_def nth_list_update)

lemma move_same: "pc (callers s ! i) = q \<Longrightarrow> move i q s = s"
  by (cases "callers s ! i") (auto simp: move_def list_update_same_conv intro!: enter_sys.equality, metis list_update_id)

definition caller_ok :: "u8 \<Rightarrow> caller \<Rightarrow> bool" where
  "caller_ok now k = (case pc k of
       Called \<Rightarrow> True | Loaded c \<Rightarrow> c \<le> now | Returned _ \<Rightarrow> phase_bits (target k) \<le> now)"

definition won :: "enter_sys \<Rightarrow> nat \<Rightarrow> bool" where
  "won s i \<longleftrightarrow> i < length (callers s) \<and> pc (callers s ! i) = Returned True"

definition enter_inv :: "phase \<Rightarrow> enter_sys \<Rightarrow> bool" where
  "enter_inv p s \<longleftrightarrow>
     phase_bits p \<le> shared s \<and> (\<forall>i < length (callers s). caller_ok (shared s) (callers s ! i)) \<and>
     (\<forall>i. won s i \<longrightarrow> phase_bits p < phase_bits (target (callers s ! i))) \<and>
     (\<forall>i j. won s i \<longrightarrow> won s j \<longrightarrow> target (callers s ! i) = target (callers s ! j) \<longrightarrow> i = j) \<and>
     (shared s = phase_bits p \<or> (\<exists>i. won s i \<and> shared s = phase_bits (target (callers s ! i))))"

lemma caller_ok_mono: "caller_ok a k \<Longrightarrow> a \<le> b \<Longrightarrow> caller_ok b k"
  by (auto simp: caller_ok_def split: enter_pc.splits)

lemma won_move [simp]:
  "i < length (callers s) \<Longrightarrow> won (move i q s) j \<longleftrightarrow> (if i = j then q = Returned True else won s j)"
  by (auto simp: won_def)

lemma won_shared [simp]: "won (s\<lparr>shared := b\<rparr>) i = won s i"
  by (simp add: won_def)

lemma enter_inv_init: "enter_inv p (enter_init p ts)"
  by (auto simp: enter_inv_def enter_init_def caller_ok_def won_def)

lemma enter_inv_stay:
  assumes "enter_inv p s" and "i < length (callers s)" and "q \<noteq> Returned True" and "\<not> won s i"
    and "caller_ok (shared s) ((callers s ! i)\<lparr>pc := q\<rparr>)"
  shows "enter_inv p (move i q s)"
  using assms unfolding enter_inv_def by (simp add: if_distrib cong: if_cong) metis

lemma enter_inv_step: "enter_step a s s' \<Longrightarrow> enter_inv p s \<Longrightarrow> enter_inv p s'"
proof (induction rule: enter_step.induct)
  case (load i s)
  then show ?case by (intro enter_inv_stay) (auto simp: won_def caller_ok_def)
next
  case (refuse i s c)
  then have "c \<le> shared s" by (auto simp: enter_inv_def caller_ok_def split: enter_pc.splits)
  then show ?case using refuse by (intro enter_inv_stay) (auto simp: won_def caller_ok_def)
next
  case (lost i s c)
  then show ?case by (intro enter_inv_stay) (auto simp: won_def caller_ok_def)
next
  case (spurious i s c)
  then show ?case by (intro enter_inv_stay) (auto simp: won_def caller_ok_def)
next
  case (exchange i s c)
  let ?b = "phase_bits (target (callers s ! i))"
  let ?s = "move i (Returned True) s"
  have up: "shared s < ?b" using exchange by simp
  have wins: "won ?s j \<longleftrightarrow> j = i \<or> won s j" for j using exchange by simp
  have below: "phase_bits (target (callers s ! j)) \<le> shared s" if "won s j" for j
    using exchange(5) that by (auto simp: enter_inv_def won_def caller_ok_def split: enter_pc.splits)
  have tgt: "target (callers ?s ! j) = target (callers s ! j)" for j using exchange(1) by simp
  have "phase_bits p < ?b" using exchange(5) up by (auto simp: enter_inv_def)
  moreover have "caller_ok ?b (callers ?s ! j)" if "j < length (callers s)" for j
  proof (cases "i = j")
    case True
    then show ?thesis using exchange(1) by (simp add: caller_ok_def)
  next
    case False
    then show ?thesis
      using exchange(1,5) that caller_ok_mono [OF _ less_imp_le [OF up]] by (simp add: enter_inv_def)
  qed
  moreover have "target (callers s ! j) \<noteq> target (callers s ! i)" if "won s j" for j
    using below [OF that] up by auto
  ultimately show ?case
    using exchange(5) wins tgt unfolding enter_inv_def by (simp add: less_imp_le) metis
qed

lemma enter_step_targets: "enter_step a s s' \<Longrightarrow> map target (callers s') = map target (callers s)"
  by (induction rule: enter_step.induct) (auto simp: move_def map_update intro!: list_update_same_conv [THEN iffD2])

lemma enter_run_inv: "enter_run acts (enter_init p ts) s \<Longrightarrow> enter_inv p s \<and> map target (callers s) = ts"
proof (induction acts "enter_init p ts" s rule: enter_run.induct)
  case run_start
  show ?case using enter_inv_init [of p ts] by (simp add: enter_init_def comp_def)
qed (use enter_inv_step enter_step_targets in auto)

definition all_returned :: "enter_sys \<Rightarrow> bool" where
  "all_returned s \<longleftrightarrow> (\<forall>k \<in> set (callers s). \<exists>b. pc k = Returned b)"

lemma enter_step_atomic:
  assumes inv: "enter_inv p s" and st: "enter_step a s s'"
  shows "\<exists>i < length (callers s). (\<forall>j. j \<noteq> i \<longrightarrow> callers s' ! j = callers s ! j) \<and>
     target (callers s' ! i) = target (callers s ! i) \<and> shared s \<le> shared s' \<and>
     (case pc (callers s' ! i) of
        Returned b \<Rightarrow> enter (target (callers s ! i)) \<lparr>lc_phase = shared s, lc_deadline = d\<rparr> =
          (b, \<lparr>lc_phase = shared s', lc_deadline = d\<rparr>)
      | _ \<Rightarrow> shared s' = shared s)"
  using st
proof cases
  case (refuse i c)
  have "caller_ok (shared s) (callers s ! i)" using inv refuse(3) by (simp add: enter_inv_def)
  then have "c \<le> shared s" using refuse(4) by (simp add: caller_ok_def)
  then show ?thesis using refuse by (intro exI [of _ i]) (simp add: enter_def)
next
  case (exchange i c)
  then show ?thesis by (intro exI [of _ i]) (simp add: enter_def less_imp_le not_le [symmetric])
qed auto

lemma final_phase:
  assumes inv: "enter_inv p s" and "all_returned s"
  shows "from_bits (shared s) = fold max (map target (callers s)) p"
proof -
  obtain q where q: "shared s = phase_bits q" "q = p \<or> q \<in> set (map target (callers s))"
    using inv by (auto simp: enter_inv_def won_def)
  have "k \<le> q" if k: "k \<in> set (p # map target (callers s))" for k
  proof (cases "k = p")
    case True
    then show ?thesis using inv q(1) by (simp add: enter_inv_def)
  next
    case False
    then obtain i where i: "i < length (callers s)" "k = target (callers s ! i)" using k by (auto simp: in_set_conv_nth)
    obtain b where "pc (callers s ! i) = Returned b" using assms(2) i(1) nth_mem unfolding all_returned_def by blast
    moreover have "caller_ok (shared s) (callers s ! i)" using inv i(1) by (simp add: enter_inv_def)
    ultimately show ?thesis using q(1) i(2) by (simp add: caller_ok_def)
  qed
  then have "Max (set (p # map target (callers s))) = q" using q(2) by (intro Max_eqI) auto
  then show ?thesis unfolding Max.set_eq_fold by (simp add: q(1))
qed

text \<open>C23: the compare-exchange loop of \<^verbatim>\<open>Lifecycle::enter\<close> is atomic. From a start in which any number
  of tasks call it for any phases, every step of every interleaving moves one task and never lowers the byte; a
  step at which the task does not return leaves the byte alone, and the step at which it returns has the
  result and the effect of the operation \<open>enter\<close> performed at once in the state of that moment. When all
  calls have returned, the byte holds the furthest of the first phase and the phases asked for.\<close>

theorem enter_atomic:
  assumes "enter_run acts (enter_init p ts) s"
  shows "(\<forall>a s'. enter_step a s s' \<longrightarrow> (\<exists>i < length (callers s). (\<forall>j. j \<noteq> i \<longrightarrow> callers s' ! j = callers s ! j) \<and>
     target (callers s' ! i) = target (callers s ! i) \<and> shared s \<le> shared s' \<and>
     (case pc (callers s' ! i) of
        Returned b \<Rightarrow> enter (target (callers s ! i)) \<lparr>lc_phase = shared s, lc_deadline = d\<rparr> =
          (b, \<lparr>lc_phase = shared s', lc_deadline = d\<rparr>)
      | _ \<Rightarrow> shared s' = shared s))) \<and>
    (all_returned s \<longrightarrow> from_bits (shared s) = fold max ts p)"
  using enter_run_inv [OF assms] enter_step_atomic final_phase by blast

text \<open>A late \<^verbatim>\<open>Serving\<close> against a \<^verbatim>\<open>Draining\<close> that was faster.\<close>

definition late_callers :: "u8 \<Rightarrow> enter_pc \<Rightarrow> enter_pc \<Rightarrow> enter_sys" where
  "late_callers b x y = \<lparr>shared = b, callers = [\<lparr>target = Draining, pc = x\<rparr>, \<lparr>target = Serving, pc = y\<rparr>]\<rparr>"

lemma late_init: "enter_init Starting [Draining, Serving] = late_callers 0 Called Called"
  by (simp add: enter_init_def late_callers_def)

lemma late_run: "enter_run [A_Load, A_Load, A_Exchange, A_Lost, A_Refuse] (late_callers 0 Called Called)
    (late_callers 2 (Returned True) (Returned False))"
proof -
  let ?s = late_callers
  have go: "move 0 q (?s b x y) = ?s b q y" "move 1 q (?s b x y) = ?s b x q" for q b x y
    by (simp_all add: move_def late_callers_def)
  have st: "enter_step A_Load (?s 0 Called Called) (?s 0 (Loaded 0) Called)"
    "enter_step A_Load (?s 0 (Loaded 0) Called) (?s 0 (Loaded 0) (Loaded 0))"
    "enter_step A_Exchange (?s 0 (Loaded 0) (Loaded 0)) (?s 2 (Returned True) (Loaded 0))"
    "enter_step A_Lost (?s 2 (Returned True) (Loaded 0)) (?s 2 (Returned True) (Loaded 2))"
    "enter_step A_Refuse (?s 2 (Returned True) (Loaded 2)) (?s 2 (Returned True) (Returned False))"
    using enter_step.load [of 0 "?s 0 Called Called"] enter_step.load [of 1 "?s 0 (Loaded 0) Called"]
      enter_step.exchange [of 0 "?s 0 (Loaded 0) (Loaded 0)" 0] enter_step.lost [of 1 "?s 2 (Returned True) (Loaded 0)" 0]
      enter_step.refuse [of 1 "?s 2 (Returned True) (Loaded 2)" 2]
    unfolding go by (simp_all add: late_callers_def)
  from run_step [OF run_step [OF run_step [OF run_step [OF run_step [OF run_start st(1)] st(2)] st(3)] st(4)] st(5)]
  show ?thesis by simp
qed

theorem enter_atomic_witness:
  "all_returned (late_callers 2 (Returned True) (Returned False)) \<and>
   from_bits (shared (late_callers 2 (Returned True) (Returned False))) = fold max [Draining, Serving] Starting"
proof -
  have "all_returned (late_callers 2 (Returned True) (Returned False))" by (auto simp: all_returned_def late_callers_def)
  then show ?thesis using enter_atomic [OF late_run [folded late_init]] by blast
qed

text \<open>The published phase never goes back and each phase is entered once. In every state reachable
  by interleaved calls the byte is at least the phase the process was in and at least the target of
  every call that has returned; no two calls that returned true had the same target; and a phase other
  than the first is there because a call that returned true put it there. A late \<^verbatim>\<open>Serving\<close> therefore
  cannot advertise a draining process as ready.\<close>

lemma phases_entered_once:
  assumes "enter_run acts (enter_init p ts) s"
  shows "phase_bits p \<le> shared s \<and>
     (\<forall>i < length (callers s). \<forall>b. pc (callers s ! i) = Returned b \<longrightarrow> target (callers s ! i) \<le> from_bits (shared s)) \<and>
     (\<forall>i j. won s i \<longrightarrow> won s j \<longrightarrow> target (callers s ! i) = target (callers s ! j) \<longrightarrow> i = j) \<and>
     (from_bits (shared s) \<noteq> p \<longrightarrow> (\<exists>i. won s i \<and> target (callers s ! i) = from_bits (shared s)))"
proof -
  have inv: "enter_inv p s" using enter_run_inv [OF assms] by blast
  then obtain q where q: "shared s = phase_bits q" by (auto simp: enter_inv_def)
  have "target (callers s ! i) \<le> q" if "i < length (callers s)" "pc (callers s ! i) = Returned b" for i b
  proof -
    have "caller_ok (shared s) (callers s ! i)" using inv that(1) by (simp add: enter_inv_def)
    then show ?thesis using that(2) q by (simp add: caller_ok_def)
  qed
  then show ?thesis using inv q by (auto simp: enter_inv_def)
qed

section \<open>Every call returns\<close>

text \<open>
  Every step but a spurious failure lowers the rank of the task that moves: a lost race means the byte was
  raised, which can happen four times. A spurious failure leaves the state as it was.
\<close>

definition enter_rank :: "caller \<Rightarrow> nat" where
  "enter_rank k = (case pc k of Called \<Rightarrow> 6 | Loaded c \<Rightarrow> 5 - unat c | Returned _ \<Rightarrow> 0)"

definition total_rank :: "enter_sys \<Rightarrow> nat" where
  "total_rank s = sum_list (map enter_rank (callers s))"

lemma total_rank_move:
  assumes "i < length (callers s)" and "enter_rank ((callers s ! i)\<lparr>pc := q\<rparr>) < enter_rank (callers s ! i)"
  shows "total_rank (move i q s) < total_rank s"
proof -
  have "sum_list (map enter_rank ((callers s)[i := k])) + enter_rank (callers s ! i) =
      sum_list (map enter_rank (callers s)) + enter_rank k" for k
    using assms(1) elem_le_sum_list [of i "map enter_rank (callers s)"] by (simp add: map_update sum_list_update)
  from this [of "(callers s ! i)\<lparr>pc := q\<rparr>"] show ?thesis using assms(2) by (simp add: total_rank_def move_def)
qed

lemma phase_bits_le4: "unat (phase_bits p) \<le> 4"
  by (cases p) simp_all

lemma total_rank_step:
  assumes "enter_inv p s" and "enter_step a s s'"
  shows "total_rank s' + (if a = A_Spurious then 0 else 1) \<le> total_rank s"
proof -
  have sh: "unat (shared s) \<le> 4" using assms(1) phase_bits_le4 by (auto simp: enter_inv_def)
  have le: "unat c \<le> unat (shared s)" if "i < length (callers s)" "pc (callers s ! i) = Loaded c" for i c
  proof -
    have "caller_ok (shared s) (callers s ! i)" using assms(1) that(1) by (simp add: enter_inv_def)
    then show ?thesis using that(2) by (simp add: caller_ok_def word_le_nat_alt)
  qed
  have down: "total_rank (move i q s) < total_rank s"
    if "i < length (callers s)" "pc (callers s ! i) = Loaded c" "enter_rank ((callers s ! i)\<lparr>pc := q\<rparr>) < 5 - unat c" for i c q
    using that by (intro total_rank_move) (simp_all add: enter_rank_def)
  from assms(2) show ?thesis
  proof cases
    case (load i)
    then have "total_rank s' < total_rank s" by (auto intro!: total_rank_move simp: enter_rank_def)
    then show ?thesis using load by simp
  next
    case (refuse i c)
    then have "total_rank s' < total_rank s" using le [of i c] sh down [of i c "Returned False"] by (simp add: enter_rank_def)
    then show ?thesis using refuse by simp
  next
    case (exchange i c)
    then have "total_rank (move i (Returned True) s) < total_rank s"
      using le [of i c] sh down [of i c "Returned True"] by (simp add: enter_rank_def)
    then show ?thesis using exchange by (simp add: total_rank_def)
  next
    case (lost i c)
    then have "unat c < unat (shared s)" using le [of i c] by (metis le_neq_implies_less word_unat_eq_iff)
    then have "total_rank s' < total_rank s" using lost sh down [of i c "Loaded (shared s)"] by (simp add: enter_rank_def)
    then show ?thesis using lost by simp
  next
    case (spurious i c)
    then show ?thesis by (simp add: move_same)
  qed
qed

lemma not_returned_moves:
  assumes "\<not> all_returned s"
  shows "\<exists>a s'. a \<noteq> A_Spurious \<and> enter_step a s s'"
proof -
  obtain i where i: "i < length (callers s)" "\<And>b. pc (callers s ! i) \<noteq> Returned b"
    using assms by (auto simp: all_returned_def in_set_conv_nth)
  show ?thesis
  proof (cases "pc (callers s ! i)")
    case Called
    then show ?thesis using enter_step.load [OF i(1)] by blast
  next
    case (Loaded c)
    then show ?thesis
      using enter_step.refuse [OF i(1) Loaded] enter_step.exchange [OF i(1) Loaded] enter_step.lost [OF i(1) Loaded]
      by (meson enter_act.distinct not_le)
  qed (use i(2) in blast)
qed

text \<open>C24: the loop ends. With \<open>n\<close> calls in progress no interleaving has more than \<open>6 n\<close> steps besides the spurious
  failures of the weak exchange, each call at most one load, four lost races and one return; and as long as a
  call has not returned, some step other than a spurious failure is there to be taken. So unless the
  exchange fails spuriously for ever, all calls return.\<close>

theorem enter_returns:
  assumes "enter_run acts (enter_init p ts) s"
  shows "length acts \<le> 6 * length ts + count_list acts A_Spurious \<and>
    (all_returned s \<or> (\<exists>a s'. a \<noteq> A_Spurious \<and> enter_step a s s'))"
proof -
  have "length acts + total_rank s \<le> 6 * length ts + count_list acts A_Spurious"
    using assms
  proof (induction acts "enter_init p ts" s rule: enter_run.induct)
    case run_start
    show ?case by (simp add: enter_init_def total_rank_def enter_rank_def comp_def sum_list_triv)
  next
    case (run_step acts t a u)
    have "enter_inv p t" using enter_run_inv [OF run_step(1)] by blast
    from total_rank_step [OF this run_step(3)] show ?case using run_step(2) by (auto split: if_splits)
  qed
  then show ?thesis using not_returned_moves [of s] by auto
qed

theorem enter_returns_witness:
  "length [A_Load, A_Load, A_Exchange, A_Lost, A_Refuse] \<le> 6 * length [Draining, Serving] + count_list [A_Load, A_Load, A_Exchange, A_Lost, A_Refuse] A_Spurious"
  using enter_returns [OF late_run [folded late_init]] by blast

end
