(* ===== verification/Admin.thy ===== *)
theory Admin
  imports Metrics Ratelimit Lifecycle
begin

text \<open>
  \<^verbatim>\<open>src/admin.rs\<close>: the admin endpoints over the published phase, the metrics and a reload hook, and
  the two series \<^verbatim>\<open>src/lifecycle.rs\<close> appends to an exposition. The hook is the argument the module
  itself takes: a function on a state it does not look at; its law is the locale \<open>reload_hook\<close>, and
  \<^verbatim>\<open>src/reload.rs\<close> provides it. The router and the sockets are axum's; a request is the endpoint it
  was routed to, the peer address and the text of its Authorization header, where it has one that
  is visible ASCII.
\<close>

section \<open>Data\<close>

datatype reload_error_code =
    ConfigReadFailed | ConfigParseFailed | ConfigInvalid | ZoneBuildFailed | OriginChanged
  | ReloadInProgress | ShuttingDown | NotConfigured | Forbidden | Internal

fun code_as_str :: "reload_error_code \<Rightarrow> string" where
  "code_as_str ConfigReadFailed = ''config_read_failed''"
| "code_as_str ConfigParseFailed = ''config_parse_failed''"
| "code_as_str ConfigInvalid = ''config_invalid''"
| "code_as_str ZoneBuildFailed = ''zone_build_failed''"
| "code_as_str OriginChanged = ''origin_changed''"
| "code_as_str ReloadInProgress = ''reload_in_progress''"
| "code_as_str ShuttingDown = ''shutting_down''"
| "code_as_str NotConfigured = ''not_configured''"
| "code_as_str Forbidden = ''forbidden''"
| "code_as_str Internal = ''internal''"

fun code_status :: "reload_error_code \<Rightarrow> nat" where
  "code_status ConfigReadFailed = 400"
| "code_status ConfigParseFailed = 400"
| "code_status ConfigInvalid = 400"
| "code_status ZoneBuildFailed = 400"
| "code_status OriginChanged = 409"
| "code_status ReloadInProgress = 409"
| "code_status ShuttingDown = 503"
| "code_status NotConfigured = 501"
| "code_status Forbidden = 403"
| "code_status Internal = 500"

text \<open>The prose of a refusal is kept as what it renders.\<close>

datatype 'd detail = Prose string | Cause_Of 'd

record 'd reload_error =
  re_code :: reload_error_code
  re_detail :: "'d detail"
  re_running_origin :: "string option"
  re_requested_origin :: "string option"

definition reload_error_new :: "reload_error_code \<Rightarrow> 'd detail \<Rightarrow> 'd reload_error" where
  "reload_error_new code d = \<lparr>re_code = code, re_detail = d, re_running_origin = None, re_requested_origin = None\<rparr>"

definition with_origins :: "string \<Rightarrow> string \<Rightarrow> 'd reload_error \<Rightarrow> 'd reload_error" where
  "with_origins running requested e = e\<lparr>re_running_origin := Some running, re_requested_origin := Some requested\<rparr>"

record reload_outcome =
  ro_origin :: string
  ro_records :: nat
  ro_ignored :: "string list"

text \<open>A hook that panics gives no result at all.\<close>

type_synonym ('c, 'd) reload_fn = "'c \<Rightarrow> ('d reload_error + reload_outcome) option \<times> 'c"

record ('c, 'd) admin_state =
  as_metrics :: metrics
  as_lifecycle :: lifecycle
  as_reloads :: u64
  as_reload :: "('c, 'd) reload_fn option"
  as_token :: "string option"

definition admin_new :: "metrics \<Rightarrow> ('c, 'd) admin_state" where
  "admin_new m = \<lparr>as_metrics = m, as_lifecycle = lifecycle_new, as_reloads = 0, as_reload = None, as_token = None\<rparr>"

definition with_lifecycle :: "lifecycle \<Rightarrow> ('c, 'd) admin_state \<Rightarrow> ('c, 'd) admin_state" where
  "with_lifecycle l s = s\<lparr>as_lifecycle := l\<rparr>"

definition with_reload :: "('c, 'd) reload_fn \<Rightarrow> ('c, 'd) admin_state \<Rightarrow> ('c, 'd) admin_state" where
  "with_reload hook s = s\<lparr>as_reload := Some hook\<rparr>"

definition with_token :: "string option \<Rightarrow> ('c, 'd) admin_state \<Rightarrow> ('c, 'd) admin_state" where
  "with_token tok s = s\<lparr>as_token := tok\<rparr>"

definition mark_ready :: "('c, 'd) admin_state \<Rightarrow> ('c, 'd) admin_state" where
  "mark_ready s = s\<lparr>as_lifecycle := snd (enter Serving (as_lifecycle s))\<rparr>"

definition mark_unready :: "('c, 'd) admin_state \<Rightarrow> ('c, 'd) admin_state" where
  "mark_unready s = s\<lparr>as_lifecycle := snd (enter Draining (as_lifecycle s))\<rparr>"

section \<open>Who may mutate\<close>

definition v4_loopback :: "u32 \<Rightarrow> bool" where
  "v4_loopback v4 \<longleftrightarrow> drop_bit 24 v4 = 127"

definition is_local :: "ip_addr \<Rightarrow> bool" where
  "is_local ip =
     (let canonical = (case ip of
          V4 _ \<Rightarrow> ip
        | V6 v6 \<Rightarrow> (case to_ipv4_mapped v6 of None \<Rightarrow> ip | Some v4 \<Rightarrow> V4 v4))
      in case canonical of V4 v4 \<Rightarrow> v4_loopback v4 | V6 v6 \<Rightarrow> v6 = 1)"

definition strip_prefix :: "string \<Rightarrow> string \<Rightarrow> string option" where
  "strip_prefix p s = (if prefix p s then Some (drop (length p) s) else None)"

definition bearer :: "string option \<Rightarrow> string option" where
  "bearer authorization = Option.bind authorization (\<lambda>v. map_option trim (strip_prefix ''Bearer '' v))"

definition constant_time_eq :: "string \<Rightarrow> string \<Rightarrow> bool" where
  "constant_time_eq a b =
     (if length a \<noteq> length b then False
      else fold (\<lambda>(x, y) acc. acc OR (x XOR y)) (zip (octets a) (octets b)) (0 :: u8) = 0)"

definition may_mutate :: "('c, 'd) admin_state \<Rightarrow> ip_addr \<Rightarrow> string option \<Rightarrow> bool" where
  "may_mutate s peer authorization =
     (case as_token s of
        Some expected \<Rightarrow> is_some_and (bearer authorization)
          (\<lambda>given. length given = length expected \<and> constant_time_eq given expected)
      | None \<Rightarrow> is_local peer)"

section \<open>The endpoints\<close>

text \<open>Times are in nanoseconds here. The version and the name of the crate, and the occupancy of the
  limiter at the moment of the scrape, are arguments.\<close>

datatype 'd body =
    Plain string
  | Exposition "sample list"
  | Version string string bool nat u64
  | Reloaded string nat u64 "string list"
  | Unchanged reload_error_code "'d detail" "string option" "string option"

record 'd http_response =
  ht_status :: nat
  ht_phase :: "string option"
  ht_body :: "'d body"

definition reply :: "nat \<Rightarrow> 'd body \<Rightarrow> 'd http_response" where
  "reply status b = \<lparr>ht_status = status, ht_phase = None, ht_body = b\<rparr>"

definition healthz :: "'d http_response" where
  "healthz = reply 200 (Plain (''ok'' @ [CHR 0x0A]))"

definition readyz :: "('c, 'd) admin_state \<Rightarrow> 'd http_response" where
  "readyz s = (case phase_of (as_lifecycle s) of
       Serving \<Rightarrow> reply 200 (Plain (''ready'' @ [CHR 0x0A]))
     | Starting \<Rightarrow> reply 503 (Plain (''not ready'' @ [CHR 0x0A]))
     | _ \<Rightarrow> reply 503 (Plain (''draining'' @ [CHR 0x0A])))"

definition render_lifecycle :: "nat \<Rightarrow> lifecycle \<Rightarrow> sample list" where
  "render_lifecycle now l =
     (''dns_shutdown_phase'', [], Whole (ucast (phase_bits (phase_of l)))) #
     (case deadline_in now l of
        None \<Rightarrow> []
      | Some remaining \<Rightarrow> [(''dns_shutdown_deadline_seconds'', [], Fraction remaining 1000000000)])"

definition metrics_endpoint :: "string \<Rightarrow> (nat \<Rightarrow> string) \<Rightarrow> nat \<Rightarrow> (nat \<times> nat) option \<Rightarrow> ('c, 'd) admin_state \<Rightarrow> 'd http_response" where
  "metrics_endpoint ver seconds now limiter s =
     reply 200 (Exposition (render_prometheus ver seconds now limiter (as_metrics s) @ render_lifecycle now (as_lifecycle s)))"

definition version_endpoint :: "string \<Rightarrow> nat \<Rightarrow> ('c, 'd) admin_state \<Rightarrow> 'd http_response" where
  "version_endpoint ver now s =
     (let p = phase_of (as_lifecycle s) in
      reply 200 (Version ver (phase_as_str p) (p = Serving) (uptime now (as_metrics s) div 1000000000) (as_reloads s)))"

definition refused_body :: "'d reload_error \<Rightarrow> 'd http_response" where
  "refused_body e = reply (code_status (re_code e))
     (Unchanged (re_code e) (re_detail e) (re_running_origin e) (re_requested_origin e))"

definition reload_endpoint :: "ip_addr \<Rightarrow> string option \<Rightarrow> ('c, 'd) admin_state \<Rightarrow> 'c
    \<Rightarrow> 'd http_response \<times> ('c, 'd) admin_state \<times> 'c" where
  "reload_endpoint peer authorization s ctx =
     (case as_reload s of
        None \<Rightarrow> (refused_body (reload_error_new NotConfigured
                    (Prose ''reload is not available: the server was started without a config file'')), s, ctx)
      | Some hook \<Rightarrow>
          if is_draining (as_lifecycle s) then
            (refused_body (reload_error_new ShuttingDown
               (Prose ''draining: the process is shutting down; the next instance reads the file at startup'')), s, ctx)
          else if \<not> may_mutate s peer authorization then
            (refused_body (reload_error_new Forbidden (Prose ''forbidden: set --admin-token, or call /reload from loopback'')), s, ctx)
          else case hook ctx of
            (Some (Inr out), ctx) \<Rightarrow>
              (let count = as_reloads s + 1 in
               (reply 200 (Reloaded (ro_origin out) (ro_records out) count (ro_ignored out)), s\<lparr>as_reloads := count\<rparr>, ctx))
          | (Some (Inl e), ctx) \<Rightarrow> (refused_body e, s, ctx)
          | (None, ctx) \<Rightarrow> (refused_body (reload_error_new Internal (Prose ''reload task failed'')), s, ctx))"

datatype endpoint = Get_healthz | Get_readyz | Get_metrics | Get_version | Post_reload | Fallback

definition phase_header :: "('c, 'd) admin_state \<Rightarrow> 'd http_response \<Rightarrow> 'd http_response" where
  "phase_header s r = r\<lparr>ht_phase := Some (phase_as_str (phase_of (as_lifecycle s)))\<rparr>"

definition router :: "string \<Rightarrow> (nat \<Rightarrow> string) \<Rightarrow> nat \<Rightarrow> (nat \<times> nat) option \<Rightarrow> endpoint \<Rightarrow> ip_addr \<Rightarrow> string option
    \<Rightarrow> ('c, 'd) admin_state \<Rightarrow> 'c \<Rightarrow> 'd http_response \<times> ('c, 'd) admin_state \<times> 'c" where
  "router ver seconds now limiter ep peer authorization s ctx =
     (let (r, s', ctx') = (case ep of
          Get_healthz \<Rightarrow> (healthz, s, ctx)
        | Get_readyz \<Rightarrow> (readyz s, s, ctx)
        | Get_metrics \<Rightarrow> (metrics_endpoint ver seconds now limiter s, s, ctx)
        | Get_version \<Rightarrow> (version_endpoint ver now s, s, ctx)
        | Post_reload \<Rightarrow> reload_endpoint peer authorization s ctx
        | Fallback \<Rightarrow> (reply 404 (Plain []), s, ctx))
      in (phase_header s r, s', ctx'))"

section \<open>Authorisation\<close>

lemma octets_inj: "octets a = octets b \<longleftrightarrow> a = b"
proof -
  have "inj (\<lambda>c. of_nat (of_char c) :: u8)"
  proof (rule injI)
    fix c d :: char
    assume "(of_nat (of_char c) :: u8) = of_nat (of_char d)"
    then have "unat (of_nat (of_char c) :: u8) = unat (of_nat (of_char d) :: u8)" by (rule arg_cong)
    then have "(of_char c :: nat) = of_char d" using nat_of_char_less_256 [of c] nat_of_char_less_256 [of d]
      by (simp add: unat_of_nat)
    then show "c = d" by simp
  qed
  then show ?thesis by (simp add: octets_def inj_map_eq_map)
qed

lemma difference_zero: "acc OR (x XOR y) = (0 :: u8) \<longleftrightarrow> acc = 0 \<and> x = y"
  by (auto simp: bit_eq_iff bit_or_iff bit_xor_iff)

lemma fold_difference:
  "length xs = length ys \<Longrightarrow>
     fold (\<lambda>(x, y) acc. acc OR (x XOR y)) (zip xs ys) acc = (0 :: u8) \<longleftrightarrow> acc = 0 \<and> xs = ys"
  by (induction xs ys arbitrary: acc rule: list_induct2) (auto simp: difference_zero)

lemma constant_time_eq_iff: "constant_time_eq a b \<longleftrightarrow> a = b"
proof (cases "length a = length b")
  case True
  then have "length (octets a) = length (octets b)" by (simp add: octets_def)
  then show ?thesis using True by (simp add: constant_time_eq_def fold_difference octets_inj)
qed (auto simp: constant_time_eq_def)

lemma strip_prefix_Some: "strip_prefix p s = Some r \<longleftrightarrow> s = p @ r"
  by (auto simp: strip_prefix_def prefix_def)

lemma bearer_Some: "bearer a = Some g \<longleftrightarrow> (\<exists>r. a = Some (''Bearer '' @ r) \<and> g = trim r)"
  by (cases a) (auto simp: bearer_def strip_prefix_Some)

text \<open>The addresses of this machine: 127.0.0.0/8, written as IPv4 or mapped into IPv6, and \<^verbatim>\<open>::1\<close>.\<close>

definition this_host :: "ip_addr \<Rightarrow> bool" where
  "this_host ip = (case ip of
       V4 v4 \<Rightarrow> unat v4 div 2 ^ 24 = 127
     | V6 v6 \<Rightarrow> unat v6 = 1 \<or> unat v6 div 2 ^ 24 = 0xffff7f)"

lemma v4_loopback_iff: "v4_loopback v \<longleftrightarrow> unat v div 2 ^ 24 = 127"
  by (simp add: v4_loopback_def word_unat_eq_iff unat_drop_bit)

lemma mapped_octets:
  "m div 4294967296 = m div 16777216 div 256" "m mod 4294967296 div 16777216 = m div 16777216 mod 256" for m :: nat
proof -
  have p: "4294967296 = 16777216 * (256 :: nat)" by simp
  show "m div 4294967296 = m div 16777216 div 256" by (simp only: p div_mult2_eq)
  show "m mod 4294967296 div 16777216 = m div 16777216 mod 256" by (simp only: p mod_mult2_eq)
qed

lemma is_local_iff: "is_local ip \<longleftrightarrow> this_host ip"
proof (cases ip)
  case (V4 v)
  then show ?thesis by (simp add: is_local_def this_host_def v4_loopback_iff)
next
  case (V6 v)
  define k where "k = unat v div 16777216"
  have u: "unat (ucast v :: u32) div 16777216 = k mod 256"
    by (simp add: unsigned_ucast_eq take_bit_eq_mod mapped_octets k_def)
  have one: "v = 1 \<longleftrightarrow> unat v = 1" by (simp add: word_unat_eq_iff)
  have "unat v = 1 \<Longrightarrow> k = 0" by (simp add: k_def)
  moreover have "k = 0xffff7f \<longleftrightarrow> k div 256 = 0xffff \<and> k mod 256 = 127"
    using div_mult_mod_eq [of k 256] by (intro iffI) simp_all
  ultimately show ?thesis using V6 one
    by (auto simp: is_local_def this_host_def to_ipv4_mapped_eq v4_loopback_iff u mapped_octets(1) k_def [symmetric])
qed

text \<open>C32: only an authorised caller may change the server. With a token configured the caller must
  present it as a bearer token, octet for octet once blanks around it are trimmed, from any address;
  without one the caller must be on this machine, over IPv4, IPv6 or IPv4 mapped into IPv6.\<close>

theorem may_mutate_iff:
  "may_mutate s peer authorization =
     (case as_token s of
        None \<Rightarrow> this_host peer
      | Some expected \<Rightarrow> \<exists>given. authorization = Some (''Bearer '' @ given) \<and> trim given = expected)"
proof (cases "as_token s")
  case (Some expected)
  have "may_mutate s peer authorization \<longleftrightarrow> bearer authorization = Some expected"
    using Some by (cases "bearer authorization") (auto simp: may_mutate_def constant_time_eq_iff)
  then show ?thesis using Some by (auto simp: bearer_Some)
qed (simp add: may_mutate_def is_local_iff)

text \<open>A token configured with blanks around it can be presented by no caller.\<close>

lemma padded_token_locks_out:
  "as_token s = Some tok \<Longrightarrow> trim tok \<noteq> tok \<Longrightarrow> \<not> may_mutate s peer authorization"
proof
  assume t: "as_token s = Some tok" "trim tok \<noteq> tok" and m: "may_mutate s peer authorization"
  then have "bearer authorization = Some tok"
    by (cases "bearer authorization") (auto simp: may_mutate_def constant_time_eq_iff)
  then show False using t trim_idem by (auto simp: bearer_Some)
qed

section \<open>The drain as the endpoints see it\<close>

lemma draining_phases: "is_draining l \<longleftrightarrow> phase_of l \<in> {Draining, Stopping, Closing}"
  by (cases "phase_of l") (simp_all add: is_draining_def less_eq_phase_def word_le_nat_alt)

lemma readyz_draining: "is_draining (as_lifecycle s) \<Longrightarrow> ht_status (readyz s) = 503"
  by (auto simp: readyz_def draining_phases reply_def)

lemma readyz_ready: "ht_status (readyz s) = 200 \<longleftrightarrow> is_ready (as_lifecycle s)"
  by (cases "phase_of (as_lifecycle s)") (simp_all add: readyz_def is_ready_def reply_def)

lemma reload_draining:
  "is_draining (as_lifecycle s) \<Longrightarrow> reload_endpoint peer authorization s ctx = (r, s', ctx') \<Longrightarrow>
     s' = s \<and> ctx' = ctx \<and> ht_status r \<in> {501, 503}"
  by (auto simp: reload_endpoint_def refused_body_def reply_def reload_error_new_def split: option.splits)

text \<open>Once draining is published it stays visible. Whatever phases any task still tries to enter,
  the readiness probe answers 503 and liveness 200, a reload is refused with 501 or 503 before its
  hook is reached, whoever asks, and every response carries a phase no earlier than draining.\<close>

lemma drain_closes_admin:
  assumes "lifecycle_ok (as_lifecycle s)" and "is_draining (as_lifecycle s)"
  shows "let s' = s\<lparr>as_lifecycle := fold publish ps (as_lifecycle s)\<rparr>;
             ask = (\<lambda>ep. router ver seconds now limiter ep peer authorization s' ctx)
         in ht_status (fst (ask Get_readyz)) = 503 \<and> ht_status (fst (ask Get_healthz)) = 200 \<and>
            snd (ask Post_reload) = (s', ctx) \<and> ht_status (fst (ask Post_reload)) \<in> {501, 503} \<and>
            (\<forall>ep. ht_phase (fst (ask ep)) \<in> Some ` {''draining'', ''stopping'', ''closing''})"
proof -
  define s' where "s' = s\<lparr>as_lifecycle := fold publish ps (as_lifecycle s)\<rparr>"
  have d: "is_draining (as_lifecycle s')"
    using life.raise_all_keeps [OF assms(1), of Draining ps] assms(2) by (simp add: is_draining_def s'_def)
  obtain r s2 c2 where r: "reload_endpoint peer authorization s' ctx = (r, s2, c2)" by (metis surj_pair)
  have "phase_as_str (phase_of (as_lifecycle s')) \<in> {''draining'', ''stopping'', ''closing''}"
    using d by (auto simp: draining_phases)
  then show ?thesis using readyz_draining [OF d] reload_draining [OF d r] r
    by (simp add: router_def phase_header_def Let_def s'_def [symmetric] healthz_def reply_def split: prod.split)
qed

definition demo_draining :: "(unit, unit) admin_state" where
  "demo_draining = mark_unready (admin_new (metrics_new 0))"

section \<open>The contract of the hook\<close>

text \<open>
  What the endpoint relies on: a hook that does not report success has left everything as it was.
  Then no request other than an accepted reload changes anything, and the counter of reloads counts
  the successes.
\<close>

locale reload_hook =
  fixes hook :: "('c, 'd) reload_fn"
  assumes refused_unchanged: "hook c = (r, c') \<Longrightarrow> \<forall>out. r \<noteq> Some (Inr out) \<Longrightarrow> c' = c"
begin

lemma endpoint_refused_unchanged:
  assumes "as_reload s = Some hook" and "reload_endpoint peer authorization s c = (r, s', c')" and "ht_status r \<noteq> 200"
  shows "s' = s \<and> c' = c"
  using assms refused_unchanged [of c]
  by (auto simp: reload_endpoint_def reply_def Let_def split: if_splits prod.splits option.splits sum.splits)

lemma endpoint_accepted:
  assumes "as_reload s = Some hook" and "reload_endpoint peer authorization s c = (r, s', c')" and "ht_status r = 200"
  shows "\<not> is_draining (as_lifecycle s) \<and> may_mutate s peer authorization \<and>
     as_reloads s' = as_reloads s + 1 \<and> (\<exists>out. hook c = (Some (Inr out), c') \<and>
       ht_body r = Reloaded (ro_origin out) (ro_records out) (as_reloads s') (ro_ignored out))"
proof -
  have ne: "ht_status (refused_body e) \<noteq> 200" for e :: "'d reload_error"
    by (cases "re_code e") (simp_all add: refused_body_def reply_def)
  show ?thesis using assms ne
    by (auto simp: reload_endpoint_def reply_def Let_def split: if_splits prod.splits option.splits sum.splits)
qed

end

end
