(* ===== verification/Reload.thy ===== *)
theory Reload
  imports Handler_Theorems Admin Config
begin

text \<open>
  \<^verbatim>\<open>src/reload.rs\<close>, and the part of \<^verbatim>\<open>serve\<close> in \<^verbatim>\<open>src/main.rs\<close> that builds what a reload changes.
  The gates come in the order of the source; the operating system's file and the TOML reader enter
  through \<open>resolve_config\<close>, the iteration order and the seed of the new zone through
  \<open>from_config\<close>. The two readings of the drain token and the outcome of the lock are arguments of
  \<open>reload\<close>; the theory of concurrent calls supplies them from a shared state. The metrics of the
  context are those of the handler, as \<^verbatim>\<open>serve\<close> shares one object between them.
\<close>

section \<open>Data\<close>

definition KEY_ORIGIN :: string where "KEY_ORIGIN = ''zone.origin''"
definition KEY_UDP :: string where "KEY_UDP = ''server.udp''"
definition KEY_TCP :: string where "KEY_TCP = ''server.tcp''"
definition KEY_ADMIN_LISTEN :: string where "KEY_ADMIN_LISTEN = ''server.admin_listen''"
definition KEY_TCP_TIMEOUT :: string where "KEY_TCP_TIMEOUT = ''server.tcp_timeout_secs''"
definition KEY_SHUTDOWN_DRAIN :: string where "KEY_SHUTDOWN_DRAIN = ''server.shutdown_drain_secs''"
definition KEY_LOG_FORMAT :: string where "KEY_LOG_FORMAT = ''server.log_format''"
definition KEY_LOG_LEVEL :: string where "KEY_LOG_LEVEL = ''server.log_level''"
definition KEY_ADMIN_TOKEN :: string where "KEY_ADMIN_TOKEN = ''server.admin_token''"
definition KEY_RATE_LIMIT_QPS :: string where "KEY_RATE_LIMIT_QPS = ''server.rate_limit.qps''"
definition KEY_RATE_LIMIT_BURST :: string where "KEY_RATE_LIMIT_BURST = ''server.rate_limit.burst''"

definition MAX_IGNORED :: nat where "MAX_IGNORED = 11"

lemmas reload_keys = KEY_ORIGIN_def KEY_UDP_def KEY_TCP_def KEY_ADMIN_LISTEN_def KEY_TCP_TIMEOUT_def
  KEY_SHUTDOWN_DRAIN_def KEY_LOG_FORMAT_def KEY_LOG_LEVEL_def KEY_ADMIN_TOKEN_def KEY_RATE_LIMIT_QPS_def
  KEY_RATE_LIMIT_BURST_def

datatype reload_cause =
    From_Config config_error
  | Bad_Origin string
  | Origin_Moved string string
  | From_Zone zone_error

type_synonym refusal = "reload_cause reload_error"

record reload_context =
  rc_invocation :: global_args
  rc_source :: string
  rc_handler :: dns_handler
  rc_running :: config

datatype try_lock = Acquired | Poisoned | WouldBlock

definition context_new :: "global_args \<Rightarrow> string \<Rightarrow> dns_handler \<Rightarrow> config \<Rightarrow> reload_context" where
  "context_new invocation source handler running =
     \<lparr>rc_invocation = invocation\<lparr>cli_config := Some source\<rparr>, rc_source = source, rc_handler = handler, rc_running = running\<rparr>"

definition apply_reloadable :: "config \<Rightarrow> config \<Rightarrow> config" where
  "apply_reloadable fresh running =
     running\<lparr>cfg_zone := (cfg_zone running)\<lparr>zc_default_ttl := zc_default_ttl (cfg_zone fresh),
       zc_builtins := zc_builtins (cfg_zone fresh), zc_soa := zc_soa (cfg_zone fresh),
       zc_records := zc_records (cfg_zone fresh)\<rparr>\<rparr>"

section \<open>Origins and drift\<close>

definition canonical_origin :: "hickory \<Rightarrow> string \<Rightarrow> string + name" where
  "canonical_origin E origin = rbind (ok_or origin (name_from_str E origin)) (\<lambda>n. Inr (lower_from E n))"

definition same_origin :: "hickory \<Rightarrow> string \<Rightarrow> string \<Rightarrow> bool" where
  "same_origin E left right =
     (case (canonical_origin E left, canonical_origin E right) of
        (Inr l, Inr r) \<Rightarrow> l = r
      | _ \<Rightarrow> False)"

definition push_if :: "bool \<Rightarrow> string \<Rightarrow> string list" where
  "push_if changed key = (if changed then [key] else [])"

definition limit_qps :: "rate_limit_config option \<Rightarrow> u32" where
  "limit_qps limit = (case limit of None \<Rightarrow> 0 | Some l \<Rightarrow> rl_qps l)"

definition limit_burst :: "rate_limit_config option \<Rightarrow> u32" where
  "limit_burst limit = (case limit of None \<Rightarrow> 0 | Some l \<Rightarrow> rl_burst l)"

definition stated_drain :: "int option \<Rightarrow> nat \<Rightarrow> bool" where
  "stated_drain secs running = is_some_and secs (\<lambda>s. if 0 \<le> s then nat s \<noteq> running else True)"

definition drift :: "hickory \<Rightarrow> config \<Rightarrow> file_settings \<Rightarrow> config \<Rightarrow> string list" where
  "drift E running stated fresh =
     (let origin = zc_origin (cfg_zone running) in
      push_if (is_some_and (fs_origin stated) (\<lambda>text. \<not> same_origin E text origin)
        \<or> \<not> same_origin E (zc_origin (cfg_zone fresh)) origin) KEY_ORIGIN @
      push_if (fs_udp stated \<noteq> [] \<and> fs_udp stated \<noteq> cfg_udp running \<or> cfg_udp fresh \<noteq> cfg_udp running) KEY_UDP @
      push_if (fs_tcp stated \<noteq> [] \<and> fs_tcp stated \<noteq> cfg_tcp running \<or> cfg_tcp fresh \<noteq> cfg_tcp running) KEY_TCP @
      push_if (is_some_and (fs_admin_listen stated) (\<lambda>a. Some a \<noteq> cfg_admin_listen running)
        \<or> cfg_admin_listen fresh \<noteq> cfg_admin_listen running) KEY_ADMIN_LISTEN @
      push_if (is_some_and (fs_tcp_timeout_secs stated) (\<lambda>s. unat s \<noteq> cfg_tcp_timeout running)
        \<or> cfg_tcp_timeout fresh \<noteq> cfg_tcp_timeout running) KEY_TCP_TIMEOUT @
      push_if (stated_drain (fs_shutdown_drain_secs stated) (cfg_shutdown_drain running)
        \<or> cfg_shutdown_drain fresh \<noteq> cfg_shutdown_drain running) KEY_SHUTDOWN_DRAIN @
      push_if (is_some_and (fs_log_format stated) (\<lambda>f. f \<noteq> cfg_log_format running)
        \<or> cfg_log_format fresh \<noteq> cfg_log_format running) KEY_LOG_FORMAT @
      push_if (is_some_and (fs_log_level stated) (\<lambda>l. l \<noteq> cfg_log_level running)
        \<or> cfg_log_level fresh \<noteq> cfg_log_level running) KEY_LOG_LEVEL @
      push_if (fs_admin_token stated \<noteq> None \<and> fs_admin_token stated \<noteq> cfg_admin_token running
        \<or> cfg_admin_token fresh \<noteq> cfg_admin_token running) KEY_ADMIN_TOKEN @
      push_if (is_some_and (fs_rate_limit_qps stated) (\<lambda>q. q \<noteq> limit_qps (cfg_rate_limit running))
        \<or> limit_qps (cfg_rate_limit fresh) \<noteq> limit_qps (cfg_rate_limit running)) KEY_RATE_LIMIT_QPS @
      push_if (is_some_and (fs_rate_limit_burst stated) (\<lambda>b. b \<noteq> limit_burst (cfg_rate_limit running))
        \<or> limit_burst (cfg_rate_limit fresh) \<noteq> limit_burst (cfg_rate_limit running)) KEY_RATE_LIMIT_BURST)"

section \<open>The reload\<close>

definition shutting_down :: refusal where
  "shutting_down = reload_error_new ShuttingDown (Prose ''the server is shutting down; reload refused'')"

definition in_progress :: refusal where
  "in_progress = reload_error_new ReloadInProgress (Prose ''a reload is already in progress'')"

definition stage_code :: "load_stage \<Rightarrow> reload_error_code" where
  "stage_code stage = (case stage of Read \<Rightarrow> ConfigReadFailed | Parse \<Rightarrow> ConfigParseFailed | Validate \<Rightarrow> ConfigInvalid)"

definition resolve_fresh :: "(string \<Rightarrow> string option) \<Rightarrow> (string \<Rightarrow> file_config option) \<Rightarrow> reload_context
    \<Rightarrow> refusal + (config \<times> file_settings)" where
  "resolve_fresh read_to_string deserialize ctx =
     (case resolve_config read_to_string deserialize (rc_invocation ctx) of
        Inl (stage, e) \<Rightarrow> Inl (reload_error_new (stage_code stage) (Cause_Of (From_Config e)))
      | Inr r \<Rightarrow> Inr r)"

definition origin_gate :: "hickory \<Rightarrow> config \<Rightarrow> config \<Rightarrow> refusal + unit" where
  "origin_gate E running fresh =
     (let requested_text = zc_origin (cfg_zone fresh); running_text = zc_origin (cfg_zone running) in
      case canonical_origin E requested_text of
        Inl bad \<Rightarrow> Inl (reload_error_new ConfigInvalid (Cause_Of (Bad_Origin bad)))
      | Inr requested \<Rightarrow>
          (case canonical_origin E running_text of
             Inl bad \<Rightarrow> Inl (reload_error_new Internal (Cause_Of (Bad_Origin bad)))
           | Inr current \<Rightarrow>
               if requested \<noteq> current then
                 Inl (with_origins running_text requested_text
                   (reload_error_new OriginChanged (Cause_Of (Origin_Moved running_text requested_text))))
               else Inr ()))"

definition build_fresh :: "hickory \<Rightarrow> (entry list \<Rightarrow> entry list) \<Rightarrow> u64 \<Rightarrow> config \<Rightarrow> refusal + zone" where
  "build_fresh E iter seed fresh =
     (case from_config E iter seed (cfg_zone fresh) of
        Inl e \<Rightarrow> Inl (reload_error_new ZoneBuildFailed (Cause_Of (From_Zone e)))
      | Inr Z \<Rightarrow> Inr Z)"

text \<open>Steps 2 to 6: everything that only reads the world and allocates privately.\<close>

definition prepare :: "hickory \<Rightarrow> (entry list \<Rightarrow> entry list) \<Rightarrow> u64 \<Rightarrow> (string \<Rightarrow> string option)
    \<Rightarrow> (string \<Rightarrow> file_config option) \<Rightarrow> reload_context \<Rightarrow> refusal + (config \<times> file_settings \<times> zone)" where
  "prepare E iter seed read_to_string deserialize ctx =
     rbind (resolve_fresh read_to_string deserialize ctx) (\<lambda>(fresh, stated).
     rbind (origin_gate E (rc_running ctx) fresh) (\<lambda>_.
     rbind (build_fresh E iter seed fresh) (\<lambda>Z. Inr (fresh, stated, Z))))"

text \<open>Steps 9 to 12, one definition per write to shared state.\<close>

definition swap_zone :: "hickory \<Rightarrow> config \<Rightarrow> zone \<Rightarrow> reload_context \<Rightarrow> reload_context" where
  "swap_zone E fresh Z ctx = ctx\<lparr>rc_handler := replace_zone E Z (zc_builtins (cfg_zone fresh)) (rc_handler ctx)\<rparr>"

definition set_gauge :: "nat \<Rightarrow> reload_context \<Rightarrow> reload_context" where
  "set_gauge records ctx = ctx\<lparr>rc_handler := (rc_handler ctx)\<lparr>h_metrics :=
     set_zone_records (of_nat records) (h_metrics (rc_handler ctx))\<rparr>\<rparr>"

definition commit :: "hickory \<Rightarrow> config \<Rightarrow> file_settings \<Rightarrow> nat \<Rightarrow> reload_context \<Rightarrow> reload_outcome \<times> reload_context" where
  "commit E fresh stated records ctx =
     (\<lparr>ro_origin = zc_origin (cfg_zone fresh), ro_records = records, ro_ignored = drift E (rc_running ctx) stated fresh\<rparr>,
      ctx\<lparr>rc_running := apply_reloadable fresh (rc_running ctx)\<rparr>)"

definition reload :: "hickory \<Rightarrow> (entry list \<Rightarrow> entry list) \<Rightarrow> u64 \<Rightarrow> (string \<Rightarrow> string option) \<Rightarrow> (string \<Rightarrow> file_config option)
    \<Rightarrow> bool \<Rightarrow> try_lock \<Rightarrow> bool \<Rightarrow> reload_context \<Rightarrow> (refusal + reload_outcome) \<times> reload_context" where
  "reload E iter seed read_to_string deserialize draining lock draining_later ctx =
     (if draining then (Inl shutting_down, ctx)
      else if lock = WouldBlock then (Inl in_progress, ctx)
      else case prepare E iter seed read_to_string deserialize ctx of
        Inl e \<Rightarrow> (Inl e, ctx)
      | Inr (fresh, stated, Z) \<Rightarrow>
          if draining_later then (Inl shutting_down, ctx)
          else (let records = record_count Z;
                    (out, ctx) = commit E fresh stated records (set_gauge records (swap_zone E fresh Z ctx))
                in (Inr out, ctx)))"

definition hook :: "hickory \<Rightarrow> (entry list \<Rightarrow> entry list) \<Rightarrow> u64 \<Rightarrow> (string \<Rightarrow> string option) \<Rightarrow> (string \<Rightarrow> file_config option)
    \<Rightarrow> bool \<Rightarrow> try_lock \<Rightarrow> bool \<Rightarrow> (reload_context, reload_cause) reload_fn" where
  "hook E iter seed read_to_string deserialize draining lock draining_later ctx =
     (case reload E iter seed read_to_string deserialize draining lock draining_later ctx of (r, ctx) \<Rightarrow> (Some r, ctx))"

section \<open>Start-up\<close>

definition boot :: "hickory \<Rightarrow> (entry list \<Rightarrow> entry list) \<Rightarrow> u64 \<Rightarrow> (u64 \<Rightarrow> u64) \<Rightarrow> nat \<Rightarrow> config \<Rightarrow> zone_error + dns_handler" where
  "boot E iter seed hash now config =
     rbind (from_config E iter seed (cfg_zone config)) (\<lambda>Z.
     let limiter = map_option (\<lambda>rl. new_limiter (rl_qps rl) (rl_burst rl) hash now) (cfg_rate_limit config);
         m = set_zone_records (of_nat (record_count Z)) (metrics_new now)
     in Inr (handler_new E Z (cfg_zone config) m limiter))"

section \<open>The gates\<close>

lemma canonical_origin_Inr:
  "canonical_origin E s = Inr n \<longleftrightarrow> (\<exists>m. name_from_str E s = Some m \<and> n = lower_from E m)"
  by (auto simp: canonical_origin_def rbind_eq_Inr ok_or_eq_Inr)

lemma same_origin_iff: "same_origin E l r \<longleftrightarrow> (\<exists>n. canonical_origin E l = Inr n \<and> canonical_origin E r = Inr n)"
  by (auto simp: same_origin_def split: sum.splits)

lemma from_config_origin:
  assumes "hickory_ok E" and "iter_ok iter" and "from_config E iter seed cfg = Inr Z"
  shows "canonical_origin E (zc_origin cfg) = Inr (lower_origin Z)"
proof (rule from_config_Inr [OF assms(1,3)])
  fix origin b sc
  assume o: "name_from_str E (zc_origin cfg) = Some origin" and b: "builder_ok b" "b_lower_origin b = lower_name origin"
    and f: "finish E iter seed b sc = Inr Z"
  from finish_built [OF assms(1,2) b(1) f] obtain es order where "built E (b_lower_origin b) es order Z" by blast
  then show ?thesis using o b(2) assms(1) by (simp add: canonical_origin_Inr built_facts(5))
qed

lemma origin_gate_Inr:
  "origin_gate E running fresh = Inr u \<longleftrightarrow> same_origin E (zc_origin (cfg_zone fresh)) (zc_origin (cfg_zone running))"
  by (auto simp: origin_gate_def same_origin_def Let_def split: sum.splits)

lemma resolve_fresh_Inr:
  "resolve_fresh rd de ctx = Inr r \<longleftrightarrow> resolve_config rd de (rc_invocation ctx) = Inr r"
  by (auto simp: resolve_fresh_def split: sum.splits)

lemma build_fresh_Inr: "build_fresh E iter seed fresh = Inr Z \<longleftrightarrow> from_config E iter seed (cfg_zone fresh) = Inr Z"
  by (auto simp: build_fresh_def split: sum.splits)

lemma prepare_Inr:
  "prepare E iter seed rd de ctx = Inr (fresh, stated, Z) \<longleftrightarrow>
     resolve_config rd de (rc_invocation ctx) = Inr (fresh, stated) \<and>
     same_origin E (zc_origin (cfg_zone fresh)) (zc_origin (cfg_zone (rc_running ctx))) \<and>
     from_config E iter seed (cfg_zone fresh) = Inr Z"
  by (auto simp: prepare_def rbind_eq_Inr resolve_fresh_Inr origin_gate_Inr build_fresh_Inr)

section \<open>A reload applies the file or nothing\<close>

definition installed :: "hickory \<Rightarrow> config \<Rightarrow> file_settings \<Rightarrow> zone \<Rightarrow> reload_context \<Rightarrow> reload_outcome \<Rightarrow> reload_context \<Rightarrow> bool" where
  "installed E fresh stated Z ctx out ctx' \<longleftrightarrow>
     rc_handler ctx' = \<lparr>h_active = active_new E Z (zc_builtins (cfg_zone fresh)),
       h_metrics = set_zone_records (of_nat (record_count Z)) (h_metrics (rc_handler ctx)), h_limiter = h_limiter (rc_handler ctx)\<rparr> \<and>
     rc_running ctx' = (rc_running ctx)\<lparr>cfg_zone := (cfg_zone fresh)\<lparr>zc_origin := zc_origin (cfg_zone (rc_running ctx))\<rparr>\<rparr> \<and>
     rc_invocation ctx' = rc_invocation ctx \<and> rc_source ctx' = rc_source ctx \<and>
     out = \<lparr>ro_origin = zc_origin (cfg_zone fresh), ro_records = record_count Z, ro_ignored = drift E (rc_running ctx) stated fresh\<rparr>"

lemma reload_refused: "reload E iter seed rd de d lock d' ctx = (Inl e, ctx') \<Longrightarrow> ctx' = ctx"
  by (auto simp: reload_def commit_def Let_def split: if_splits sum.splits)

lemma apply_reloadable_eq:
  "apply_reloadable fresh running = running\<lparr>cfg_zone := (cfg_zone fresh)\<lparr>zc_origin := zc_origin (cfg_zone running)\<rparr>\<rparr>"
  by (cases "cfg_zone fresh"; cases "cfg_zone running") (simp add: apply_reloadable_def)

lemma commit_installed:
  "commit E fresh stated (record_count Z) (set_gauge (record_count Z) (swap_zone E fresh Z ctx)) = (out, ctx') \<Longrightarrow>
     installed E fresh stated Z ctx out ctx'"
  by (cases "rc_handler ctx") (auto simp: commit_def set_gauge_def swap_zone_def installed_def replace_zone_def apply_reloadable_eq)

lemma reload_success:
  "reload E iter seed rd de d lock d' ctx = (Inr out, ctx') \<longleftrightarrow>
     \<not> d \<and> lock \<noteq> WouldBlock \<and> \<not> d' \<and> (\<exists>fresh stated Z. prepare E iter seed rd de ctx = Inr (fresh, stated, Z) \<and>
       commit E fresh stated (record_count Z) (set_gauge (record_count Z) (swap_zone E fresh Z ctx)) = (out, ctx'))"
  by (auto simp: reload_def Let_def split: if_splits sum.splits prod.splits)

interpretation vega: reload_hook "hook E iter seed rd de d lock d'"
proof
  fix c r c'
  assume "hook E iter seed rd de d lock d' c = (r, c')" "\<forall>out. r \<noteq> Some (Inr out)"
  then show "c' = c" using reload_refused [of E iter seed rd de d lock d' c]
    by (cases "reload E iter seed rd de d lock d' c"; cases "fst (reload E iter seed rd de d lock d' c)") (auto simp: hook_def)
qed

text \<open>C15: a reload over the admin endpoint applies the file as a whole or changes nothing. It is answered
  200 exactly when the process is not draining, the caller is authorised, no other reload holds the
  lock, and the file, resolved against the command line frozen at start-up, names the zone being served
  and builds. Then the handler serves the zone of that file and its built-in setting, the gauge is its
  record count, the running configuration has its records with every fixed setting as before, and the
  counter of reloads moved by one. Otherwise handler, gauge, configuration and counter are untouched.\<close>

theorem reload_all_or_nothing:
  assumes "as_reload s = Some (hook E iter seed rd de d lock d')" and "reload_endpoint peer authorization s ctx = (r, s', ctx')"
  shows "(ht_status r = 200 \<longleftrightarrow> \<not> is_draining (as_lifecycle s) \<and> may_mutate s peer authorization \<and> \<not> d \<and> lock \<noteq> WouldBlock \<and> \<not> d' \<and>
       (\<exists>fresh stated Z. resolve_config rd de (rc_invocation ctx) = Inr (fresh, stated) \<and>
          same_origin E (zc_origin (cfg_zone fresh)) (zc_origin (cfg_zone (rc_running ctx))) \<and>
          from_config E iter seed (cfg_zone fresh) = Inr Z)) \<and>
     (if ht_status r = 200
      then as_reloads s' = as_reloads s + 1 \<and> (\<exists>fresh stated Z out.
        resolve_config rd de (rc_invocation ctx) = Inr (fresh, stated) \<and> from_config E iter seed (cfg_zone fresh) = Inr Z \<and>
        installed E fresh stated Z ctx out ctx' \<and> ht_body r = Reloaded (ro_origin out) (ro_records out) (as_reloads s') (ro_ignored out))
      else s' = s \<and> ctx' = ctx)"
proof (cases "ht_status r = 200")
  case True
  from vega.endpoint_accepted [OF assms True] obtain out where
    a: "\<not> is_draining (as_lifecycle s)" "may_mutate s peer authorization" "as_reloads s' = as_reloads s + 1"
    and h: "hook E iter seed rd de d lock d' ctx = (Some (Inr out), ctx')"
    and b: "ht_body r = Reloaded (ro_origin out) (ro_records out) (as_reloads s') (ro_ignored out)" by blast
  from h have "reload E iter seed rd de d lock d' ctx = (Inr out, ctx')" by (auto simp: hook_def split: prod.splits)
  then obtain fresh stated Z where p: "\<not> d" "lock \<noteq> WouldBlock" "\<not> d'" "prepare E iter seed rd de ctx = Inr (fresh, stated, Z)"
    and "commit E fresh stated (record_count Z) (set_gauge (record_count Z) (swap_zone E fresh Z ctx)) = (out, ctx')"
    by (auto simp: reload_success)
  then have "installed E fresh stated Z ctx out ctx'" by (simp add: commit_installed)
  with True a b p show ?thesis unfolding prepare_Inr by (simp; blast)
next
  case False
  have "ht_status r = 200" if g: "\<not> is_draining (as_lifecycle s)" "may_mutate s peer authorization" "\<not> d" "lock \<noteq> WouldBlock" "\<not> d'"
    and p: "prepare E iter seed rd de ctx = Inr (fresh, stated, Z)" for fresh stated Z
  proof -
    obtain out c where "commit E fresh stated (record_count Z) (set_gauge (record_count Z) (swap_zone E fresh Z ctx)) = (out, c)"
      by (metis surj_pair)
    then have "reload E iter seed rd de d lock d' ctx = (Inr out, c)" using g p by (auto simp: reload_success)
    then show ?thesis using assms g by (auto simp: reload_endpoint_def hook_def reply_def Let_def)
  qed
  then show ?thesis using False vega.endpoint_refused_unchanged [OF assms False] unfolding prepare_Inr by auto
qed

text \<open>A start without flags from a file that states the example zone and a burst, but no rate.\<close>

definition demo_invocation :: global_args where
  "demo_invocation = \<lparr>cli_config = Some ''vega.toml'', cli_udp = [], cli_tcp = [], cli_admin_listen = None,
     cli_domain = None, cli_rate_limit_qps = None, cli_rate_limit_burst = None, cli_tcp_timeout_secs = None,
     cli_shutdown_drain_secs = None, cli_no_builtins = False, cli_log_format = None, cli_log_level = None,
     cli_admin_token = None\<rparr>"

definition demo_file :: file_config where
  "demo_file = \<lparr>fc_server = (fc_server file_config_default)\<lparr>srv_rate_limit := \<lparr>qps = None, burst = Some 50\<rparr>\<rparr>,
     fc_zone = \<lparr>sec_origin = Some (zc_origin demo_zone_config), sec_default_ttl = Some (zc_default_ttl demo_zone_config),
       sec_builtins = Some (zc_builtins demo_zone_config), sec_soa = zc_soa demo_zone_config, sec_records = zc_records demo_zone_config\<rparr>\<rparr>"

definition demo_running :: config where
  "demo_running = \<lparr>cfg_source = Some ''vega.toml'', cfg_udp = [default_listener], cfg_tcp = [], cfg_admin_listen = None,
     cfg_tcp_timeout = DEFAULT_TCP_TIMEOUT, cfg_shutdown_drain = DEFAULT_SHUTDOWN_DRAIN, cfg_tcp_response_buffer = TCP_RESPONSE_BUFFER,
     cfg_zone = demo_zone_config, cfg_rate_limit = None, cfg_log_format = Pretty, cfg_log_level = DEFAULT_LOG_FILTER,
     cfg_admin_token = None\<rparr>"

definition demo_context :: reload_context where
  "demo_context = context_new demo_invocation ''vega.toml'' demo_handler demo_running"

definition demo_admin :: "(reload_context, reload_cause) admin_state" where
  "demo_admin = with_reload (hook demo_hickory (\<lambda>es. es) 7 (\<lambda>_. Some []) (\<lambda>_. Some demo_file) False Acquired False)
     (admin_new (metrics_new 0))"

lemma demo_merge: "merge demo_invocation demo_file = Inr demo_running"
proof -
  have "trim (zc_origin demo_zone_config) = ''ex''" "zc_default_ttl demo_zone_config = 60"
    by (simp_all add: demo_zone_config_def trim_def trim_start_def is_whitespace_def)
  then show ?thesis
    by (simp add: merge_def demo_invocation_def demo_file_def file_config_default_def pick_addrs_def reject_duplicates_def
        tcp_timeout_of_def shutdown_drain_def rate_limit_of_def demo_running_def Let_def)
qed

lemma demo_resolve:
  "resolve_config (\<lambda>_. Some []) (\<lambda>_. Some demo_file) demo_invocation = Inr (demo_running, file_settings_of demo_file)"
  using demo_merge by (simp add: resolve_config_def read_file_def demo_invocation_def ok_or_def)

lemma demo_same_origin: "same_origin demo_hickory (zc_origin demo_zone_config) (zc_origin demo_zone_config)"
  using from_config_origin [OF demo_zone_facts] by (simp add: same_origin_iff)

lemma demo_context_simps:
  "rc_invocation demo_context = demo_invocation" "rc_running demo_context = demo_running" "cfg_zone demo_running = demo_zone_config"
  by (simp_all add: demo_context_def context_new_def demo_invocation_def demo_running_def)

theorem reload_all_or_nothing_witness:
  "\<exists>r s' ctx'. reload_endpoint (V4 0x7f000001) None demo_admin demo_context = (r, s', ctx') \<and> ht_status r = 200 \<and>
     handler_zone (rc_handler ctx') = demo_zone"
proof -
  obtain r s' ctx' where e: "reload_endpoint (V4 0x7f000001) None demo_admin demo_context = (r, s', ctx')" by (metis surj_pair)
  have h: "as_reload demo_admin = Some (hook demo_hickory (\<lambda>es. es) 7 (\<lambda>_. Some []) (\<lambda>_. Some demo_file) False Acquired False)"
    by (simp add: demo_admin_def with_reload_def)
  have g: "\<not> is_draining (as_lifecycle demo_admin)" "may_mutate demo_admin (V4 0x7f000001) None"
    by (simp_all add: demo_admin_def with_reload_def admin_new_def draining_phases may_mutate_def is_local_iff this_host_def)
  note t = reload_all_or_nothing [OF h e]
  have "ht_status r = 200"
    using t g demo_resolve demo_same_origin demo_zone_builds by (simp add: demo_context_simps)
  moreover from this have "handler_zone (rc_handler ctx') = demo_zone"
    using t demo_resolve demo_zone_builds
    by (auto simp: demo_context_simps installed_def handler_zone_def active_new_def)
  ultimately show ?thesis using e by blast
qed

section \<open>What a reload reports\<close>

definition fixed_settings where
  "fixed_settings c = (cfg_udp c, cfg_tcp c, cfg_admin_listen c, cfg_tcp_timeout c, cfg_shutdown_drain c, cfg_rate_limit c,
     cfg_log_format c, cfg_log_level c, cfg_admin_token c)"

lemma limit_eq:
  "limit_qps a = limit_qps b \<Longrightarrow> limit_burst a = limit_burst b \<Longrightarrow> (\<forall>r. a = Some r \<longrightarrow> rl_qps r \<noteq> 0) \<Longrightarrow>
     (\<forall>r. b = Some r \<longrightarrow> rl_qps r \<noteq> 0) \<Longrightarrow> a = b"
  by (cases a; cases b) (auto simp: limit_qps_def limit_burst_def intro: rate_limit_config.equality)

lemma config_ok_limit: "config_ok c \<Longrightarrow> cfg_rate_limit c = Some r \<Longrightarrow> rl_qps r \<noteq> 0"
  by (auto simp: config_ok_def)

lemma push_if_Nil [simp]: "push_if b k = [] \<longleftrightarrow> \<not> b"
  by (simp add: push_if_def)

lemma drift_Nil_fixed:
  assumes "drift E running stated fresh = []" and "config_ok running" and "config_ok fresh"
  shows "fixed_settings fresh = fixed_settings running"
proof -
  have "limit_qps (cfg_rate_limit fresh) = limit_qps (cfg_rate_limit running)"
    "limit_burst (cfg_rate_limit fresh) = limit_burst (cfg_rate_limit running)"
    using assms(1) by (simp_all add: drift_def Let_def)
  then have "cfg_rate_limit fresh = cfg_rate_limit running"
    by (rule limit_eq) (use assms(2,3) config_ok_limit in blast)+
  then show ?thesis using assms(1) by (simp add: drift_def Let_def fixed_settings_def)
qed

lemma push_if_subseq:
  "subseq (push_if b k) [k]" "subseq xs ys \<Longrightarrow> subseq (push_if b k @ xs) (k # ys)"
  by (auto simp: push_if_def)

text \<open>The keys come in the order of the partition table, each at most once.\<close>

lemma drift_keys:
  "subseq (drift E running stated fresh) [KEY_ORIGIN, KEY_UDP, KEY_TCP, KEY_ADMIN_LISTEN, KEY_TCP_TIMEOUT, KEY_SHUTDOWN_DRAIN,
     KEY_LOG_FORMAT, KEY_LOG_LEVEL, KEY_ADMIN_TOKEN, KEY_RATE_LIMIT_QPS, KEY_RATE_LIMIT_BURST]"
  unfolding drift_def Let_def by (intro push_if_subseq)

lemma drift_bounded: "length (drift E running stated fresh) \<le> MAX_IGNORED"
  using list_emb_length [OF drift_keys, of E running stated fresh] by (simp add: MAX_IGNORED_def)

text \<open>Silence can be trusted. When a reload of a running process succeeds and reports no ignored key,
  a restart from the same file and command line would come up with exactly the settings the process
  runs on: every listener, timeout, limit, log setting and token, and the reloaded zone under the same
  origin name. A report names at most the eleven fixed keys.\<close>

lemma silent_reload_is_settled:
  assumes "reload E iter seed rd de d lock d' ctx = (Inr out, ctx')" and "config_ok (rc_running ctx)"
  shows "length (ro_ignored out) \<le> MAX_IGNORED \<and> (ro_ignored out = [] \<longrightarrow>
     (\<exists>fresh stated. resolve_config rd de (rc_invocation ctx') = Inr (fresh, stated) \<and>
        fixed_settings fresh = fixed_settings (rc_running ctx') \<and>
        cfg_zone fresh = (cfg_zone (rc_running ctx'))\<lparr>zc_origin := zc_origin (cfg_zone fresh)\<rparr> \<and>
        same_origin E (zc_origin (cfg_zone fresh)) (zc_origin (cfg_zone (rc_running ctx')))))"
proof -
  from assms(1) obtain fresh stated Z where p: "prepare E iter seed rd de ctx = Inr (fresh, stated, Z)"
    and "commit E fresh stated (record_count Z) (set_gauge (record_count Z) (swap_zone E fresh Z ctx)) = (out, ctx')"
    by (auto simp: reload_success)
  then have i: "installed E fresh stated Z ctx out ctx'" by (simp add: commit_installed)
  have r: "resolve_config rd de (rc_invocation ctx) = Inr (fresh, stated)"
    "same_origin E (zc_origin (cfg_zone fresh)) (zc_origin (cfg_zone (rc_running ctx)))" using p by (simp_all add: prepare_Inr)
  have "fixed_settings fresh = fixed_settings (rc_running ctx)" if "drift E (rc_running ctx) stated fresh = []"
    using that assms(2) resolve_config_ok [OF r(1)] by (rule drift_Nil_fixed)
  then show ?thesis using i r drift_bounded by (simp add: installed_def fixed_settings_def)
qed

text \<open>The command line states none of the settings a reload cannot change.\<close>

definition states_nothing_fixed :: "global_args \<Rightarrow> bool" where
  "states_nothing_fixed cli \<longleftrightarrow> cli_udp cli = [] \<and> cli_tcp cli = [] \<and> cli_admin_listen cli = None \<and> cli_domain cli = None \<and>
     cli_rate_limit_qps cli = None \<and> cli_rate_limit_burst cli = None \<and> cli_tcp_timeout_secs cli = None \<and>
     cli_shutdown_drain_secs cli = None \<and> cli_log_format cli = None \<and> cli_log_level cli = None \<and> cli_admin_token cli = None"

lemma merge_fields:
  assumes "merge cli f = Inr c" and "states_nothing_fixed cli"
  defines "s \<equiv> fc_server f"
  shows "cfg_tcp c = srv_tcp s" and "srv_udp s \<noteq> [] \<Longrightarrow> cfg_udp c = srv_udp s" and "cfg_admin_listen c = srv_admin_listen s"
    and "cfg_admin_token c = srv_admin_token s"
    and "zc_origin (cfg_zone c) = unwrap_or ''dnsserver.dev'' (sec_origin (fc_zone f))"
    and "cfg_log_format c = unwrap_or Pretty (srv_log_format s)" and "cfg_log_level c = unwrap_or DEFAULT_LOG_FILTER (srv_log_level s)"
    and "tcp_timeout_of (srv_tcp_timeout_secs s) = Inr (cfg_tcp_timeout c)"
    and "shutdown_drain cli (srv_shutdown_drain_secs s) = Inr (cfg_shutdown_drain c)"
    and "rate_limit_of (qps (srv_rate_limit s)) (burst (srv_rate_limit s)) = Inr (cfg_rate_limit c)"
  using assms(1,2) unfolding s_def
  by (auto simp: merge_def states_nothing_fixed_def Let_def rbind_eq_Inr pick_addrs_def split: if_splits)

lemma rate_limit_noop:
  assumes "rate_limit_of q b = Inr r"
  shows "\<not> is_some_and q (\<lambda>q. q \<noteq> limit_qps r)"
    and "is_some_and b (\<lambda>b. b \<noteq> limit_burst r) \<longleftrightarrow> r = None \<and> is_some_and b (\<lambda>b. b \<noteq> 0)"
  using assms by (cases q; cases b; auto simp: rate_limit_of_def Let_def limit_qps_def limit_burst_def split: if_splits)+

text \<open>A reload of an unchanged file, under a command line that states none of the fixed settings,
  reports nothing, with one exception: a burst stated while rate limiting is off is reported as an
  ignored change although nothing differs from what a restart would do.\<close>

lemma unchanged_file_report:
  assumes "merge cli f = Inr running" and "states_nothing_fixed cli"
    and "canonical_origin E (zc_origin (cfg_zone running)) = Inr n"
  shows "drift E running (file_settings_of f) running =
     (if cfg_rate_limit running = None \<and> is_some_and (burst (srv_rate_limit (fc_server f))) (\<lambda>b. b \<noteq> 0)
      then [KEY_RATE_LIMIT_BURST] else [])"
proof -
  let ?st = "file_settings_of f" and ?s = "fc_server f"
  note m = merge_fields [OF assms(1,2)]
  have same: "same_origin E (zc_origin (cfg_zone running)) (zc_origin (cfg_zone running))" using assms(3) by (simp add: same_origin_iff)
  then have origin: "\<not> is_some_and (fs_origin ?st) (\<lambda>text. \<not> same_origin E text (zc_origin (cfg_zone running)))"
    using m(5) by (cases "sec_origin (fc_zone f)") (simp_all add: file_settings_of_def Let_def)
  have timeout: "\<not> is_some_and (fs_tcp_timeout_secs ?st) (\<lambda>s. unat s \<noteq> cfg_tcp_timeout running)"
    using m(8) by (cases "srv_tcp_timeout_secs ?s") (auto simp: file_settings_of_def Let_def tcp_timeout_of_def split: if_splits)
  have drain: "\<not> stated_drain (fs_shutdown_drain_secs ?st) (cfg_shutdown_drain running)"
    using m(9) assms(2) by (cases "srv_shutdown_drain_secs ?s")
      (auto simp: file_settings_of_def Let_def stated_drain_def shutdown_drain_def states_nothing_fixed_def split: if_splits)
  have logs: "\<not> is_some_and (fs_log_format ?st) (\<lambda>x. x \<noteq> cfg_log_format running)"
    "\<not> is_some_and (fs_log_level ?st) (\<lambda>x. x \<noteq> cfg_log_level running)"
    "\<not> is_some_and (fs_admin_listen ?st) (\<lambda>a. Some a \<noteq> cfg_admin_listen running)"
    using m(3,6,7) by (cases "srv_log_format ?s"; cases "srv_log_level ?s"; cases "srv_admin_listen ?s"; simp add: file_settings_of_def Let_def)+
  have lists: "\<not> (fs_udp ?st \<noteq> [] \<and> fs_udp ?st \<noteq> cfg_udp running)" "fs_tcp ?st = cfg_tcp running"
    "fs_admin_token ?st = cfg_admin_token running"
    using m(1,4) m(2) by (cases "srv_udp ?s = []"; simp add: file_settings_of_def Let_def)+
  have "fs_rate_limit_qps ?st = qps (srv_rate_limit ?s)" "fs_rate_limit_burst ?st = burst (srv_rate_limit ?s)"
    by (simp_all add: file_settings_of_def Let_def)
  then show ?thesis using origin same timeout drain logs lists rate_limit_noop [OF m(10)]
    by (simp add: drift_def Let_def push_if_def)
qed

lemma unchanged_burst_reported:
  "drift demo_hickory demo_running (file_settings_of demo_file) demo_running = [KEY_RATE_LIMIT_BURST]"
proof -
  have "states_nothing_fixed demo_invocation" by (simp add: states_nothing_fixed_def demo_invocation_def)
  moreover have "canonical_origin demo_hickory (zc_origin (cfg_zone demo_running)) = Inr (lower_origin demo_zone)"
    using from_config_origin [OF demo_zone_facts] by (simp add: demo_context_simps)
  ultimately show ?thesis using unchanged_file_report [OF demo_merge] by (simp add: demo_running_def demo_file_def)
qed

end
