(* ===== verification/Reload_Steps.thy ===== *)
theory Reload_Steps
  imports Reload
begin

text \<open>
  Concurrent calls of \<^verbatim>\<open>reload\<close>, the drain token and the query path, interleaved at the accesses to
  shared state: the token, the lock, the zone pointer, the gauge and the guarded configuration. What
  happens between two accesses is private to the call and one step.
\<close>

section \<open>The interleaving\<close>

datatype reload_pc =
    R_Called
  | R_Undrained
  | R_Locked
  | R_Built config file_settings zone
  | R_Clear config file_settings zone
  | R_Swapped config file_settings zone
  | R_Gauged config file_settings zone
  | R_Done "refusal + reload_outcome"

record reload_sys =
  rs_ctx :: reload_context
  rs_holder :: "nat option"
  rs_draining :: bool
  rs_calls :: "reload_pc list"

definition goto :: "nat \<Rightarrow> reload_pc \<Rightarrow> reload_sys \<Rightarrow> reload_sys" where
  "goto i pt s = s\<lparr>rs_calls := (rs_calls s)[i := pt]\<rparr>"

definition at_pc :: "nat \<Rightarrow> reload_pc \<Rightarrow> reload_sys \<Rightarrow> bool" where
  "at_pc i pt s \<longleftrightarrow> i < length (rs_calls s) \<and> rs_calls s ! i = pt"

inductive reload_step :: "hickory \<Rightarrow> (entry list \<Rightarrow> entry list) \<Rightarrow> reload_sys \<Rightarrow> reload_sys \<Rightarrow> bool"
  for E iter where
  drain: "reload_step E iter s (s\<lparr>rs_draining := True\<rparr>)"
| answer: "reload_step E iter s (s\<lparr>rs_ctx := (rs_ctx s)\<lparr>rc_handler :=
    hd_handler (handle_request E build send now outcome elapsed rq (rc_handler (rs_ctx s)))\<rparr>\<rparr>)"
| refused_early: "at_pc i R_Called s \<Longrightarrow> rs_draining s \<Longrightarrow> reload_step E iter s (goto i (R_Done (Inl shutting_down)) s)"
| undrained: "at_pc i R_Called s \<Longrightarrow> \<not> rs_draining s \<Longrightarrow> reload_step E iter s (goto i R_Undrained s)"
| busy: "at_pc i R_Undrained s \<Longrightarrow> rs_holder s \<noteq> None \<Longrightarrow> reload_step E iter s (goto i (R_Done (Inl in_progress)) s)"
| locked: "at_pc i R_Undrained s \<Longrightarrow> rs_holder s = None \<Longrightarrow> reload_step E iter s (goto i R_Locked (s\<lparr>rs_holder := Some i\<rparr>))"
| rejected: "at_pc i R_Locked s \<Longrightarrow> prepare E iter seed rd de (rs_ctx s) = Inl e \<Longrightarrow>
    reload_step E iter s (goto i (R_Done (Inl e)) (s\<lparr>rs_holder := None\<rparr>))"
| prepared: "at_pc i R_Locked s \<Longrightarrow> prepare E iter seed rd de (rs_ctx s) = Inr (fresh, stated, Z) \<Longrightarrow>
    reload_step E iter s (goto i (R_Built fresh stated Z) s)"
| abandoned: "at_pc i (R_Built fresh stated Z) s \<Longrightarrow> rs_draining s \<Longrightarrow>
    reload_step E iter s (goto i (R_Done (Inl shutting_down)) (s\<lparr>rs_holder := None\<rparr>))"
| clear: "at_pc i (R_Built fresh stated Z) s \<Longrightarrow> \<not> rs_draining s \<Longrightarrow> reload_step E iter s (goto i (R_Clear fresh stated Z) s)"
| swap: "at_pc i (R_Clear fresh stated Z) s \<Longrightarrow>
    reload_step E iter s (goto i (R_Swapped fresh stated Z) (s\<lparr>rs_ctx := swap_zone E fresh Z (rs_ctx s)\<rparr>))"
| gauge: "at_pc i (R_Swapped fresh stated Z) s \<Longrightarrow>
    reload_step E iter s (goto i (R_Gauged fresh stated Z) (s\<lparr>rs_ctx := set_gauge (record_count Z) (rs_ctx s)\<rparr>))"
| finished: "at_pc i (R_Gauged fresh stated Z) s \<Longrightarrow> commit E fresh stated (record_count Z) (rs_ctx s) = (out, ctx) \<Longrightarrow>
    reload_step E iter s (goto i (R_Done (Inr out)) (s\<lparr>rs_ctx := ctx, rs_holder := None\<rparr>))"

definition reload_init :: "reload_context \<Rightarrow> nat \<Rightarrow> reload_sys" where
  "reload_init ctx n = \<lparr>rs_ctx = ctx, rs_holder = None, rs_draining = False, rs_calls = replicate n R_Called\<rparr>"

section \<open>The invariant\<close>

lemma check_limiter_frame:
  "check_limiter rq now outcome h = (ok, h') \<Longrightarrow> h_active h' = h_active h \<and> zone_records (h_metrics h') = zone_records (h_metrics h)"
  by (auto simp: check_limiter_def rate_limited_def Let_def split: option.splits prod.splits if_splits)

lemma handle_request_frame:
  fixes E build send now outcome elapsed rq h
  defines "h' \<equiv> hd_handler (handle_request E build send now outcome elapsed rq h)"
  shows "h_active h' = h_active h" and "zone_records (h_metrics h') = zone_records (h_metrics h)"
proof -
  let ?h = "h\<lparr>h_metrics := query (transport_of (rq_protocol rq)) (h_metrics h)\<rparr>"
  obtain ok h1 where c: "check_limiter rq now outcome ?h = (ok, h1)" by (cases "check_limiter rq now outcome ?h")
  have "h_active h1 = h_active h" "zone_records (h_metrics h1) = zone_records (h_metrics h)"
    using check_limiter_frame [OF c] by (auto simp: query_def Let_def split: transport.split)
  then show "h_active h' = h_active h" "zone_records (h_metrics h') = zone_records (h_metrics h)"
    using c by (auto simp: h'_def handle_request_def dispatch_def Let_def observe_latency_def response_def send_error_def
        split: option.split)
qed

fun critical :: "reload_pc \<Rightarrow> bool" where
  "critical R_Locked = True"
| "critical (R_Built _ _ _) = True"
| "critical (R_Clear _ _ _) = True"
| "critical (R_Swapped _ _ _) = True"
| "critical (R_Gauged _ _ _) = True"
| "critical _ = False"

text \<open>The zone \<open>Z\<close> of the configuration \<open>fresh\<close>, under the name the process started with.\<close>

definition built_from :: "hickory \<Rightarrow> (entry list \<Rightarrow> entry list) \<Rightarrow> config \<Rightarrow> config \<Rightarrow> zone \<Rightarrow> bool" where
  "built_from E iter start fresh Z \<longleftrightarrow> (\<exists>seed. from_config E iter seed (cfg_zone fresh) = Inr Z) \<and>
     same_origin E (zc_origin (cfg_zone fresh)) (zc_origin (cfg_zone start))"

definition serves :: "hickory \<Rightarrow> (entry list \<Rightarrow> entry list) \<Rightarrow> config \<Rightarrow> config \<Rightarrow> zone \<Rightarrow> reload_context \<Rightarrow> bool" where
  "serves E iter start fresh Z ctx \<longleftrightarrow> built_from E iter start fresh Z \<and>
     h_active (rc_handler ctx) = active_new E Z (zc_builtins (cfg_zone fresh))"

definition gauged :: "zone \<Rightarrow> reload_context \<Rightarrow> bool" where
  "gauged Z ctx \<longleftrightarrow> zone_records (h_metrics (rc_handler ctx)) = of_nat (record_count Z)"

definition settled :: "hickory \<Rightarrow> (entry list \<Rightarrow> entry list) \<Rightarrow> config \<Rightarrow> reload_context \<Rightarrow> bool" where
  "settled E iter start ctx \<longleftrightarrow> (\<exists>fresh Z. serves E iter start fresh Z ctx \<and> gauged Z ctx \<and>
     cfg_zone (rc_running ctx) = (cfg_zone fresh)\<lparr>zc_origin := zc_origin (cfg_zone start)\<rparr>)"

fun phase_ok :: "hickory \<Rightarrow> (entry list \<Rightarrow> entry list) \<Rightarrow> config \<Rightarrow> reload_pc \<Rightarrow> reload_context \<Rightarrow> bool" where
  "phase_ok E iter start (R_Built fresh stated Z) ctx \<longleftrightarrow> built_from E iter start fresh Z \<and> settled E iter start ctx"
| "phase_ok E iter start (R_Clear fresh stated Z) ctx \<longleftrightarrow> built_from E iter start fresh Z \<and> settled E iter start ctx"
| "phase_ok E iter start (R_Swapped fresh stated Z) ctx \<longleftrightarrow> serves E iter start fresh Z ctx"
| "phase_ok E iter start (R_Gauged fresh stated Z) ctx \<longleftrightarrow> serves E iter start fresh Z ctx \<and> gauged Z ctx"
| "phase_ok E iter start _ ctx \<longleftrightarrow> settled E iter start ctx"

definition lock_ok :: "reload_sys \<Rightarrow> bool" where
  "lock_ok s \<longleftrightarrow> (\<forall>i < length (rs_calls s). critical (rs_calls s ! i) \<longleftrightarrow> rs_holder s = Some i) \<and>
     (\<forall>i. rs_holder s = Some i \<longrightarrow> i < length (rs_calls s))"

definition start_ok :: "config \<Rightarrow> reload_context \<Rightarrow> bool" where
  "start_ok start ctx \<longleftrightarrow> fixed_settings (rc_running ctx) = fixed_settings start \<and>
     zc_origin (cfg_zone (rc_running ctx)) = zc_origin (cfg_zone start)"

definition reload_inv :: "hickory \<Rightarrow> (entry list \<Rightarrow> entry list) \<Rightarrow> config \<Rightarrow> reload_sys \<Rightarrow> bool" where
  "reload_inv E iter start s \<longleftrightarrow> lock_ok s \<and> start_ok start (rs_ctx s) \<and>
     (case rs_holder s of
        None \<Rightarrow> settled E iter start (rs_ctx s)
      | Some i \<Rightarrow> phase_ok E iter start (rs_calls s ! i) (rs_ctx s))"

lemmas reload_frames = serves_def gauged_def settled_def start_ok_def

lemma phase_ok_cong:
  assumes "h_active (rc_handler c') = h_active (rc_handler c)" and "rc_running c' = rc_running c"
    and "zone_records (h_metrics (rc_handler c')) = zone_records (h_metrics (rc_handler c))"
  shows "settled E iter start c' = settled E iter start c" and "phase_ok E iter start pt c' = phase_ok E iter start pt c"
    and "start_ok start c' = start_ok start c"
proof -
  show s: "settled E iter start c' = settled E iter start c" using assms by (simp add: reload_frames)
  show "phase_ok E iter start pt c' = phase_ok E iter start pt c" using assms s by (cases pt) (simp_all add: serves_def gauged_def)
  show "start_ok start c' = start_ok start c" using assms by (simp add: start_ok_def)
qed

lemma lock_ok_goto:
  assumes "lock_ok s" and "i < length (rs_calls s)"
  shows "\<not> critical (rs_calls s ! i) \<Longrightarrow> \<not> critical pt \<Longrightarrow> lock_ok (goto i pt s)"
    and "critical (rs_calls s ! i) \<Longrightarrow> critical pt \<Longrightarrow> lock_ok (goto i pt (s\<lparr>rs_ctx := c\<rparr>)) \<and> rs_holder s = Some i"
    and "critical (rs_calls s ! i) \<Longrightarrow> \<not> critical pt \<Longrightarrow> lock_ok (goto i pt (s\<lparr>rs_ctx := c, rs_holder := None\<rparr>)) \<and> rs_holder s = Some i"
    and "rs_holder s = None \<Longrightarrow> critical pt \<Longrightarrow> lock_ok (goto i pt (s\<lparr>rs_holder := Some i\<rparr>))"
  using assms by (auto simp: lock_ok_def goto_def nth_list_update)

lemma goto_simps [simp]:
  "rs_ctx (goto i pt s) = rs_ctx s" "rs_holder (goto i pt s) = rs_holder s" "rs_draining (goto i pt s) = rs_draining s"
  "length (rs_calls (goto i pt s)) = length (rs_calls s)"
  by (simp_all add: goto_def)

lemma goto_same: "i < length (rs_calls s) \<Longrightarrow> rs_calls (goto i pt s) ! i = pt"
  by (simp add: goto_def)

text \<open>Steps of the environment, and the four ways a step moves a call: outside its critical section,
  inside it, out of it, into it.\<close>

lemma inv_environment:
  assumes "reload_inv E iter start s" and "rs_calls s' = rs_calls s" and "rs_holder s' = rs_holder s"
    and "h_active (rc_handler (rs_ctx s')) = h_active (rc_handler (rs_ctx s))" and "rc_running (rs_ctx s') = rc_running (rs_ctx s)"
    and "zone_records (h_metrics (rc_handler (rs_ctx s'))) = zone_records (h_metrics (rc_handler (rs_ctx s)))"
  shows "reload_inv E iter start s'"
  using assms(1) phase_ok_cong [OF assms(4-6)] assms(2,3)
  by (cases "rs_holder s") (simp_all add: reload_inv_def lock_ok_def)

lemma inv_outside:
  assumes "reload_inv E iter start s" and "at_pc i p s" and "\<not> critical p" and "\<not> critical pt"
  shows "reload_inv E iter start (goto i pt s)"
proof -
  have i: "i < length (rs_calls s)" "rs_calls s ! i = p" "lock_ok s" using assms by (auto simp: at_pc_def reload_inv_def)
  then have "rs_holder s \<noteq> Some i" using assms(3) by (auto simp: lock_ok_def)
  then have "rs_calls (goto i pt s) ! j = rs_calls s ! j" if "rs_holder s = Some j" for j using that by (auto simp: goto_def)
  then show ?thesis using assms(1,3,4) i lock_ok_goto(1) [of s i pt] by (auto simp: reload_inv_def split: option.splits)
qed

lemma inv_inside:
  assumes "reload_inv E iter start s" and "at_pc i p s" and "critical p" and "critical pt"
    and "phase_ok E iter start p (rs_ctx s) \<Longrightarrow> start_ok start (rs_ctx s) \<Longrightarrow> phase_ok E iter start pt c \<and> start_ok start c"
  shows "reload_inv E iter start (goto i pt (s\<lparr>rs_ctx := c\<rparr>))"
proof -
  have i: "i < length (rs_calls s)" "rs_calls s ! i = p" "lock_ok s" using assms by (auto simp: at_pc_def reload_inv_def)
  note l = lock_ok_goto(2) [OF i(3,1), of pt c, unfolded i(2), OF assms(3,4)]
  then have "phase_ok E iter start p (rs_ctx s)" "start_ok start (rs_ctx s)" using assms(1) i(2) by (auto simp: reload_inv_def)
  then show ?thesis using assms(5) l i(1) goto_same [of i "s\<lparr>rs_ctx := c\<rparr>" pt] by (simp add: reload_inv_def)
qed

lemma inv_release:
  assumes "reload_inv E iter start s" and "at_pc i p s" and "critical p" and "\<not> critical pt"
    and "phase_ok E iter start p (rs_ctx s) \<Longrightarrow> start_ok start (rs_ctx s) \<Longrightarrow> settled E iter start c \<and> start_ok start c"
  shows "reload_inv E iter start (goto i pt (s\<lparr>rs_ctx := c, rs_holder := None\<rparr>))"
proof -
  have i: "i < length (rs_calls s)" "rs_calls s ! i = p" "lock_ok s" using assms by (auto simp: at_pc_def reload_inv_def)
  note l = lock_ok_goto(3) [OF i(3,1), of pt c, unfolded i(2), OF assms(3,4)]
  then have "phase_ok E iter start p (rs_ctx s)" "start_ok start (rs_ctx s)" using assms(1) i(2) by (auto simp: reload_inv_def)
  then show ?thesis using assms(5) l by (simp add: reload_inv_def)
qed

lemma inv_acquire:
  assumes "reload_inv E iter start s" and "at_pc i p s" and "rs_holder s = None"
  shows "reload_inv E iter start (goto i R_Locked (s\<lparr>rs_holder := Some i\<rparr>))"
proof -
  have i: "i < length (rs_calls s)" "lock_ok s" using assms by (auto simp: at_pc_def reload_inv_def)
  then show ?thesis using assms(1,3) lock_ok_goto(4) [OF i(2,1) assms(3), of R_Locked] goto_same [of i "s\<lparr>rs_holder := Some i\<rparr>" R_Locked]
    by (simp add: reload_inv_def)
qed

lemma phase_ok_swap:
  "built_from E iter start fresh Z \<Longrightarrow> start_ok start ctx \<Longrightarrow>
     serves E iter start fresh Z (swap_zone E fresh Z ctx) \<and> start_ok start (swap_zone E fresh Z ctx)"
  by (simp add: serves_def swap_zone_def replace_zone_def start_ok_def)

lemma phase_ok_gauge:
  "serves E iter start fresh Z ctx \<Longrightarrow> start_ok start ctx \<Longrightarrow> serves E iter start fresh Z (set_gauge (record_count Z) ctx) \<and>
     gauged Z (set_gauge (record_count Z) ctx) \<and> start_ok start (set_gauge (record_count Z) ctx)"
  by (simp add: serves_def gauged_def set_gauge_def set_zone_records_def start_ok_def)

lemma phase_ok_commit:
  assumes "serves E iter start fresh Z ctx" and "gauged Z ctx" and "start_ok start ctx"
    and "commit E fresh stated records ctx = (out, ctx')"
  shows "settled E iter start ctx' \<and> start_ok start ctx'"
proof -
  have c: "ctx' = ctx\<lparr>rc_running := (rc_running ctx)\<lparr>cfg_zone := (cfg_zone fresh)\<lparr>zc_origin := zc_origin (cfg_zone start)\<rparr>\<rparr>\<rparr>"
    using assms(3,4) by (auto simp: commit_def apply_reloadable_eq start_ok_def)
  have "serves E iter start fresh Z ctx'" "gauged Z ctx'" using assms(1,2) c by (simp_all add: serves_def gauged_def)
  then show ?thesis using assms(3) unfolding settled_def by (auto simp: c start_ok_def fixed_settings_def)
qed

lemma reload_inv_step:
  assumes "reload_step E iter s s'" and "reload_inv E iter start s"
  shows "reload_inv E iter start s'"
  using assms
proof (cases rule: reload_step.cases)
  case drain
  show ?thesis by (rule inv_environment [OF assms(2)]) (simp_all add: drain)
next
  case (answer build send now outcome elapsed rq)
  show ?thesis by (rule inv_environment [OF assms(2)]) (simp_all add: answer handle_request_frame)
next
  case (prepared i seed rd de fresh stated Z)
  have "start_ok start (rs_ctx s)" using assms(2) by (simp add: reload_inv_def)
  then have "built_from E iter start fresh Z" using prepared(3) by (auto simp: prepare_Inr built_from_def start_ok_def)
  then show ?thesis using prepared inv_inside [OF assms(2) prepared(2), of "R_Built fresh stated Z" "rs_ctx s"] by simp
next
  case (clear i fresh stated Z)
  then show ?thesis using inv_inside [OF assms(2) clear(2), of "R_Clear fresh stated Z" "rs_ctx s"] by simp
next
  case (swap i fresh stated Z)
  show ?thesis unfolding swap(1) by (rule inv_inside [OF assms(2) swap(2)]) (use phase_ok_swap in auto)
next
  case (gauge i fresh stated Z)
  show ?thesis unfolding gauge(1) by (rule inv_inside [OF assms(2) gauge(2)]) (use phase_ok_gauge in auto)
next
  case (finished i fresh stated Z out ctx)
  show ?thesis unfolding finished(1)
    by (rule inv_release [OF assms(2) finished(2)]) (use phase_ok_commit [OF _ _ _ finished(3)] in auto)
next
  case (rejected i seed rd de e)
  then show ?thesis using inv_release [OF assms(2) rejected(2), of "R_Done (Inl e)" "rs_ctx s"] by simp
next
  case (abandoned i fresh stated Z)
  then show ?thesis using inv_release [OF assms(2) abandoned(2), of "R_Done (Inl shutting_down)" "rs_ctx s"] by simp
qed (auto intro: inv_outside inv_acquire)

section \<open>What concurrent reloads keep\<close>

lemma phase_ok_serves: "phase_ok E iter start pt ctx \<Longrightarrow> \<exists>fresh Z. serves E iter start fresh Z ctx"
  by (cases pt) (auto simp: settled_def)

lemma boot_inv:
  assumes "hickory_ok E" and "iter_ok iter" and "boot E iter seed hash now start = Inr h"
  shows "reload_inv E iter start (reload_init (context_new cli src h start) n)"
proof -
  from assms(3) obtain Z l where Z: "from_config E iter seed (cfg_zone start) = Inr Z"
    and h: "h = handler_new E Z (cfg_zone start) (set_zone_records (of_nat (record_count Z)) (metrics_new now)) l"
    by (auto simp: boot_def rbind_eq_Inr Let_def)
  have "serves E iter start start Z (context_new cli src h start)" "gauged Z (context_new cli src h start)"
    using Z from_config_origin [OF assms(1,2) Z] h
    by (auto simp: serves_def gauged_def built_from_def same_origin_iff context_new_def handler_new_def set_zone_records_def)
  then have "settled E iter start (context_new cli src h start)"
    unfolding settled_def by (intro exI [of _ start] exI [of _ Z]) (simp add: context_new_def)
  then show ?thesis by (simp add: reload_inv_def reload_init_def lock_ok_def start_ok_def context_new_def)
qed

lemma reload_inv_reachable:
  assumes "hickory_ok E" and "iter_ok iter" and "boot E iter seed hash now start = Inr h"
    and "(reload_step E iter)\<^sup>*\<^sup>* (reload_init (context_new cli src h start) n) s"
  shows "reload_inv E iter start s"
  using assms(4) by (induction rule: rtranclp_induct) (auto intro: boot_inv [OF assms(1-3)] reload_inv_step)

lemma built_from_origin:
  assumes "hickory_ok E" and "iter_ok iter" and "built_from E iter start fresh Z"
    and "from_config E iter seed (cfg_zone start) = Inr Z0"
  shows "lower_origin Z = lower_origin Z0"
  using assms(3) from_config_origin [OF assms(1,2)] from_config_origin [OF assms(1,2,4)]
  by (auto simp: built_from_def same_origin_iff)

text \<open>C18: any number of reload requests, started at any time and interleaved with queries and a drain, are
  serialised. At most one is in its critical section; what is served at every moment is a whole zone,
  built from one configuration, under the origin name of the start; the settings fixed at start-up never
  change; and whenever no reload is under way the zone being served, the record gauge and the running
  configuration belong together.\<close>

theorem reloads_serialised:
  assumes "hickory_ok E" and "iter_ok iter" and "boot E iter seed hash now start = Inr h"
    and "(reload_step E iter)\<^sup>*\<^sup>* (reload_init (context_new cli src h start) n) s"
  shows "(\<forall>i j. i < length (rs_calls s) \<longrightarrow> j < length (rs_calls s) \<longrightarrow> critical (rs_calls s ! i) \<longrightarrow> critical (rs_calls s ! j) \<longrightarrow> i = j) \<and>
     (\<exists>fresh Z. serves E iter start fresh Z (rs_ctx s) \<and> lower_origin Z = lower_origin (handler_zone h)) \<and>
     start_ok start (rs_ctx s) \<and> ((\<forall>i < length (rs_calls s). \<not> critical (rs_calls s ! i)) \<longrightarrow> settled E iter start (rs_ctx s))"
proof -
  have inv: "reload_inv E iter start s" by (rule reload_inv_reachable [OF assms])
  have "\<exists>fresh Z. serves E iter start fresh Z (rs_ctx s)"
    using inv phase_ok_serves by (cases "rs_holder s") (auto simp: reload_inv_def settled_def)
  then obtain fresh Z where Z: "serves E iter start fresh Z (rs_ctx s)" by blast
  obtain Z0 where "from_config E iter seed (cfg_zone start) = Inr Z0" "handler_zone h = Z0"
    using assms(3) by (auto simp: boot_def rbind_eq_Inr Let_def handler_zone_def handler_new_def active_new_def)
  then have "lower_origin Z = lower_origin (handler_zone h)"
    using built_from_origin [OF assms(1,2)] Z unfolding serves_def by blast
  moreover have "settled E iter start (rs_ctx s)" if "\<forall>i < length (rs_calls s). \<not> critical (rs_calls s ! i)"
    using that inv by (cases "rs_holder s") (auto simp: reload_inv_def lock_ok_def)
  moreover have "i = j" if "i < length (rs_calls s)" "j < length (rs_calls s)" "critical (rs_calls s ! i)" "critical (rs_calls s ! j)" for i j
    using that inv by (auto simp: reload_inv_def lock_ok_def)
  ultimately show ?thesis using Z inv by (auto simp: reload_inv_def)
qed

text \<open>A call that meets no drain and no other reload runs through: it computes \<open>reload\<close>.\<close>

lemma reload_call_returns:
  assumes "at_pc i R_Called s" and "\<not> rs_draining s" and "rs_holder s = None"
    and "reload E iter seed rd de False Acquired False (rs_ctx s) = (res, ctx)"
  shows "(reload_step E iter)\<^sup>*\<^sup>* s (goto i (R_Done res) (s\<lparr>rs_ctx := ctx\<rparr>))"
proof -
  define st where "st p c h = s\<lparr>rs_calls := (rs_calls s)[i := p], rs_ctx := c, rs_holder := h\<rparr>" for p c h
  have i: "i < length (rs_calls s)" using assms(1) by (simp add: at_pc_def)
  have at: "at_pc i p (st p c h)" for p c h using i by (simp add: at_pc_def st_def)
  have sel: "rs_ctx (st p c h) = c" "rs_holder (st p c h) = h" "\<not> rs_draining (st p c h)" for p c h
    using assms(2) by (simp_all add: st_def)
  have go: "goto i q (st p c h) = st q c h" "goto i q ((st p c h)\<lparr>rs_ctx := c'\<rparr>) = st q c' h"
    "goto i q ((st p c h)\<lparr>rs_holder := h'\<rparr>) = st q c h'" "goto i q ((st p c h)\<lparr>rs_ctx := c', rs_holder := h'\<rparr>) = st q c' h'"
    for p q c c' h h' by (simp_all add: goto_def st_def)
  let ?R = "(reload_step E iter)\<^sup>*\<^sup>*" and ?c = "rs_ctx s"
  have s: "s = st R_Called ?c None" using assms(1,3) by (cases s) (simp add: st_def at_pc_def, metis list_update_id)
  have "?R (st R_Called ?c None) (st R_Undrained ?c None)" using undrained [OF at, of ?c None] by (simp add: sel go r_into_rtranclp)
  also have "?R \<dots> (st R_Locked ?c (Some i))" using locked [OF at, of ?c None] by (simp add: sel go r_into_rtranclp)
  finally have pre: "?R s (st R_Locked ?c (Some i))" using s by simp
  have fin: "goto i (R_Done res) (s\<lparr>rs_ctx := ctx\<rparr>) = st (R_Done res) ctx None" using assms(3) by (simp add: goto_def st_def)
  show ?thesis
  proof (cases "prepare E iter seed rd de ?c")
    case (Inl e)
    then have "res = Inl e" "ctx = ?c" using assms(4) by (simp_all add: reload_def)
    moreover have "?R (st R_Locked ?c (Some i)) (st (R_Done (Inl e)) ?c None)"
      using rejected [OF at, of E iter seed rd de ?c "Some i" e] Inl by (simp add: sel go r_into_rtranclp)
    ultimately show ?thesis using pre fin rtranclp_trans [OF pre] by simp
  next
    case (Inr v)
    obtain fresh stated Z where v: "v = (fresh, stated, Z)" by (metis prod_cases3)
    let ?d = "set_gauge (record_count Z) (swap_zone E fresh Z ?c)"
    obtain out where c: "commit E fresh stated (record_count Z) ?d = (out, ctx)" and res: "res = Inr out"
      using assms(4) Inr v by (auto simp: reload_def Let_def split: prod.splits)
    have "?R (st R_Locked ?c (Some i)) (st (R_Built fresh stated Z) ?c (Some i))"
      using prepared [OF at, of E iter seed rd de ?c "Some i"] Inr v by (simp add: sel go r_into_rtranclp)
    also have "?R \<dots> (st (R_Clear fresh stated Z) ?c (Some i))"
      using clear [OF at, of fresh stated Z ?c "Some i"] by (simp add: sel go r_into_rtranclp)
    also have "?R \<dots> (st (R_Swapped fresh stated Z) (swap_zone E fresh Z ?c) (Some i))"
      using swap [OF at, of E iter fresh stated Z ?c "Some i"] by (simp add: sel go r_into_rtranclp)
    also have "?R \<dots> (st (R_Gauged fresh stated Z) ?d (Some i))"
      using gauge [OF at, of E iter fresh stated Z "swap_zone E fresh Z ?c" "Some i"] by (simp add: sel go r_into_rtranclp)
    also have "?R \<dots> (st (R_Done (Inr out)) ctx None)"
      using finished [OF at, of E fresh stated Z ?d "Some i"] c by (simp add: sel go r_into_rtranclp)
    finally show ?thesis using fin res rtranclp_trans [OF pre] by simp
  qed
qed

theorem reloads_serialised_witness:
  "\<exists>h res ctx. boot demo_hickory (\<lambda>es. es) 7 (\<lambda>k. k) 0 demo_running = Inr h \<and>
     reload demo_hickory (\<lambda>es. es) 7 (\<lambda>_. Some []) (\<lambda>_. Some demo_file) False Acquired False
       (context_new demo_invocation ''vega.toml'' h demo_running) = (res, ctx) \<and>
     settled demo_hickory (\<lambda>es. es) demo_running ctx"
proof -
  obtain h where h: "boot demo_hickory (\<lambda>es. es) 7 (\<lambda>k. k) 0 demo_running = Inr h"
    using demo_zone_builds by (simp add: boot_def demo_context_simps)
  let ?c = "context_new demo_invocation ''vega.toml'' h demo_running"
  obtain res ctx where r: "reload demo_hickory (\<lambda>es. es) 7 (\<lambda>_. Some []) (\<lambda>_. Some demo_file) False Acquired False ?c = (res, ctx)"
    by (metis surj_pair)
  have "(reload_step demo_hickory (\<lambda>es. es))\<^sup>*\<^sup>* (reload_init ?c 1) (goto 0 (R_Done res) ((reload_init ?c 1)\<lparr>rs_ctx := ctx\<rparr>))"
    by (rule reload_call_returns) (use r in \<open>simp_all add: reload_init_def at_pc_def\<close>)
  from reloads_serialised [OF demo_hickory_ok iter_id h this] have "settled demo_hickory (\<lambda>es. es) demo_running ctx"
    by (simp add: goto_def reload_init_def)
  then show ?thesis using h r by blast
qed

text \<open>The second reading of the token does not exclude a zone installed after the drain began: the token
  may be cancelled between that reading and the swap.\<close>

lemma swap_after_drain:
  assumes "at_pc i (R_Clear fresh stated Z) s"
  shows "\<exists>s'. (reload_step E iter)\<^sup>*\<^sup>* (s\<lparr>rs_draining := True\<rparr>) s' \<and> reload_step E iter s (s\<lparr>rs_draining := True\<rparr>) \<and>
     handler_zone (rc_handler (rs_ctx s')) = Z"
proof -
  have "at_pc i (R_Clear fresh stated Z) (s\<lparr>rs_draining := True\<rparr>)" using assms by (simp add: at_pc_def)
  from reload_step.swap [OF this] have "\<exists>s'. reload_step E iter (s\<lparr>rs_draining := True\<rparr>) s' \<and> handler_zone (rc_handler (rs_ctx s')) = Z"
    by (intro exI conjI) (auto simp: swap_zone_def replace_zone_def handler_zone_def active_new_def)
  then show ?thesis using reload_step.drain by blast
qed

end
