(* ===== verification/Typed.thy ===== *)
theory Typed
  imports Handler_Theorems
begin

text \<open>
  Types of the records in a response, across \<^verbatim>\<open>zone.rs\<close> and \<^verbatim>\<open>handler.rs\<close>. A value is parsed for the type
  its record set states, the build files it under that type, and no copying, sorting, occlusion, alias
  chase or synthesis on the way to a response moves it to a section or a question it does not belong to.
\<close>

section \<open>The type of a value\<close>

fun rdata_type :: "rdata \<Rightarrow> rtype" where
  "rdata_type (RD_A _) = RT_A"
| "rdata_type (RD_AAAA _) = RT_AAAA"
| "rdata_type (RD_NS _) = RT_NS"
| "rdata_type (RD_CNAME _) = RT_CNAME"
| "rdata_type (RD_PTR _) = 12"
| "rdata_type (RD_MX _ _) = 15"
| "rdata_type (RD_SRV _ _ _ _) = 33"
| "rdata_type (RD_SOA _ _ _ _ _ _ _) = RT_SOA"
| "rdata_type (RD_TXT _) = RT_TXT"
| "rdata_type (RD_HINFO _ _) = 13"
| "rdata_type (RD_OTHER t _) = t"

abbreviation RT_HINFO :: rtype where "RT_HINFO \<equiv> 13"

text \<open>What is known of hickory's parser: a value is of the type it was parsed for.\<close>

definition rdata_typed :: "hickory \<Rightarrow> bool" where
  "rdata_typed E \<longleftrightarrow> (\<forall>t s d. rdata_from_str E t s = Some d \<longrightarrow> rdata_type d = t)"

definition typed :: "rtype set \<Rightarrow> dns_record list \<Rightarrow> bool" where
  "typed ts rs \<longleftrightarrow> (\<forall>r \<in> set rs. rdata_type (rec_data r) \<in> ts)"

lemma typed_simps [simp]:
  "typed ts []" "typed ts (r # rs) \<longleftrightarrow> rdata_type (rec_data r) \<in> ts \<and> typed ts rs"
  "typed ts (rs @ rs') \<longleftrightarrow> typed ts rs \<and> typed ts rs'" "typed ts (concat rss) \<longleftrightarrow> (\<forall>rs \<in> set rss. typed ts rs)"
  by (auto simp: typed_def)

lemma typed_mono: "typed ts rs \<Longrightarrow> ts \<subseteq> us \<Longrightarrow> typed us rs"
  by (auto simp: typed_def)

section \<open>The zone is well typed\<close>

definition zone_typed :: "zone \<Rightarrow> bool" where
  "zone_typed Z \<longleftrightarrow> rdata_type (rec_data (soa Z)) = RT_SOA \<and>
     (\<forall>i < length (nodes Z). \<forall>t ow. typed {t} (records_at Z (nodes Z ! i) t ow)) \<and>
     (\<forall>i < length (nodes Z). flags_contains (node_flags (nodes Z ! i)) DELEGATION \<longrightarrow>
        referrals Z (of_nat i) = Some (spec_referral Z (nodes Z ! i)))"

lemma declared_typed: "rdata_typed E \<Longrightarrow> (ttl, v) \<in> set (declared E origin dttl specs k t) \<Longrightarrow> rdata_type v = t"
  by (auto simp: declared_def spec_records_def rdata_typed_def List.map_filter_def)

lemma run_records_kept: "set (run_records t (kept_runs E es order i)) \<subseteq> set (run_records t (s_rrsets (snd (es ! (order ! i)))))"
  by (auto simp: run_records_def kept_runs_def Let_def split: option.splits)

lemma closure_records_plain:
  assumes E: "hickory_ok E" and it: "iter_ok iter" and h: "holds E origin ttl specs b"
  shows "run_records t (runs_at (closure_of E iter b) k) = declared E origin ttl specs k t"
proof -
  have "builder_ok b" using h by (simp add: holds_def)
  from materialise_closed(2) [OF E it with_apex_ok [OF this]]
  obtain ks where "closure_of E iter b = with_apex b @ map implied_node ks" by blast
  then show ?thesis using h by (simp add: runs_at_append_implied runs_at_with_apex holds_def)
qed

lemma apex_soa_declared:
  assumes "apex_soa_record lower es = Some s"
  shows "\<exists>ttl. (ttl, rec_data s) \<in> set (run_records RT_SOA (runs_at es lower))"
  using assms by (force simp: apex_soa_record_def runs_at_def run_records_def find_Some_iff list_get_def from_rdata_def
      split: option.splits if_splits intro: nth_mem)

lemma soa_typed:
  assumes ty: "rdata_typed E" and E: "hickory_ok E" and it: "iter_ok iter" and f: "from_config E iter seed cfg = Inr Z"
  shows "rdata_type (rec_data (soa Z)) = RT_SOA"
proof -
  from E f obtain origin b sc where o: "name_from_str E (zc_origin cfg) = Some origin"
    and r: "rfold (insert_spec E) (zc_records cfg) (builder_new origin (lower_name origin) (zc_default_ttl cfg)) = Inr b"
    and sc: "(case zc_soa cfg of Some spec \<Rightarrow> rbind (build_soa E origin spec) (\<lambda>r. Inr (Some r)) | None \<Rightarrow> Inr None) = Inr sc"
    and fin: "finish E iter seed b sc = Inr Z"
    by (auto simp: from_config_def parse_name_def rbind_eq_Inr Let_def)
  have "length origin \<le> 127" using name_from_str_valid [OF E o] by (simp add: valid_name_def)
  note h = builder_holds [OF E this r]
  from fin show ?thesis
  proof (cases rule: finish_Inr)
    case (1 order cut_of delegations a idx s)
    have "soa Z = s" using 1(6) by (simp add: assemble_def)
    moreover have "rdata_type (rec_data s) = RT_SOA"
    proof (cases sc)
      case None
      then obtain ttl where "(ttl, rec_data s) \<in> set (run_records RT_SOA (runs_at (closure_of E iter b) (b_lower_origin b)))"
        using 1(2) apex_soa_declared by (fastforce simp: opt_or_def)
      then show ?thesis using closure_records_plain [OF E it h] declared_typed [OF ty] by metis
    next
      case (Some r)
      then show ?thesis using sc 1(2) by (auto simp: opt_or_def build_soa_def rbind_eq_Inr from_rdata_def split: option.splits)
    qed
    ultimately show ?thesis by simp
  qed
qed

lemma built_zone_typed:
  assumes ty: "rdata_typed E" and E: "hickory_ok E" and it: "iter_ok iter" and f: "from_config E iter seed cfg = Inr Z"
  shows "zone_typed Z"
proof -
  obtain origin where o: "name_from_str E (zc_origin cfg) = Some origin" using f by (rule from_config_Inr [OF E])
  show ?thesis
  proof (rule from_config_view [OF E it f o])
    fix es order
    assume bu: "built E (lower_name origin) es order Z"
      and rec: "\<And>k t. run_records t (runs_at es k) = declared E origin (zc_default_ttl cfg) (zc_records cfg) k t"
      and ref: "\<And>i. i < length (nodes Z) \<Longrightarrow> flags_contains (node_flags (nodes Z ! i)) DELEGATION \<Longrightarrow>
        referrals Z (of_nat i) = Some (spec_referral Z (nodes Z ! i))"
    have "typed {t} (records_at Z (nodes Z ! i) t ow)" if "i < length (nodes Z)" for i t ow
    proof -
      have i: "i < length es" using that built_facts(6) [OF bu] by simp
      have "set (run_records t (kept_runs E es order i)) \<subseteq> set (declared E origin (zc_default_ttl cfg) (zc_records cfg) (ranked es order ! i) t)"
        using run_records_kept rank_runs_at [OF built_facts(3,2) [OF bu] i] rec by metis
      then show ?thesis using declared_typed [OF ty] by (fastforce simp: typed_def built_kept_records [OF bu i] from_rdata_def)
    qed
    then show ?thesis using soa_typed [OF assms] ref by (simp add: zone_typed_def)
  qed
qed

section \<open>Lookups keep the types\<close>

lemma spec_resolve_typed:
  assumes "zone_typed Z" and "typed {t, RT_CNAME} out" and "spec_resolve Z n t depth out = (res, out')"
  shows "typed {t, RT_CNAME} out' \<and> (\<forall>c. res = Res_Referral c \<longrightarrow> (\<exists>i < length (nodes Z). c = of_nat i \<and>
    flags_contains (node_flags (nodes Z ! i)) DELEGATION))"
  using assms(2,3)
proof (induction "8 - depth" arbitrary: n depth out res out' rule: less_induct)
  case less
  have at: "typed {t, RT_CNAME} (records_at Z (nodes Z ! i) u ow)" if "i < length (nodes Z)" "u \<in> {t, RT_CNAME}" for i u ow
    using assms(1) that unfolding zone_typed_def by (blast intro: typed_mono)
  have cut: "c < length (nodes Z) \<and> flags_contains (node_flags (nodes Z ! c)) DELEGATION" if "governing_cut Z n = Some c" for c
    using governing_cut_Some [OF that] node_named_Some by blast
  have IH: "typed {t, RT_CNAME} o2 \<and> (\<forall>c. r = Res_Referral c \<longrightarrow> (\<exists>i < length (nodes Z). c = of_nat i \<and>
      flags_contains (node_flags (nodes Z ! i)) DELEGATION))"
    if "spec_resolve Z m t (Suc depth) o1 = (r, o2)" "\<not> 8 \<le> depth" "typed {t, RT_CNAME} o1" for m o1 o2 r
    using less.hyps [of "Suc depth" o1 m r o2] that by simp
  have node: "i < length (nodes Z)" if "node_named Z m = Some i" for m i using node_named_Some [OF that] by simp
  have wild: "w < length (nodes Z)" if "wildcard_source Z n = Some w" for w
    using that node by (auto simp: wildcard_source_def split: option.splits if_splits)
  show ?case
    using less.prems cut at node wild
    by (subst (asm) spec_resolve.simps)
      (auto simp: Let_def dest!: IH split: if_splits option.splits list.splits rdata.splits prod.splits resolution.splits)
qed

lemma glue_typed: "zone_typed Z \<Longrightarrow> typed {RT_A, RT_AAAA} (glue_of Z n)"
proof -
  assume Z: "zone_typed Z"
  have "typed {RT_A, RT_AAAA} (records_at Z (nodes Z ! i) t ow)" if "node_named Z n = Some i" "t \<in> {RT_A, RT_AAAA}" for i t ow
    using Z that node_named_Some [OF that(1)] unfolding zone_typed_def by (blast intro: typed_mono)
  then show ?thesis by (auto simp: glue_of_def split: option.split)
qed

definition answer_typed :: "rtype \<Rightarrow> answer \<Rightarrow> bool" where
  "answer_typed t a = (case a of
       Records rs \<Rightarrow> typed {t, RT_CNAME} rs
     | Referral rs au ad \<Rightarrow> typed {t, RT_CNAME} rs \<and> typed {RT_NS} au \<and> typed {RT_A, RT_AAAA} ad
     | _ \<Rightarrow> True)"

lemma spec_lookup_typed:
  assumes Z: "zone_typed Z"
  shows "answer_typed t (spec_lookup Z n t)"
proof -
  obtain res out where r: "spec_resolve Z n t 0 [] = (res, out)" by (cases "spec_resolve Z n t 0 []")
  have ty: "typed {t, RT_CNAME} out \<and> (\<forall>c. res = Res_Referral c \<longrightarrow> (\<exists>i < length (nodes Z). c = of_nat i \<and>
      flags_contains (node_flags (nodes Z ! i)) DELEGATION))"
    using spec_resolve_typed [OF Z _ r] by simp
  then have out: "typed {t, RT_CNAME} out" by blast
  show ?thesis
  proof (cases res)
    case (Res_Referral c)
    then obtain i where i: "i < length (nodes Z)" "c = of_nat i" "flags_contains (node_flags (nodes Z ! i)) DELEGATION" using ty by blast
    have ref: "referrals Z c = Some (spec_referral Z (nodes Z ! i))" using Z i unfolding zone_typed_def by blast
    have "typed {RT_NS} (ref_authority (spec_referral Z (nodes Z ! i)))" using Z i(1) by (simp add: spec_referral_def zone_typed_def)
    moreover have "typed {RT_A, RT_AAAA} (ref_additional (spec_referral Z (nodes Z ! i)))" using glue_typed [OF Z] by (simp add: spec_referral_def)
    ultimately show ?thesis using out r ref unfolding Res_Referral by (simp add: spec_lookup_def answer_typed_def)
  qed (use out r in \<open>simp_all add: spec_lookup_def answer_typed_def\<close>)
qed

section \<open>Responses\<close>

definition answer_types :: "rtype \<Rightarrow> rtype set" where
  "answer_types t = (if t = RT_ANY then {RT_CNAME, RT_HINFO, RT_TXT, RT_A, RT_AAAA} else {t, RT_CNAME})"

definition resolved_typed :: "rtype \<Rightarrow> resolved \<Rightarrow> bool" where
  "resolved_typed t r \<longleftrightarrow> typed (answer_types t) (r_answers r) \<and> typed {RT_NS, RT_SOA} (r_authority r) \<and>
     typed {RT_A, RT_AAAA} (r_additional r)"

lemma resolved_of_typed:
  assumes "answer_typed t a" "t \<noteq> RT_ANY" "zone_typed Z"
  shows "resolved_typed t (resolved_of Z a)"
  using assms by (cases a) (auto simp: answer_typed_def resolved_typed_def resolved_of_def resolved_defs answer_types_def zone_typed_def
      elim: typed_mono)

lemma builtin_typed:
  assumes "resolve_builtin E build m a n t src = Some r" "zone_typed (act_zone a)"
  shows "resolved_typed t r"
  using assms by (auto simp: resolve_builtin_def txt_builtin_def resolved_typed_def resolved_defs answer_types_def zone_typed_def
      from_rdata_def Let_def split: option.splits if_splits ip_addr.splits)

lemma handler_typed:
  assumes E: "hickory_ok E" and it: "iter_ok iter" and f: "from_config E iter seed cfg = Inr (act_zone (h_active h))" and ty: "rdata_typed E"
    and n: "is_lower n" "length n \<le> 127"
  shows "resolved_typed t (handler_resolve E build h n t src)"
proof -
  define Z where "Z = act_zone (h_active h)"
  have Z: "zone_typed Z" using built_zone_typed [OF ty E it f] by (simp add: Z_def)
  have look: "answer_typed t (lookup E Z n t)" if "contains E Z n" for t
  proof -
    have "suffix (lower_origin Z) n" using from_config_contains [OF E it f n(1)] that by (simp add: Z_def)
    then have "served_query (E, Z) n" using from_config_served [OF E it f n] by (simp add: Z_def)
    then show ?thesis using served_lookup spec_lookup_typed [OF Z] by simp
  qed
  have any: "resolved_typed RT_ANY (resolve_any E Z n)" if "contains E Z n"
    using look [OF that, of RT_CNAME] Z
    by (auto simp: resolve_any_def resolved_typed_def resolved_defs answer_typed_def answer_types_def zone_typed_def minimal_any_def
        from_rdata_def Let_def elim: typed_mono split: answer.splits)
  have soa: "resolved_typed RT_SOA (found [soa Z])" using Z by (simp add: resolved_typed_def resolved_defs answer_types_def zone_typed_def)
  have ref: "resolved_typed t refused" by (simp add: resolved_typed_def resolved_defs)
  show ?thesis
    using any soa ref look [of t] resolved_of_typed [OF _ _ Z] builtin_typed [of E build "h_metrics h" "h_active h" n t src] Z
    unfolding handler_resolve_def Let_def Z_def [symmetric] by (auto split: option.split)
qed

lemma accept_typed:
  assumes "hickory_ok E" "iter_ok iter" "from_config E iter seed cfg = Inr (act_zone (h_active h))" "rdata_typed E"
    and "\<forall>q \<in> set (rq_queries rq). is_lower (q_name q) \<and> length (q_name q) \<le> 127"
    and "q \<in> set (rq_queries rq)"
  shows "resolved_typed (q_type q) (accept E build rq h)"
proof (cases "gate rq")
  case (Inl r)
  then show ?thesis using gate_Inl [OF Inl] by (auto simp: accept_def resolved_typed_def resolved_defs)
next
  case (Inr p)
  then have "rq_queries rq = [p]" by (rule gate_Inr)
  then show ?thesis using handler_typed [OF assms(1-4)] assms(5,6) Inr by (simp add: accept_def)
qed

text \<open>C27: responses are well typed. Whatever is asked, over whatever transport and at whatever load, each record of
  the answer section is of the type asked for or an alias that leads to it; for ANY it is an alias, the
  synthesised HINFO, or the value of a diagnostic name. The authority section holds name servers and the
  SOA only, the additional section addresses only, and a request without exactly one question gets no record.\<close>

theorem responses_well_typed:
  assumes "hickory_ok E" "iter_ok iter" "from_config E iter seed cfg = Inr (act_zone (h_active h))" "rdata_typed E"
    and "\<forall>q \<in> set (rq_queries rq). is_lower (q_name q) \<and> length (q_name q) \<le> 127"
    and "hd_sent (handle_request E build send now outcome elapsed rq h) = Some resp"
  shows "typed {RT_NS, RT_SOA} (rs_authority resp) \<and> typed {RT_A, RT_AAAA} (rs_additional resp) \<and>
    (\<forall>q. rq_queries rq = [q] \<longrightarrow> typed (answer_types (q_type q)) (rs_answers resp)) \<and>
    (length (rq_queries rq) \<noteq> 1 \<longrightarrow> rs_answers resp @ rs_authority resp @ rs_additional resp = [])"
proof -
  let ?h = "h\<lparr>h_metrics := query (transport_of (rq_protocol rq)) (h_metrics h)\<rparr>"
  obtain ok h1 where c: "check_limiter rq now outcome ?h = (ok, h1)" by (cases "check_limiter rq now outcome ?h")
  then have act: "h_active h1 = h_active h" by (auto simp: check_limiter_def Let_def split: option.splits prod.splits if_splits)
  define r where "r = (if ok then accept E build rq h1 else refused)"
  have resp: "resp = build_response E rq r"
    using assms(6) c by (auto simp: handle_request_def dispatch_def Let_def r_def split: if_splits option.splits)
  have sub: "set (rs_answers resp) \<subseteq> set (r_answers r)" "set (rs_authority resp) \<subseteq> set (r_authority r)"
    "set (rs_additional resp) \<subseteq> set (r_additional r)"
    by (simp_all add: resp build_response_def Let_def)
  have ty: "resolved_typed (q_type q) r" if "q \<in> set (rq_queries rq)" for q
    using accept_typed [OF assms(1,2) _ assms(4,5) that, of seed cfg h1 build] assms(3) act
    by (simp add: r_def resolved_typed_def refused_def)
  have none: "r_answers r @ r_authority r @ r_additional r = []" if "length (rq_queries rq) \<noteq> 1"
  proof (cases "gate rq")
    case (Inl e)
    then show ?thesis using gate_Inl [OF Inl] by (auto simp: r_def accept_def resolved_defs)
  next
    case (Inr q)
    then show ?thesis using gate_Inr(4) [OF Inr] that by simp
  qed
  show ?thesis
  proof (cases "length (rq_queries rq) = 1")
    case True
    then obtain q where "rq_queries rq = [q]" by (auto simp: length_Suc_conv)
    then show ?thesis using ty [of q] sub by (auto simp: resolved_typed_def typed_def)
  next
    case False
    then show ?thesis using none sub by auto
  qed
qed

lemma demo_rdata_typed: "rdata_typed demo_hickory"
  by (auto simp: rdata_typed_def demo_hickory_def demo_rdata_def split: if_splits)

theorem responses_well_typed_witness:
  "\<exists>resp. hd_sent (handle_request demo_hickory [] (\<lambda>_. Some NoError) 0 (\<lambda>_. None) 0 demo_request demo_handler) = Some resp \<and>
     typed {RT_NS, RT_SOA} (rs_authority resp) \<and> typed {RT_TXT, RT_CNAME} (rs_answers resp)"
proof -
  have "\<forall>q \<in> set (rq_queries demo_request). is_lower (q_name q) \<and> length (q_name q) \<le> 127"
    using demo_lower(1) by (simp add: demo_request_def is_lower_def)
  note w = responses_well_typed [OF demo_hickory_ok iter_id demo_handler_built demo_rdata_typed this]
  have "\<not> limited demo_request 0 (\<lambda>_. None) demo_handler" by (simp add: limited_def demo_handler_def handler_new_def)
  then obtain resp where r: "hd_sent (handle_request demo_hickory [] (\<lambda>_. Some NoError) 0 (\<lambda>_. None) 0 demo_request demo_handler) = Some resp"
    using handle_request_outcome(1) by blast
  from w [OF r] show ?thesis using r by (auto simp: demo_request_def answer_types_def)
qed

end
