(* ===== verification/Shutdown.thy ===== *)
theory Shutdown
  imports Lifecycle Config
begin

text \<open>
  \<^verbatim>\<open>src/shutdown.rs\<close> and the shutdown sequence of \<^verbatim>\<open>src/main.rs\<close>: the signal counter with the
  first cause, and the process from the binding of its listeners to its exit. \<open>serve_step\<close> has one
  rule per point at which the main task (\<^verbatim>\<open>serve\<close>, \<^verbatim>\<open>Shutdown::execute\<close>, \<^verbatim>\<open>run\<close>, \<^verbatim>\<open>quiesce\<close>)
  can be overtaken by another one, and rules for what happens around it: time passes, signals
  arrive, the admin task fails, requests start and finish. Waiting for the operating system and
  for other tasks is a step that may be taken at any later time. Time is in milliseconds.

  Shown: the three cancellations happen in their order in every interleaving, the name server
  answers for the whole drain window unless a further signal ends it, the deadline is armed
  once, and from every state of a running shutdown the process can exit.
\<close>

section \<open>Signals\<close>

datatype cause = Cause_Term | Cause_Int | Cause_Abort

fun cause_as_str :: "cause \<Rightarrow> string" where
  "cause_as_str Cause_Term = ''SIGTERM''"
| "cause_as_str Cause_Int = ''SIGINT''"
| "cause_as_str Cause_Abort = ''internal abort''"

fun drain_window :: "cause \<Rightarrow> nat \<Rightarrow> nat" where
  "drain_window Cause_Term configured = configured"
| "drain_window Cause_Int configured = 0"
| "drain_window Cause_Abort configured = 0"

record signals =
  sg_count :: u32
  sg_cause :: "cause option"

definition watch :: signals where
  "watch = \<lparr>sg_count = 0, sg_cause = None\<rparr>"

definition set_cause :: "cause \<Rightarrow> signals \<Rightarrow> signals" where
  "set_cause c s = (case sg_cause s of None \<Rightarrow> s\<lparr>sg_cause := Some c\<rparr> | Some _ \<Rightarrow> s)"

definition bump :: "signals \<Rightarrow> signals" where
  "bump s = s\<lparr>sg_count := saturating_add (sg_count s) 1\<rparr>"

definition deliver :: "cause \<Rightarrow> signals \<Rightarrow> signals" where
  "deliver c s = bump (set_cause c s)"

definition abort :: "signals \<Rightarrow> signals" where
  "abort s = bump (set_cause Cause_Abort s)"

text \<open>\<^verbatim>\<open>Signals::first\<close> and \<^verbatim>\<open>Signals::again\<close>: None, or False, while the future is pending.\<close>

definition first_signal :: "signals \<Rightarrow> cause option" where
  "first_signal s = (if sg_count s = 0 then None else Some (unwrap_or Cause_Term (sg_cause s)))"

definition again :: "u32 \<Rightarrow> signals \<Rightarrow> bool" where
  "again baseline s \<longleftrightarrow> baseline < sg_count s"

datatype os_signal = SIGTERM | SIGINT | SIGHUP

definition listen :: "os_signal \<Rightarrow> signals \<Rightarrow> signals" where
  "listen sig s = (case sig of SIGTERM \<Rightarrow> deliver Cause_Term s | SIGINT \<Rightarrow> deliver Cause_Int s | SIGHUP \<Rightarrow> s)"

section \<open>The process\<close>

definition QUIESCE_CAP :: nat where "QUIESCE_CAP = 1000"
definition QUIESCE_POLL :: nat where "QUIESCE_POLL = 5"
definition STOP_BUDGET :: nat where "STOP_BUDGET = 5000"
definition ADMIN_CLOSE_BUDGET :: nat where "ADMIN_CLOSE_BUDGET = 1000"
definition WATCHDOG_GRACE :: nat where "WATCHDOG_GRACE = 2000"
definition OVERRUN_EXIT_CODE :: nat where "OVERRUN_EXIT_CODE = 3"

lemmas shutdown_consts = QUIESCE_CAP_def QUIESCE_POLL_def STOP_BUDGET_def ADMIN_CLOSE_BUDGET_def
  WATCHDOG_GRACE_def OVERRUN_EXIT_CODE_def

datatype stage =
    Booting
  | Steady
  | Armed
  | DrainMarked
  | DrainWait nat u32
  | Quiesce nat u32
  | DnsJoin
  | ClosingMarked
  | AdminJoin nat
  | Exited nat

record server =
  sv_now :: nat
  sv_life :: lifecycle
  sv_sigs :: signals
  sv_in_flight_now :: nat
  sv_drain_start :: bool
  sv_dns_cancelled :: bool
  sv_admin_cancelled :: bool
  sv_has_admin :: bool
  sv_window :: nat
  sv_signalled_at :: nat
  sv_stage :: stage

definition server_init :: "bool \<Rightarrow> server" where
  "server_init admin = \<lparr>sv_now = 0, sv_life = lifecycle_new, sv_sigs = watch, sv_in_flight_now = 0, sv_drain_start = False,
     sv_dns_cancelled = False, sv_admin_cancelled = False, sv_has_admin = admin, sv_window = 0, sv_signalled_at = 0, sv_stage = Booting\<rparr>"

definition running :: "server \<Rightarrow> bool" where
  "running s \<longleftrightarrow> (\<forall>c. sv_stage s \<noteq> Exited c)"

text \<open>The stages under the timer of \<^verbatim>\<open>Shutdown::execute\<close>.\<close>

definition stopping :: "server \<Rightarrow> bool" where
  "stopping s = (case sv_stage s of Booting \<Rightarrow> False | Steady \<Rightarrow> False | Exited _ \<Rightarrow> False | _ \<Rightarrow> True)"

inductive serve_step :: "nat \<Rightarrow> server \<Rightarrow> server \<Rightarrow> bool" for drain :: nat where
  tick: "running s \<Longrightarrow> serve_step drain s (s\<lparr>sv_now := sv_now s + d\<rparr>)"
| signal: "running s \<Longrightarrow> serve_step drain s (s\<lparr>sv_sigs := listen sig (sv_sigs s)\<rparr>)"
| admin_failure: "running s \<Longrightarrow> sv_has_admin s \<Longrightarrow> serve_step drain s (s\<lparr>sv_sigs := abort (sv_sigs s)\<rparr>)"
| requests: "running s \<Longrightarrow> serve_step drain s (s\<lparr>sv_in_flight_now := n\<rparr>)"
| bind_failure: "sv_stage s = Booting \<Longrightarrow> serve_step drain s (s\<lparr>sv_stage := Exited 1\<rparr>)"
| ready: "sv_stage s = Booting \<Longrightarrow> serve_step drain s (s\<lparr>sv_life := publish Serving (sv_life s), sv_stage := Steady\<rparr>)"
| listeners_died: "sv_stage s = Steady \<Longrightarrow> serve_step drain s (s\<lparr>sv_admin_cancelled := True, sv_stage := Exited 1\<rparr>)"
| first: "sv_stage s = Steady \<Longrightarrow> first_signal (sv_sigs s) = Some c \<Longrightarrow>
    serve_step drain s (s\<lparr>sv_window := drain_window c drain, sv_signalled_at := sv_now s,
      sv_life := arm_deadline (sv_now s + drain_window c drain + STOP_BUDGET) (sv_life s), sv_stage := Armed\<rparr>)"
| mark: "sv_stage s = Armed \<Longrightarrow> serve_step drain s (s\<lparr>sv_drain_start := True, sv_stage := DrainMarked\<rparr>)"
| drain_begins: "sv_stage s = DrainMarked \<Longrightarrow>
    serve_step drain s (s\<lparr>sv_life := publish Draining (sv_life s), sv_stage := DrainWait (sv_now s + sv_window s) (sg_count (sv_sigs s))\<rparr>)"
| drain_ends: "sv_stage s = DrainWait until base \<Longrightarrow> until \<le> sv_now s \<or> again base (sv_sigs s) \<Longrightarrow>
    serve_step drain s (s\<lparr>sv_life := publish Stopping (sv_life s), sv_stage := Quiesce (sv_now s + QUIESCE_CAP) (sg_count (sv_sigs s))\<rparr>)"
| poll: "sv_stage s = Quiesce limit base \<Longrightarrow> sv_in_flight_now s \<noteq> 0 \<Longrightarrow> sv_now s < limit \<Longrightarrow> \<not> again base (sv_sigs s) \<Longrightarrow>
    serve_step drain s (s\<lparr>sv_now := sv_now s + min QUIESCE_POLL (limit - sv_now s), sv_stage := Quiesce limit (sg_count (sv_sigs s))\<rparr>)"
| quiesced: "sv_stage s = Quiesce limit base \<Longrightarrow> sv_in_flight_now s = 0 \<or> limit \<le> sv_now s \<or> again base (sv_sigs s) \<Longrightarrow>
    serve_step drain s (s\<lparr>sv_dns_cancelled := True, sv_stage := DnsJoin\<rparr>)"
| dns_joined: "sv_stage s = DnsJoin \<Longrightarrow>
    serve_step drain s (s\<lparr>sv_life := publish Closing (sv_life s), sv_stage := ClosingMarked\<rparr>)"
| close_admin: "sv_stage s = ClosingMarked \<Longrightarrow>
    serve_step drain s (s\<lparr>sv_admin_cancelled := True,
      sv_stage := (if sv_has_admin s then AdminJoin (sv_now s + ADMIN_CLOSE_BUDGET) else Exited 0)\<rparr>)"
| admin_joined: "sv_stage s = AdminJoin until \<Longrightarrow> serve_step drain s (s\<lparr>sv_stage := Exited 0\<rparr>)"
| overrun: "stopping s \<Longrightarrow> lc_deadline (sv_life s) = Some at \<Longrightarrow> at \<le> sv_now s \<Longrightarrow>
    serve_step drain s (s\<lparr>sv_stage := Exited OVERRUN_EXIT_CODE\<rparr>)"

definition reachable :: "nat \<Rightarrow> bool \<Rightarrow> server \<Rightarrow> bool" where
  "reachable drain admin s \<longleftrightarrow> (serve_step drain)\<^sup>*\<^sup>* (server_init admin) s"

section \<open>The invariant of the sequence\<close>

lemmas signal_defs = deliver_def abort_def bump_def set_cause_def listen_def watch_def

lemma saturating_add_one: "unat (saturating_add c 1 :: u32) = min (unat c + 1) (2 ^ 32 - 1)"
  by (simp add: saturating_add_def unat_word_ariths unsigned_minus_1_eq_mask mask_eq_exp_minus_1)

lemma bump_count: "sg_count s \<le> sg_count (bump s)" "sg_count (bump s) \<noteq> 0"
  using saturating_add_one [of "sg_count s"] unat_less_pow [of "sg_count s"]
  by (auto simp: bump_def word_le_nat_alt)

lemma listen_count: "sg_count s \<le> sg_count (listen sig s)"
  using bump_count(1) [of "set_cause _ s"]
  by (auto simp: listen_def deliver_def set_cause_def bump_def split: os_signal.split option.split)

lemma abort_count: "sg_count s \<le> sg_count (abort s)"
  using bump_count(1) [of "set_cause Cause_Abort s"] by (auto simp: abort_def set_cause_def bump_def split: option.split)

definition signals_ok :: "signals \<Rightarrow> bool" where
  "signals_ok s \<longleftrightarrow> (sg_count s = 0) = (sg_cause s = None)"

lemma signals_ok_steps [simp]:
  "signals_ok watch" "signals_ok s \<Longrightarrow> signals_ok (listen sig s)" "signals_ok s \<Longrightarrow> signals_ok (abort s)"
  using bump_count(2)
  by (auto simp: signals_ok_def listen_def deliver_def abort_def bump_def set_cause_def watch_def split: os_signal.split option.split)

lemma first_signal_sticks:
  assumes "signals_ok s" and "first_signal s = Some c"
  shows "first_signal (listen sig s) = Some c" and "first_signal (abort s) = Some c"
  using assms bump_count(2)
  by (auto simp: signals_ok_def first_signal_def listen_def deliver_def abort_def bump_def set_cause_def
      split: if_splits os_signal.split option.splits)

text \<open>The phase and the three tokens (drain start, name server, admin) that go with a stage.\<close>

definition tokens :: "server \<Rightarrow> phase \<times> bool \<times> bool \<times> bool" where
  "tokens s = (phase_of (sv_life s), sv_drain_start s, sv_dns_cancelled s, sv_admin_cancelled s)"

fun stage_view :: "stage \<Rightarrow> (phase \<times> bool \<times> bool \<times> bool) option" where
  "stage_view Booting = Some (Starting, False, False, False)"
| "stage_view Steady = Some (Serving, False, False, False)"
| "stage_view Armed = Some (Serving, False, False, False)"
| "stage_view DrainMarked = Some (Serving, True, False, False)"
| "stage_view (DrainWait _ _) = Some (Draining, True, False, False)"
| "stage_view (Quiesce _ _) = Some (Stopping, True, False, False)"
| "stage_view DnsJoin = Some (Stopping, True, True, False)"
| "stage_view ClosingMarked = Some (Closing, True, True, False)"
| "stage_view (AdminJoin _) = Some (Closing, True, True, True)"
| "stage_view (Exited _) = None"

definition signal_ok :: "nat \<Rightarrow> server \<Rightarrow> bool" where
  "signal_ok drain s \<longleftrightarrow> (\<exists>c. first_signal (sv_sigs s) = Some c \<and> sv_window s = drain_window c drain) \<and>
     lc_deadline (sv_life s) = Some (sv_signalled_at s + sv_window s + STOP_BUDGET) \<and> sv_signalled_at s \<le> sv_now s"

definition order_kept :: "server \<Rightarrow> bool" where
  "order_kept s \<longleftrightarrow>
     (Draining \<le> phase_of (sv_life s) \<longrightarrow> sv_drain_start s) \<and>
     (sv_dns_cancelled s \<longrightarrow> sv_drain_start s \<and> Stopping \<le> phase_of (sv_life s)) \<and>
     (sv_admin_cancelled s \<longrightarrow> sv_stage s = Exited 1 \<or> sv_dns_cancelled s \<and> phase_of (sv_life s) = Closing)"

definition window_kept :: "server \<Rightarrow> bool" where
  "window_kept s \<longleftrightarrow> (Stopping \<le> phase_of (sv_life s) \<longrightarrow>
     sv_signalled_at s + sv_window s \<le> sv_now s \<or> 1 < sg_count (sv_sigs s))"

definition wait_ok :: "server \<Rightarrow> bool" where
  "wait_ok s = (case sv_stage s of
       Booting \<Rightarrow> lc_deadline (sv_life s) = None
     | Steady \<Rightarrow> lc_deadline (sv_life s) = None
     | DrainWait until base \<Rightarrow> sv_signalled_at s + sv_window s \<le> until \<and> base \<noteq> 0 \<and> until \<le> sv_now s + sv_window s
     | Quiesce limit _ \<Rightarrow> limit \<le> sv_now s + QUIESCE_CAP
     | _ \<Rightarrow> True)"

definition serve_inv :: "nat \<Rightarrow> server \<Rightarrow> bool" where
  "serve_inv drain s \<longleftrightarrow> lifecycle_ok (sv_life s) \<and> signals_ok (sv_sigs s) \<and>
     (\<forall>v. stage_view (sv_stage s) = Some v \<longrightarrow> tokens s = v) \<and>
     (stopping s \<or> sv_drain_start s \<longrightarrow> signal_ok drain s) \<and> wait_ok s \<and> order_kept s \<and> window_kept s"

lemma phase_cases_le [simp]: "Stopping \<le> Starting \<longleftrightarrow> False" "Stopping \<le> Serving \<longleftrightarrow> False" "Stopping \<le> Draining \<longleftrightarrow> False"
  "Draining \<le> Starting \<longleftrightarrow> False" "Serving \<le> Starting \<longleftrightarrow> False" "Closing \<le> Stopping \<longleftrightarrow> False"
  by (simp_all add: less_eq_phase_def word_le_nat_alt)

lemma publish_simps [simp]: "lifecycle_ok L \<Longrightarrow> phase_of (publish p L) = max p (phase_of L)"
  "lifecycle_ok L \<Longrightarrow> lifecycle_ok (publish p L)"
  by (simp_all add: publish_def)

lemma order_kept_view: "stage_view (sv_stage s) = Some v \<Longrightarrow> tokens s = v \<Longrightarrow> order_kept s"
  by (cases "sv_stage s") (auto simp: tokens_def order_kept_def)

lemma serve_inv_view:
  "serve_inv drain s \<Longrightarrow>
     (case stage_view (sv_stage s) of
        Some (p, a, b, c) \<Rightarrow> phase_of (sv_life s) = p \<and> sv_drain_start s = a \<and> sv_dns_cancelled s = b \<and> sv_admin_cancelled s = c
      | None \<Rightarrow> True) \<and> lifecycle_ok (sv_life s) \<and> signals_ok (sv_sigs s)"
  by (auto simp: serve_inv_def tokens_def split: option.split)

lemma serve_invI:
  assumes "lifecycle_ok (sv_life s)" and "signals_ok (sv_sigs s)" and "stage_view (sv_stage s) = Some v" and "tokens s = v"
    and "stopping s \<Longrightarrow> signal_ok drain s" and "wait_ok s" and "window_kept s" and "sv_drain_start s \<Longrightarrow> stopping s"
  shows "serve_inv drain s"
  using assms order_kept_view [OF assms(3,4)] by (auto simp: serve_inv_def)

lemma serve_inv_exit:
  assumes "serve_inv drain s" and "running s"
  shows "serve_inv drain (s\<lparr>sv_stage := Exited c\<rparr>)"
  using assms by (auto simp: serve_inv_def stopping_def signal_ok_def wait_ok_def order_kept_def window_kept_def running_def)

lemma serve_inv_init: "serve_inv drain (server_init admin)"
  by (rule serve_invI) (simp_all add: server_init_def tokens_def wait_ok_def window_kept_def stopping_def, simp add: lifecycle_new_def)

lemma again_count:
  assumes "again base s" and "base \<noteq> 0"
  shows "1 < sg_count s"
proof -
  have "0 < unat base" using assms(2) by (simp add: unat_gt_0)
  then show ?thesis using assms(1) by (simp add: again_def word_less_nat_alt)
qed

text \<open>What happens around the main task changes the clock, the signals and the requests.\<close>

definition around :: "nat \<Rightarrow> signals \<Rightarrow> nat \<Rightarrow> server \<Rightarrow> server" where
  "around t g n s = s\<lparr>sv_now := t, sv_sigs := g, sv_in_flight_now := n\<rparr>"

lemma around_simps [simp]:
  "tokens (around t g n s) = tokens s" "order_kept (around t g n s) = order_kept s"
  "sv_stage (around t g n s) = sv_stage s"
  "stopping (around t g n s) = stopping s" "sv_life (around t g n s) = sv_life s"
  "sv_sigs (around t g n s) = g" "sv_drain_start (around t g n s) = sv_drain_start s"
  by (simp_all add: around_def tokens_def order_kept_def stopping_def)

lemma wait_ok_around: "wait_ok s \<Longrightarrow> sv_now s \<le> t \<Longrightarrow> wait_ok (around t g n s)"
  by (cases "sv_stage s") (simp_all add: wait_ok_def around_def)

lemma serve_inv_around:
  assumes inv: "serve_inv drain s" and t: "sv_now s \<le> t" and g: "signals_ok g" "sg_count (sv_sigs s) \<le> sg_count g"
    and sticks: "\<And>c. first_signal (sv_sigs s) = Some c \<Longrightarrow> first_signal g = Some c"
  shows "serve_inv drain (around t g n s)"
proof -
  have "signal_ok drain (around t g n s)" if "signal_ok drain s"
    using that t sticks by (auto simp: signal_ok_def around_def)
  moreover have "window_kept (around t g n s)"
    using inv t g(2) by (auto simp: serve_inv_def window_kept_def around_def)
  ultimately show ?thesis using inv g(1) wait_ok_around [OF _ t] by (auto simp: serve_inv_def)
qed

lemma serve_inv_step: "serve_step drain s s' \<Longrightarrow> serve_inv drain s \<Longrightarrow> serve_inv drain s'"
proof (induction rule: serve_step.induct)
  case (tick s d)
  then have "serve_inv drain (around (sv_now s + d) (sv_sigs s) (sv_in_flight_now s) s)"
    by (intro serve_inv_around) (simp_all add: serve_inv_def)
  then show ?case by (simp add: around_def)
next
  case (signal s sig)
  then have "serve_inv drain (around (sv_now s) (listen sig (sv_sigs s)) (sv_in_flight_now s) s)"
    using listen_count first_signal_sticks(1) by (intro serve_inv_around) (simp_all add: serve_inv_def)
  then show ?case by (simp add: around_def)
next
  case (admin_failure s)
  then have "serve_inv drain (around (sv_now s) (abort (sv_sigs s)) (sv_in_flight_now s) s)"
    using abort_count first_signal_sticks(2) by (intro serve_inv_around) (simp_all add: serve_inv_def)
  then show ?case by (simp add: around_def)
next
  case (requests s n)
  then have "serve_inv drain (around (sv_now s) (sv_sigs s) n s)"
    by (intro serve_inv_around) (simp_all add: serve_inv_def)
  then show ?case by (simp add: around_def)
next
  case (bind_failure s)
  then show ?case by (intro serve_inv_exit) (simp_all add: running_def)
next
  case (listeners_died s)
  then show ?case
    using serve_inv_view [OF listeners_died(2), unfolded listeners_died(1), simplified]
    by (auto simp: serve_inv_def stopping_def signal_ok_def wait_ok_def order_kept_def window_kept_def)
next
  case (overrun s at)
  then show ?case by (intro serve_inv_exit) (auto simp: running_def stopping_def)
next
  case (admin_joined s until)
  then show ?case by (intro serve_inv_exit) (simp_all add: running_def)
next
  case (close_admin s)
  note v = serve_inv_view [OF close_admin(2), unfolded close_admin(1), simplified]
  have "signal_ok drain s" "window_kept s" using close_admin v by (simp_all add: serve_inv_def)
  then have inv: "serve_inv drain (s\<lparr>sv_admin_cancelled := True, sv_stage := AdminJoin t\<rparr>)" for t
    using v by (intro serve_invI) (simp_all add: tokens_def wait_ok_def stopping_def signal_ok_def window_kept_def)
  from serve_inv_exit [OF this [of 0], of 0] inv v show ?case by (simp add: running_def)
next
  case (drain_ends s until base)
  note v = serve_inv_view [OF drain_ends(3), unfolded drain_ends(1), simplified]
  have "wait_ok s" "signal_ok drain s" using drain_ends(3) v by (simp_all add: serve_inv_def)
  moreover from this have "sv_signalled_at s + sv_window s \<le> sv_now s \<or> 1 < sg_count (sv_sigs s)"
    using drain_ends(1,2) again_count by (auto simp: wait_ok_def)
  ultimately show ?case
    using v by (intro serve_invI) (simp_all add: tokens_def wait_ok_def stopping_def signal_ok_def window_kept_def max_def)
next
  case (ready s)
  note v = serve_inv_view [OF ready(2), unfolded ready(1), simplified]
  have "wait_ok s" using ready(2) by (simp add: serve_inv_def)
  then show ?case
    using v ready(1) by (intro serve_invI) (simp_all add: tokens_def wait_ok_def stopping_def window_kept_def max_def)
next
  case (first s c)
  note v = serve_inv_view [OF first(3), unfolded first(1), simplified]
  have "wait_ok s" using first(3) by (simp add: serve_inv_def)
  then show ?case
    using v first(1,2) by (intro serve_invI) (simp_all add: tokens_def wait_ok_def stopping_def window_kept_def signal_ok_def)
next
  case (mark s)
  note v = serve_inv_view [OF mark(2), unfolded mark(1), simplified]
  have "signal_ok drain s" using mark by (simp add: serve_inv_def stopping_def)
  then show ?case
    using v by (intro serve_invI) (simp_all add: tokens_def wait_ok_def stopping_def window_kept_def signal_ok_def)
next
  case (drain_begins s)
  note v = serve_inv_view [OF drain_begins(2), unfolded drain_begins(1), simplified]
  have "signal_ok drain s" using drain_begins v by (simp add: serve_inv_def)
  moreover from this have "sg_count (sv_sigs s) \<noteq> 0" by (auto simp: signal_ok_def first_signal_def)
  ultimately show ?case
    using v by (intro serve_invI) (simp_all add: tokens_def wait_ok_def stopping_def window_kept_def signal_ok_def max_def)
next
  case (poll s limit base)
  note v = serve_inv_view [OF poll(5), unfolded poll(1), simplified]
  have "signal_ok drain s" "window_kept s" "wait_ok s" using poll(5) v by (simp_all add: serve_inv_def)
  then show ?case
    using v poll(1) by (intro serve_invI) (auto simp: tokens_def wait_ok_def stopping_def window_kept_def signal_ok_def)
next
  case (quiesced s limit base)
  note v = serve_inv_view [OF quiesced(3), unfolded quiesced(1), simplified]
  have "signal_ok drain s" "window_kept s" using quiesced(3) v by (simp_all add: serve_inv_def)
  then show ?case
    using v by (intro serve_invI) (simp_all add: tokens_def wait_ok_def stopping_def window_kept_def signal_ok_def)
next
  case (dns_joined s)
  note v = serve_inv_view [OF dns_joined(2), unfolded dns_joined(1), simplified]
  have "signal_ok drain s" "window_kept s" using dns_joined(2) v by (simp_all add: serve_inv_def)
  then show ?case
    using v by (intro serve_invI) (simp_all add: tokens_def wait_ok_def stopping_def window_kept_def signal_ok_def max_def)
qed

lemma reachable_inv: "reachable drain admin s \<Longrightarrow> serve_inv drain s"
  unfolding reachable_def by (induction rule: rtranclp_induct) (auto intro: serve_inv_init serve_inv_step)

section \<open>What the sequence promises\<close>

text \<open>C19: the order of a shutdown holds in every interleaving of the main task with signals, the admin
  task and requests. The name server's token is cancelled only after the drain-start token and a phase
  of at least stopping, the admin token only after the name server's with the phase at closing (or when
  the listeners died on their own), a draining phase is never published before reloads are fenced off,
  and a process that reports ready has its listeners up.\<close>

theorem shutdown_order:
  assumes "reachable drain admin s"
  shows "(sv_dns_cancelled s \<longrightarrow> sv_drain_start s \<and> Stopping \<le> phase_of (sv_life s)) \<and>
     (sv_admin_cancelled s \<longrightarrow> sv_stage s = Exited 1 \<or> sv_dns_cancelled s \<and> phase_of (sv_life s) = Closing) \<and>
     (is_draining (sv_life s) \<longrightarrow> sv_drain_start s) \<and> (is_ready (sv_life s) \<longrightarrow> \<not> sv_dns_cancelled s)"
  using reachable_inv [OF assms] by (auto simp: serve_inv_def order_kept_def is_draining_def is_ready_def)


lemma reachable_init: "reachable drain admin (server_init admin)"
  by (simp add: reachable_def)

lemma reachable_step: "reachable drain admin s \<Longrightarrow> serve_step drain s s' \<Longrightarrow> reachable drain admin s'"
  unfolding reachable_def by (rule rtranclp.rtrancl_into_rtrancl)

text \<open>A run of a process without an admin listener: SIGTERM, a drain window of five milliseconds, exit.\<close>

definition demo_terminated :: server where
  "demo_terminated = (server_init False)\<lparr>sv_life := publish Serving lifecycle_new, sv_stage := Steady,
     sv_sigs := listen SIGTERM watch\<rparr>"

definition demo_drained :: server where
  "demo_drained = demo_terminated\<lparr>sv_window := 5, sv_now := 5, sv_drain_start := True, sv_dns_cancelled := True,
     sv_life := publish Stopping (publish Draining (arm_deadline 5005 (publish Serving lifecycle_new))), sv_stage := DnsJoin\<rparr>"

lemma demo_signals: "first_signal (listen SIGTERM watch) = Some Cause_Term" "sg_count (listen SIGTERM watch) = 1"
  "sg_cause (listen SIGTERM watch) = Some Cause_Term"
  by (simp_all add: first_signal_def signal_defs saturating_add_def)

lemma demo_terminated_reachable: "reachable 5 False demo_terminated"
proof -
  have "reachable 5 False ((server_init False)\<lparr>sv_sigs := listen SIGTERM watch\<rparr>)"
    using reachable_step [OF reachable_init serve_step.signal [of "server_init False" 5 SIGTERM]]
    by (simp add: server_init_def running_def)
  from reachable_step [OF this serve_step.ready] show ?thesis by (simp add: server_init_def demo_terminated_def)
qed

lemma demo_drained_reachable: "reachable 5 False demo_drained"
proof -
  note r = demo_terminated_reachable [unfolded demo_terminated_def server_init_def, simplified]
  note r = reachable_step [OF r serve_step.first [where c = Cause_Term], simplified, OF demo_signals(1)]
  note r = reachable_step [OF r serve_step.mark, simplified]
  note r = reachable_step [OF r serve_step.drain_begins, simplified]
  note r = reachable_step [OF r serve_step.tick [where d = 5], simplified running_def, simplified]
  note r = reachable_step [OF r serve_step.drain_ends, simplified]
  note r = reachable_step [OF r serve_step.quiesced, simplified]
  from r show ?thesis by (simp add: demo_drained_def demo_terminated_def server_init_def shutdown_consts)
qed

theorem shutdown_order_witness:
  "sv_drain_start demo_drained \<and> Stopping \<le> phase_of (sv_life demo_drained)"
proof -
  have "sv_dns_cancelled demo_drained" by (simp add: demo_drained_def)
  with shutdown_order [OF demo_drained_reachable] show ?thesis by blast
qed


section \<open>A shutdown can always complete\<close>

definition can_exit :: "nat \<Rightarrow> server \<Rightarrow> nat \<Rightarrow> bool" where
  "can_exit drain s t \<longleftrightarrow> (\<exists>s'. (serve_step drain)\<^sup>*\<^sup>* s s' \<and> sv_stage s' = Exited 0 \<and> sv_now s' \<le> t \<and> sv_sigs s' = sv_sigs s)"

lemma can_exit_step:
  "serve_step drain s s1 \<Longrightarrow> sv_sigs s1 = sv_sigs s \<Longrightarrow> can_exit drain s1 t \<Longrightarrow> can_exit drain s t"
  unfolding can_exit_def by (metis converse_rtranclp_into_rtranclp)

lemma can_exit_mono: "can_exit drain s t \<Longrightarrow> t \<le> t' \<Longrightarrow> can_exit drain s t'"
  unfolding can_exit_def by (meson order.trans)

lemma can_exit_now: "sv_stage s = Exited 0 \<Longrightarrow> sv_now s \<le> t \<Longrightarrow> can_exit drain s t"
  unfolding can_exit_def by blast

lemma can_exit_AdminJoin: "sv_stage s = AdminJoin u \<Longrightarrow> sv_now s \<le> t \<Longrightarrow> can_exit drain s t"
  by (rule can_exit_step [OF serve_step.admin_joined]) (auto intro: can_exit_now)

lemma can_exit_ClosingMarked: "sv_stage s = ClosingMarked \<Longrightarrow> sv_now s \<le> t \<Longrightarrow> can_exit drain s t"
  by (rule can_exit_step [OF serve_step.close_admin]) (auto intro: can_exit_now can_exit_AdminJoin)

lemma can_exit_DnsJoin: "sv_stage s = DnsJoin \<Longrightarrow> sv_now s \<le> t \<Longrightarrow> can_exit drain s t"
  by (rule can_exit_step [OF serve_step.dns_joined]) (auto intro: can_exit_ClosingMarked)

lemma can_exit_Quiesce:
  assumes "sv_stage s = Quiesce limit base" and "max (sv_now s) limit \<le> t"
  shows "can_exit drain s t"
proof (rule can_exit_step [OF serve_step.tick [where d = "limit - sv_now s"]])
  show "can_exit drain (s\<lparr>sv_now := sv_now s + (limit - sv_now s)\<rparr>) t"
    by (rule can_exit_step [OF serve_step.quiesced]) (use assms in \<open>auto intro: can_exit_DnsJoin\<close>)
qed (use assms in \<open>simp_all add: running_def\<close>)

lemma can_exit_DrainWait:
  assumes "sv_stage s = DrainWait until base" and "max (sv_now s) until + QUIESCE_CAP \<le> t"
  shows "can_exit drain s t"
proof (rule can_exit_step [OF serve_step.tick [where d = "until - sv_now s"]])
  show "can_exit drain (s\<lparr>sv_now := sv_now s + (until - sv_now s)\<rparr>) t"
    by (rule can_exit_step [OF serve_step.drain_ends]) (use assms in \<open>auto intro!: can_exit_Quiesce\<close>)
qed (use assms in \<open>simp_all add: running_def\<close>)

lemma can_exit_DrainMarked:
  "sv_stage s = DrainMarked \<Longrightarrow> sv_now s + sv_window s + QUIESCE_CAP \<le> t \<Longrightarrow> can_exit drain s t"
  by (rule can_exit_step [OF serve_step.drain_begins]) (auto intro!: can_exit_DrainWait)

lemma can_exit_Armed: "sv_stage s = Armed \<Longrightarrow> sv_now s + sv_window s + QUIESCE_CAP \<le> t \<Longrightarrow> can_exit drain s t"
  by (rule can_exit_step [OF serve_step.mark]) (auto intro!: can_exit_DrainMarked)

lemma drain_window_le: "drain_window c drain \<le> drain"
  by (cases c) simp_all

lemma can_exit_Steady:
  assumes "sv_stage s = Steady" and "first_signal (sv_sigs s) = Some c" and "sv_now s + drain + QUIESCE_CAP \<le> t"
  shows "can_exit drain s t"
  by (rule can_exit_step [OF serve_step.first [OF assms(1,2)]])
    (use assms drain_window_le [of c drain] in \<open>auto intro!: can_exit_Armed\<close>)

lemma can_exit_Booting:
  assumes "sv_stage s = Booting" and "first_signal (sv_sigs s) = Some c" and "sv_now s + drain + QUIESCE_CAP \<le> t"
  shows "can_exit drain s t"
  by (rule can_exit_step [OF serve_step.ready [OF assms(1)]]) (use assms in \<open>auto intro!: can_exit_Steady\<close>)

text \<open>Once a signal has been delivered, a running process can exit cleanly from wherever it is,
  without any further signal and whatever the requests in flight, within the drain window and the
  quiesce cap of the present moment; no point of the sequence waits for something that need not come.\<close>

lemma shutdown_can_complete:
  assumes "reachable drain admin s" and "running s" and "first_signal (sv_sigs s) = Some c"
  shows "\<exists>s'. (serve_step drain)\<^sup>*\<^sup>* s s' \<and> sv_stage s' = Exited 0 \<and> sv_now s' \<le> sv_now s + drain + QUIESCE_CAP \<and>
     sv_sigs s' = sv_sigs s"
proof -
  let ?t = "sv_now s + drain + QUIESCE_CAP"
  have inv: "serve_inv drain s" by (rule reachable_inv [OF assms(1)])
  have w: "sv_window s \<le> drain" if "stopping s"
    using inv that drain_window_le by (auto simp: serve_inv_def signal_ok_def)
  have "can_exit drain s ?t"
  proof (cases "sv_stage s")
    case Booting
    then show ?thesis using assms(3) by (rule can_exit_Booting) simp
  next
    case Steady
    then show ?thesis using assms(3) by (rule can_exit_Steady) simp
  next
    case (DrainWait until base)
    then have "until \<le> sv_now s + drain" using inv w by (auto simp: serve_inv_def wait_ok_def stopping_def)
    then show ?thesis by (intro can_exit_DrainWait [OF DrainWait]) simp
  next
    case (Quiesce limit base)
    then have "limit \<le> sv_now s + QUIESCE_CAP" using inv by (auto simp: serve_inv_def wait_ok_def)
    then show ?thesis by (intro can_exit_Quiesce [OF Quiesce]) simp
  next
    case (Exited k)
    then show ?thesis using assms(2) by (simp add: running_def)
  qed (use w in \<open>auto simp: stopping_def intro: can_exit_Armed can_exit_DrainMarked can_exit_DnsJoin can_exit_ClosingMarked
        can_exit_AdminJoin\<close>)
  then show ?thesis by (simp add: can_exit_def)
qed

end
