(* ===== verification/Process.thy ===== *)
theory Process
  imports Shutdown Reload
begin

text \<open>
  The process around the shutdown sequence (\<^verbatim>\<open>src/main.rs\<close>): what start-up binds and in which order, the
  timings it announces, the choice of the log filter, and the watchdog thread. The main task is the step
  relation of the shutdown theory. When it has returned, the process is still there until the runtime has
  been dropped, which waits for blocking tasks for as long as they take; when nothing polls the runtime the
  main task takes no step at all. The watchdog is a thread of the operating system, so the one thing assumed
  of it is that time does not pass beyond its alarm while it sleeps.
\<close>

section \<open>Start-up\<close>

datatype listener = Udp_Socket sock_addr | Tcp_Listener sock_addr nat nat

datatype boot_error = Boot_Zone zone_error | Bind_Udp sock_addr | Bind_Tcp sock_addr | Bind_Admin sock_addr

text \<open>Which addresses the operating system lets the process bind, per transport.\<close>

record binds =
  bind_udp :: "sock_addr \<Rightarrow> bool"
  bind_tcp :: "sock_addr \<Rightarrow> bool"

definition bind_dns :: "binds \<Rightarrow> config \<Rightarrow> boot_error + listener list" where
  "bind_dns os cfg =
     rbind (rmap (\<lambda>addr. if bind_udp os addr then Inr (Udp_Socket addr) else Inl (Bind_Udp addr)) (cfg_udp cfg)) (\<lambda>us.
     rbind (rmap (\<lambda>addr. if bind_tcp os addr then Inr (Tcp_Listener addr (cfg_tcp_timeout cfg) (cfg_tcp_response_buffer cfg))
                         else Inl (Bind_Tcp addr)) (cfg_tcp cfg)) (\<lambda>ts. Inr (us @ ts)))"

definition bind_admin :: "binds \<Rightarrow> sock_addr \<Rightarrow> boot_error + sock_addr" where
  "bind_admin os addr = (if bind_tcp os addr then Inr addr else Inl (Bind_Admin addr))"

text \<open>Everything that can fail before the process calls itself ready.\<close>

definition start_up :: "hickory \<Rightarrow> (entry list \<Rightarrow> entry list) \<Rightarrow> u64 \<Rightarrow> (u64 \<Rightarrow> u64) \<Rightarrow> nat \<Rightarrow> binds \<Rightarrow> config
    \<Rightarrow> boot_error + (dns_handler \<times> listener list \<times> sock_addr option)" where
  "start_up E iter seed hash now os cfg =
     rbind (map_sum Boot_Zone id (boot E iter seed hash now cfg)) (\<lambda>h.
     rbind (bind_dns os cfg) (\<lambda>ls.
     rbind (case cfg_admin_listen cfg of Some addr \<Rightarrow> map_sum id Some (bind_admin os addr) | None \<Rightarrow> Inr None) (\<lambda>adm.
     Inr (h, ls, adm))))"

text \<open>The filter of the environment, else the configured one, else the default; parsing is an argument.\<close>

definition log_filter :: "(string \<Rightarrow> 'f option) \<Rightarrow> 'f option \<Rightarrow> (string \<Rightarrow> 'f) \<Rightarrow> config \<Rightarrow> 'f" where
  "log_filter try_new env new cfg = unwrap_or (new DEFAULT_LOG_FILTER) (opt_or env (try_new (cfg_log_level cfg)))"

datatype plan_warning = Drain_Below_Tcp_Timeout nat nat | Drain_Unobserved nat

record shutdown_plan =
  sp_warnings :: "plan_warning list"
  sp_drain :: nat
  sp_deadline :: nat
  sp_watchdog :: nat

text \<open>The announced timings, in seconds.\<close>

definition log_shutdown_plan :: "config \<Rightarrow> shutdown_plan" where
  "log_shutdown_plan cfg =
     (let drain = 1000 * cfg_shutdown_drain cfg; deadline = drain + STOP_BUDGET; watchdog = deadline + WATCHDOG_GRACE in
      \<lparr>sp_warnings =
         (if drain \<noteq> 0 \<and> drain < 1000 * cfg_tcp_timeout cfg then [Drain_Below_Tcp_Timeout (drain div 1000) (cfg_tcp_timeout cfg)] else []) @
         (if cfg_admin_listen cfg = None \<and> drain \<noteq> 0 then [Drain_Unobserved (drain div 1000)] else []),
       sp_drain = drain div 1000, sp_deadline = deadline div 1000, sp_watchdog = watchdog div 1000\<rparr>)"

section \<open>The process and its watchdog\<close>

record process =
  pr_server :: server
  pr_watchdog :: "nat option"
  pr_exit :: "nat option"

definition process_init :: "bool \<Rightarrow> process" where
  "process_init admin = \<lparr>pr_server = server_init admin, pr_watchdog = None, pr_exit = None\<rparr>"

text \<open>The watchdog is armed where the main task takes the first signal, before its first wait.\<close>

definition arm_watchdog :: "server \<Rightarrow> server \<Rightarrow> nat option \<Rightarrow> nat option" where
  "arm_watchdog s s' w =
     (if sv_stage s = Steady \<and> sv_stage s' = Armed
      then Some (sv_signalled_at s' + sv_window s' + STOP_BUDGET + WATCHDOG_GRACE) else w)"

definition asleep :: "nat option \<Rightarrow> nat \<Rightarrow> bool" where
  "asleep w t = (case w of None \<Rightarrow> True | Some at \<Rightarrow> t \<le> at)"

inductive process_step :: "nat \<Rightarrow> process \<Rightarrow> process \<Rightarrow> bool" for drain :: nat where
  main: "pr_exit p = None \<Longrightarrow> serve_step drain (pr_server p) s' \<Longrightarrow> asleep (pr_watchdog p) (sv_now s') \<Longrightarrow>
    process_step drain p (p\<lparr>pr_server := s', pr_watchdog := arm_watchdog (pr_server p) s' (pr_watchdog p)\<rparr>)"
| linger: "pr_exit p = None \<Longrightarrow> sv_stage (pr_server p) = Exited c \<Longrightarrow> asleep (pr_watchdog p) (sv_now (pr_server p) + d) \<Longrightarrow>
    process_step drain p (p\<lparr>pr_server := (pr_server p)\<lparr>sv_now := sv_now (pr_server p) + d\<rparr>\<rparr>)"
| leave: "pr_exit p = None \<Longrightarrow> sv_stage (pr_server p) = Exited c \<Longrightarrow> process_step drain p (p\<lparr>pr_exit := Some c\<rparr>)"
| bark: "pr_exit p = None \<Longrightarrow> pr_watchdog p = Some at \<Longrightarrow> at \<le> sv_now (pr_server p) \<Longrightarrow>
    process_step drain p (p\<lparr>pr_exit := Some OVERRUN_EXIT_CODE\<rparr>)"

definition process_reachable :: "nat \<Rightarrow> bool \<Rightarrow> process \<Rightarrow> bool" where
  "process_reachable drain admin p \<longleftrightarrow> (process_step drain)\<^sup>*\<^sup>* (process_init admin) p"

section \<open>What start-up guarantees\<close>

lemma rmap_guard:
  "rmap (\<lambda>a. if ok a then Inr (f a) else Inl (e a)) xs =
     (case find (\<lambda>a. \<not> ok a) xs of None \<Rightarrow> Inr (map f xs) | Some a \<Rightarrow> Inl (e a))"
  by (induction xs) (auto split: option.split)

text \<open>A failed bind names the first address that could not be bound, UDP before TCP.\<close>

lemma bind_dns_cases:
  "bind_dns os cfg =
     (case find (\<lambda>a. \<not> bind_udp os a) (cfg_udp cfg) of
        Some a \<Rightarrow> Inl (Bind_Udp a)
      | None \<Rightarrow>
          (case find (\<lambda>a. \<not> bind_tcp os a) (cfg_tcp cfg) of
             Some a \<Rightarrow> Inl (Bind_Tcp a)
           | None \<Rightarrow> Inr (map Udp_Socket (cfg_udp cfg) @
               map (\<lambda>a. Tcp_Listener a (cfg_tcp_timeout cfg) (cfg_tcp_response_buffer cfg)) (cfg_tcp cfg))))"
  by (simp add: bind_dns_def rmap_guard split: option.split)

lemma map_sum_eq_Inr: "map_sum f g r = Inr x \<longleftrightarrow> (\<exists>y. r = Inr y \<and> x = g y)"
  by (cases r) auto

text \<open>A process that calls itself ready has every listener of its configuration.\<close>

lemma start_up_ready:
  assumes "start_up E iter seed hash now os cfg = Inr (h, ls, adm)"
  shows "boot E iter seed hash now cfg = Inr h \<and> adm = cfg_admin_listen cfg \<and>
    ls = map Udp_Socket (cfg_udp cfg) @ map (\<lambda>a. Tcp_Listener a (cfg_tcp_timeout cfg) (cfg_tcp_response_buffer cfg)) (cfg_tcp cfg) \<and>
    (\<forall>a \<in> set (cfg_udp cfg). bind_udp os a) \<and> (\<forall>a \<in> set (cfg_tcp cfg). bind_tcp os a)"
  using assms by (auto simp: start_up_def rbind_eq_Inr bind_dns_cases bind_admin_def find_None_iff map_sum_eq_Inr
      split: option.splits if_splits)

section \<open>The invariant of the process\<close>

text \<open>What an exit code of the main task says of the state it leaves.\<close>

definition exit_facts :: "nat \<Rightarrow> server \<Rightarrow> bool" where
  "exit_facts c s \<longleftrightarrow>
     c = 0 \<and> tokens s = (Closing, True, True, True) \<and> lc_deadline (sv_life s) \<noteq> None \<or>
     c = 1 \<and> \<not> sv_drain_start s \<and> \<not> sv_dns_cancelled s \<and> lc_deadline (sv_life s) = None \<or>
     c = OVERRUN_EXIT_CODE \<and> (\<exists>at. lc_deadline (sv_life s) = Some at \<and> at \<le> sv_now s)"

lemma no_signal_yet:
  "serve_inv drain s \<Longrightarrow> sv_stage s = Booting \<or> sv_stage s = Steady \<Longrightarrow>
     lc_deadline (sv_life s) = None \<and> \<not> sv_drain_start s \<and> \<not> sv_dns_cancelled s"
proof -
  assume inv: "serve_inv drain s" and st: "sv_stage s = Booting \<or> sv_stage s = Steady"
  have "wait_ok s" using inv by (simp add: serve_inv_def)
  then show ?thesis using st serve_inv_view [OF inv] by (auto simp: wait_ok_def)
qed

lemma signal_taken: "serve_inv drain s \<Longrightarrow> stopping s \<Longrightarrow> lc_deadline (sv_life s) \<noteq> None"
  by (simp add: serve_inv_def signal_ok_def)

lemma exit_facts_step:
  assumes "serve_step drain s s'" "serve_inv drain s" "sv_stage s' = Exited c"
  shows "exit_facts c s'"
  using assms
proof (induction rule: serve_step.induct)
  case (bind_failure s)
  then show ?case using no_signal_yet [OF bind_failure(2)] by (simp add: exit_facts_def)
next
  case (listeners_died s)
  then show ?case using no_signal_yet [OF listeners_died(2)] by (simp add: exit_facts_def)
next
  case (close_admin s)
  then show ?case using serve_inv_view [OF close_admin(2)] signal_taken [OF close_admin(2)]
    by (auto simp: exit_facts_def tokens_def stopping_def split: if_splits)
next
  case (admin_joined s u)
  then show ?case using serve_inv_view [OF admin_joined(2)] signal_taken [OF admin_joined(2)]
    by (auto simp: exit_facts_def tokens_def stopping_def)
next
  case (overrun s at)
  then show ?case by (simp add: exit_facts_def)
qed (simp_all add: running_def)

lemma deadline_step:
  assumes "serve_step drain s s'" "serve_inv drain s"
  shows "if sv_stage s = Steady \<and> sv_stage s' = Armed
    then lc_deadline (sv_life s') = Some (sv_signalled_at s' + sv_window s' + STOP_BUDGET) \<and> sv_signalled_at s' = sv_now s' \<and> sv_window s' \<le> drain
    else lc_deadline (sv_life s') = lc_deadline (sv_life s) \<and> sv_signalled_at s' = sv_signalled_at s \<and> sv_window s' = sv_window s"
  using assms(1) no_signal_yet [OF assms(2)] drain_window_le
  by (induction rule: serve_step.induct) (simp_all add: arm_deadline_def)

definition process_inv :: "nat \<Rightarrow> process \<Rightarrow> bool" where
  "process_inv drain p \<longleftrightarrow> serve_inv drain (pr_server p) \<and>
     (case lc_deadline (sv_life (pr_server p)) of
        None \<Rightarrow> pr_watchdog p = None
      | Some at \<Rightarrow> pr_watchdog p = Some (at + WATCHDOG_GRACE) \<and> sv_window (pr_server p) \<le> drain \<and>
          at = sv_signalled_at (pr_server p) + sv_window (pr_server p) + STOP_BUDGET) \<and>
     asleep (pr_watchdog p) (sv_now (pr_server p)) \<and>
     (\<forall>c. sv_stage (pr_server p) = Exited c \<longrightarrow> exit_facts c (pr_server p)) \<and>
     (\<forall>c. pr_exit p = Some c \<longrightarrow> exit_facts c (pr_server p))"

lemma process_inv_step: "process_step drain p p' \<Longrightarrow> process_inv drain p \<Longrightarrow> process_inv drain p'"
proof (induction rule: process_step.induct)
  case (main p s')
  have inv: "serve_inv drain (pr_server p)" using main(4) by (simp add: process_inv_def)
  show ?case
    using main(1,3,4) serve_inv_step [OF main(2) inv] exit_facts_step [OF main(2) inv] deadline_step [OF main(2) inv]
    by (auto simp: process_inv_def arm_watchdog_def asleep_def split: if_splits option.splits)
next
  case (linger p c d)
  let ?s = "pr_server p"
  have "serve_inv drain (around (sv_now ?s + d) (sv_sigs ?s) (sv_in_flight_now ?s) ?s)"
    using linger(4) by (intro serve_inv_around) (simp_all add: process_inv_def serve_inv_def)
  then show ?case using linger
    by (auto simp: process_inv_def around_def exit_facts_def tokens_def split: option.splits)
next
  case (leave p c)
  then show ?case by (simp add: process_inv_def split: option.splits)
next
  case (bark p at)
  then show ?case by (auto simp: process_inv_def exit_facts_def split: option.splits)
qed

lemma process_inv_init: "process_inv drain (process_init admin)"
  using serve_inv_init [of drain admin]
  by (simp add: process_inv_def process_init_def asleep_def) (simp add: server_init_def lifecycle_new_def)

lemma process_reachable_inv: "process_reachable drain admin p \<Longrightarrow> process_inv drain p"
  unfolding process_reachable_def by (induction rule: rtranclp_induct) (auto intro: process_inv_init process_inv_step)

section \<open>What the process promises\<close>

lemma plan_watchdog: "1000 * sp_watchdog (log_shutdown_plan cfg) = 1000 * cfg_shutdown_drain cfg + STOP_BUDGET + WATCHDOG_GRACE"
  by (simp add: log_shutdown_plan_def shutdown_consts Let_def)

text \<open>With the main task standing still, time passes up to the alarm and the watchdog ends the process.\<close>

lemma wedged_until_alarm:
  assumes "pr_exit p = None" "pr_watchdog p = Some at" "sv_now (pr_server p) \<le> at"
  shows "(process_step drain)\<^sup>*\<^sup>* p (p\<lparr>pr_server := (pr_server p)\<lparr>sv_now := at\<rparr>, pr_exit := Some OVERRUN_EXIT_CODE\<rparr>)"
proof -
  obtain s where p: "p = \<lparr>pr_server = s, pr_watchdog = Some at, pr_exit = None\<rparr>" using assms(1,2) by (cases p) auto
  let ?q = "\<lparr>pr_server = s\<lparr>sv_now := at\<rparr>, pr_watchdog = Some at, pr_exit = None\<rparr>"
  have at: "sv_now s + (at - sv_now s) = at" using assms(3) by (simp add: p)
  have "process_step drain p ?q"
  proof (cases "running s")
    case True
    have "arm_watchdog s (s\<lparr>sv_now := at\<rparr>) w = w" for w by (auto simp: arm_watchdog_def)
    then show ?thesis
      using process_step.main [of p drain "s\<lparr>sv_now := at\<rparr>"] serve_step.tick [OF True, of drain "at - sv_now s"] at
      by (simp add: p asleep_def)
  next
    case False
    then obtain c where "sv_stage s = Exited c" by (auto simp: running_def)
    then show ?thesis using process_step.linger [of p c "at - sv_now s" drain] at by (simp add: p asleep_def)
  qed
  moreover have "process_step drain ?q (?q\<lparr>pr_exit := Some OVERRUN_EXIT_CODE\<rparr>)"
    using process_step.bark [of ?q at drain] by simp
  ultimately show ?thesis by (simp add: p rtranclp.rtrancl_into_rtrancl)
qed

text \<open>C21: once the main task has taken a shutdown signal, the process is gone within the time announced at start-up,
  whatever else happens. No reachable state is later than that, and from any state that is still alive the
  watchdog ends the process by then even if the main task never takes another step, or has returned and
  something keeps the runtime from going away.\<close>

theorem death_guaranteed:
  assumes "process_reachable (1000 * cfg_shutdown_drain cfg) admin p" "lc_deadline (sv_life (pr_server p)) \<noteq> None"
  shows "sv_now (pr_server p) \<le> sv_signalled_at (pr_server p) + 1000 * sp_watchdog (log_shutdown_plan cfg) \<and>
    (pr_exit p = None \<longrightarrow> (\<exists>t \<le> sv_signalled_at (pr_server p) + 1000 * sp_watchdog (log_shutdown_plan cfg).
       (process_step (1000 * cfg_shutdown_drain cfg))\<^sup>*\<^sup>* p
         (p\<lparr>pr_server := (pr_server p)\<lparr>sv_now := t\<rparr>, pr_exit := Some OVERRUN_EXIT_CODE\<rparr>)))"
proof -
  let ?s = "pr_server p"
  define at where "at = sv_signalled_at ?s + sv_window ?s + STOP_BUDGET + WATCHDOG_GRACE"
  have w: "pr_watchdog p = Some at" "sv_window ?s \<le> 1000 * cfg_shutdown_drain cfg" "sv_now ?s \<le> at"
    using process_reachable_inv [OF assms(1)] assms(2) by (auto simp: process_inv_def at_def asleep_def split: option.splits)
  have "at \<le> sv_signalled_at ?s + 1000 * sp_watchdog (log_shutdown_plan cfg)" unfolding plan_watchdog using w(2) by (simp add: at_def)
  then show ?thesis using w wedged_until_alarm [OF _ w(1,3)] by auto
qed


section \<open>Runs\<close>

text \<open>Every run of the main task that a watchdog does not cut short is a run of the process.\<close>

lemma process_main:
  assumes "process_reachable drain admin p" "pr_exit p = None" "serve_step drain (pr_server p) s'" "asleep (pr_watchdog p) (sv_now s')"
  shows "process_reachable drain admin (p\<lparr>pr_server := s', pr_watchdog := arm_watchdog (pr_server p) s' (pr_watchdog p)\<rparr>)"
  using assms(1) process_step.main [OF assms(2-4)] unfolding process_reachable_def by (rule rtranclp.rtrancl_into_rtrancl)

definition demo_process :: process where
  "demo_process = \<lparr>pr_server = demo_terminated\<lparr>sv_window := 5000, sv_life := arm_deadline 10000 (publish Serving lifecycle_new), sv_stage := Armed\<rparr>,
     pr_watchdog = Some 12000, pr_exit = None\<rparr>"

lemma demo_process_reachable: "process_reachable 5000 False demo_process"
proof -
  let ?s1 = "(server_init False)\<lparr>sv_sigs := listen SIGTERM watch\<rparr>"
  have r0: "process_reachable 5000 False (process_init False)" by (simp add: process_reachable_def)
  have st1: "serve_step 5000 (server_init False) ?s1"
    using serve_step.signal [of "server_init False" 5000 SIGTERM] by (simp add: server_init_def running_def)
  have st2: "serve_step 5000 ?s1 demo_terminated"
    using serve_step.ready [of ?s1 5000] by (simp add: server_init_def demo_terminated_def)
  have st3: "serve_step 5000 demo_terminated (pr_server demo_process)"
    using serve_step.first [of demo_terminated Cause_Term 5000] demo_signals
    by (simp add: demo_terminated_def demo_process_def server_init_def STOP_BUDGET_def)
  have r1: "process_reachable 5000 False ((process_init False)\<lparr>pr_server := ?s1\<rparr>)"
    using process_main [OF r0, of ?s1] st1 by (simp add: process_init_def asleep_def arm_watchdog_def server_init_def)
  have r2: "process_reachable 5000 False ((process_init False)\<lparr>pr_server := demo_terminated\<rparr>)"
    using process_main [OF r1, of demo_terminated] st2 by (simp add: process_init_def asleep_def arm_watchdog_def demo_terminated_def)
  show ?thesis
    using process_main [OF r2, of "pr_server demo_process"] st3
    by (simp add: process_init_def asleep_def arm_watchdog_def demo_terminated_def demo_process_def server_init_def shutdown_consts)
qed

definition demo_drain_config :: config where
  "demo_drain_config = \<lparr>cfg_source = None, cfg_udp = [], cfg_tcp = [], cfg_admin_listen = None, cfg_tcp_timeout = 10,
     cfg_shutdown_drain = 5, cfg_tcp_response_buffer = 0,
     cfg_zone = \<lparr>zc_origin = ''ex'', zc_default_ttl = 60, zc_builtins = False, zc_soa = None, zc_records = []\<rparr>,
     cfg_rate_limit = None, cfg_log_format = Pretty, cfg_log_level = DEFAULT_LOG_FILTER, cfg_admin_token = None\<rparr>"

theorem death_guaranteed_witness:
  "sp_watchdog (log_shutdown_plan demo_drain_config) = 12 \<and> (\<exists>t \<le> 12000. (process_step 5000)\<^sup>*\<^sup>* demo_process
     (demo_process\<lparr>pr_server := (pr_server demo_process)\<lparr>sv_now := t\<rparr>, pr_exit := Some 3\<rparr>))"
proof -
  have plan: "sp_watchdog (log_shutdown_plan demo_drain_config) = 12"
    by (simp add: log_shutdown_plan_def demo_drain_config_def shutdown_consts Let_def)
  have "lc_deadline (sv_life (pr_server demo_process)) \<noteq> None" by (simp add: demo_process_def arm_deadline_def split: option.split)
  moreover have "pr_exit demo_process = None" "sv_signalled_at (pr_server demo_process) = 0"
    by (simp_all add: demo_process_def demo_terminated_def server_init_def)
  moreover have "process_reachable (1000 * cfg_shutdown_drain demo_drain_config) False demo_process" "1000 * cfg_shutdown_drain demo_drain_config = 5000"
    using demo_process_reachable by (simp_all add: demo_drain_config_def)
  ultimately show ?thesis
    using death_guaranteed [of demo_drain_config False demo_process] plan by (simp add: OVERRUN_EXIT_CODE_def)
qed






end
