(* ===== verification/Client.thy ===== *)
theory Client
  imports Admin Config
begin

text \<open>
  The clients of the tools: the HTTP exchange of \<^verbatim>\<open>src/http.rs\<close> with the probe of \<^verbatim>\<open>src/healthcheck.rs\<close> and the
  \<^verbatim>\<open>status\<close> and \<^verbatim>\<open>reload\<close> of \<^verbatim>\<open>src/commands/\<close> on top of it, and the DNS exchange of \<^verbatim>\<open>src/dnsclient.rs\<close>. What a
  socket gives back, or that it gives nothing in time, is an argument, as are the codec of DNS messages
  and the parsers of addresses. Response text is ASCII or replaced by it.
\<close>

section \<open>Strings\<close>

definition CR :: char where "CR = CHR 0x0D"
definition LF :: char where "LF = CHR 0x0A"
definition CRLF :: string where "CRLF = [CR, LF]"

fun split_once :: "string \<Rightarrow> string \<Rightarrow> (string \<times> string) option" where
  "split_once pat s =
     (if prefix pat s then Some ([], drop (length pat) s)
      else case s of [] \<Rightarrow> None | c # cs \<Rightarrow> map_option (apfst ((#) c)) (split_once pat cs))"

declare split_once.simps [simp del]

definition rsplit_once :: "char \<Rightarrow> string \<Rightarrow> (string \<times> string) option" where
  "rsplit_once c s = map_option (\<lambda>(a, b). (rev b, rev a)) (split_once [c] (rev s))"

text \<open>The first line of a text, without its line feed or carriage return and line feed.\<close>

definition first_line :: "string \<Rightarrow> string option" where
  "first_line s =
     (if s = [] then None
      else let l = takeWhile (\<lambda>c. c \<noteq> LF) s in
        Some (if l \<noteq> [] \<and> last l = CR \<and> length l < length s then butlast l else l))"

function lines :: "string \<Rightarrow> string list" where
  "lines s = (case first_line s of None \<Rightarrow> [] | Some l \<Rightarrow> l # lines (drop 1 (dropWhile (\<lambda>c. c \<noteq> LF) s)))"
  by pat_completeness auto

termination lines
proof (relation "measure length")
  fix s l assume "first_line s = Some l"
  then have "s \<noteq> []" by (auto simp: first_line_def)
  then have "length (dropWhile (\<lambda>c. c \<noteq> LF) s) - 1 < length s" using length_dropWhile_le [of "\<lambda>c. c \<noteq> LF" s] by (cases s) auto
  then show "(drop 1 (dropWhile (\<lambda>c. c \<noteq> LF) s), s) \<in> measure length" by simp
qed simp

declare lines.simps [simp del]

fun words :: "string \<Rightarrow> string \<Rightarrow> string list" where
  "words acc [] = (if acc = [] then [] else [rev acc])"
| "words acc (c # cs) = (if is_whitespace c then (if acc = [] then words [] cs else rev acc # words [] cs) else words (c # acc) cs)"

definition split_whitespace :: "string \<Rightarrow> string list" where
  "split_whitespace s = words [] s"

definition digit_value :: "char \<Rightarrow> nat option" where
  "digit_value c = (if 48 \<le> (of_char c :: nat) \<and> (of_char c :: nat) \<le> 57 then Some (of_char c - 48) else None)"

fun parse_digits :: "nat \<Rightarrow> string \<Rightarrow> nat option" where
  "parse_digits n [] = Some n"
| "parse_digits n (c # cs) = Option.bind (digit_value c) (\<lambda>d. parse_digits (10 * n + d) cs)"

definition parse_u16 :: "string \<Rightarrow> nat option" where
  "parse_u16 s =
     (let s = (case s of c # cs \<Rightarrow> if c = CHR ''+'' then cs else s | [] \<Rightarrow> s) in
      if s = [] then None else Option.bind (parse_digits 0 s) (\<lambda>n. if n < 65536 then Some n else None))"

section \<open>HTTP\<close>

datatype http_error = NotConnected | TimedOut | NoStatusLine | BadStatus string | Unhealthy nat

record response =
  rs_status :: nat
  rs_body :: string

definition is_success :: "response \<Rightarrow> bool" where
  "is_success r \<longleftrightarrow> 200 \<le> rs_status r \<and> rs_status r < 300"

definition request_head :: "string \<Rightarrow> string \<Rightarrow> string \<Rightarrow> string \<Rightarrow> string option \<Rightarrow> string" where
  "request_head agent verb path addr token =
     verb @ '' '' @ path @ '' HTTP/1.0'' @ CRLF @ ''Host: '' @ addr @ CRLF @ ''User-Agent: '' @ agent @ CRLF @
     (case token of None \<Rightarrow> [] | Some t \<Rightarrow> ''Authorization: Bearer '' @ t @ CRLF) @
     ''Content-Length: 0'' @ CRLF @ ''Connection: close'' @ CRLF @ CRLF"

definition parse :: "string \<Rightarrow> http_error + response" where
  "parse text =
     (let (head, body) = unwrap_or (text, []) (opt_or (split_once (CRLF @ CRLF) text) (split_once [LF, LF] text)) in
      rbind (ok_or NoStatusLine (first_line head)) (\<lambda>status_line.
      let second = (case split_whitespace status_line of _ # code # _ \<Rightarrow> Some code | _ \<Rightarrow> None) in
      rbind (ok_or (BadStatus status_line) (Option.bind second parse_u16)) (\<lambda>status.
      Inr \<lparr>rs_status = status, rs_body = body\<rparr>)))"

definition MAX_BODY :: nat where "MAX_BODY = 1048576"

text \<open>One exchange: nothing came back in time, or the octets read up to the cap.\<close>

definition request :: "string option \<Rightarrow> http_error + response" where
  "request answer = rbind (ok_or TimedOut answer) (\<lambda>raw. parse (take MAX_BODY raw))"

definition probe :: "string option \<Rightarrow> http_error + unit" where
  "probe answer = rbind (request answer) (\<lambda>r. if is_success r then Inr () else Inl (Unhealthy (rs_status r)))"

definition reload_server :: "string option \<Rightarrow> http_error + bool" where
  "reload_server answer = rbind (request answer) (\<lambda>r. Inr (is_success r))"

record ('j, 'f) snapshot =
  sn_reachable :: bool
  sn_healthy :: bool
  sn_ready :: bool
  sn_build :: 'j
  sn_samples :: "string \<rightharpoonup> 'f"
  sn_error :: "http_error option"

definition is_ok_and :: "'e + 'a \<Rightarrow> ('a \<Rightarrow> bool) \<Rightarrow> bool" where
  "is_ok_and r p = (case r of Inl _ \<Rightarrow> False | Inr a \<Rightarrow> p a)"

definition parse_line :: "(string \<Rightarrow> 'f option) \<Rightarrow> string \<Rightarrow> (string \<times> 'f) option" where
  "parse_line parse_f64 l =
     (let l = trim l in
      if l = [] then None
      else Option.bind (rsplit_once (CHR '' '') l) (\<lambda>(key, v). map_option (Pair (trim key)) (parse_f64 (trim v))))"

definition parse_prometheus :: "(string \<Rightarrow> 'f option) \<Rightarrow> string \<Rightarrow> (string \<rightharpoonup> 'f)" where
  "parse_prometheus parse_f64 body =
     fold (\<lambda>(k, v) samples. samples(k \<mapsto> v))
       (List.map_filter (parse_line parse_f64) (filter (\<lambda>l. \<not> prefix ''#'' l) (lines body))) Map.empty"

text \<open>The JSON parser, with the empty object it falls back to, and the parser of floating-point numbers are
  arguments.\<close>

definition fetch :: "(string \<Rightarrow> 'j option) \<Rightarrow> 'j \<Rightarrow> (string \<Rightarrow> 'f option) \<Rightarrow> (string \<Rightarrow> string option) \<Rightarrow> ('j, 'f) snapshot" where
  "fetch json no_json parse_f64 ask =
     (let health = request (ask ''/healthz''); ready = request (ask ''/readyz'');
          version = request (ask ''/version''); metrics = request (ask ''/metrics'')
      in \<lparr>sn_reachable = is_ok_and health (\<lambda>_. True), sn_healthy = is_ok_and health is_success, sn_ready = is_ok_and ready is_success,
          sn_build = (case version of Inr r \<Rightarrow> unwrap_or no_json (json (trim (rs_body r))) | Inl _ \<Rightarrow> no_json),
          sn_samples = (case metrics of Inr r \<Rightarrow> parse_prometheus parse_f64 (rs_body r) | Inl _ \<Rightarrow> Map.empty),
          sn_error = (case health of Inl e \<Rightarrow> Some e | Inr _ \<Rightarrow> None)\<rparr>)"

definition status_command :: "(string \<Rightarrow> 'j option) \<Rightarrow> 'j \<Rightarrow> (string \<Rightarrow> 'f option) \<Rightarrow> (string \<Rightarrow> string option) \<Rightarrow> bool" where
  "status_command json no_json parse_f64 ask =
     (let s = fetch json no_json parse_f64 ask in
      case sn_error s of Some _ \<Rightarrow> False | None \<Rightarrow> sn_healthy s \<and> sn_ready s)"

section \<open>Reading what a server writes\<close>

fun show_nat :: "nat \<Rightarrow> string" where
  "show_nat n = (if n < 10 then [char_of (48 + n)] else show_nat (n div 10) @ [char_of (48 + n mod 10)])"

declare show_nat.simps [simp del]

definition response_text :: "string \<Rightarrow> nat \<Rightarrow> string \<Rightarrow> string list \<Rightarrow> string \<Rightarrow> string" where
  "response_text proto status reason headers body =
     proto @ '' '' @ show_nat status @ '' '' @ reason @ CRLF @ concat (map (\<lambda>h. h @ CRLF) headers) @ CRLF @ body"

definition plain_line :: "string \<Rightarrow> bool" where
  "plain_line l \<longleftrightarrow> CR \<notin> set l \<and> LF \<notin> set l"

lemma line_ends_distinct [simp]: "CR \<noteq> LF" "LF \<noteq> CR"
  by (simp_all add: CR_def LF_def)

lemma split_once_skip: "c \<noteq> CR \<Longrightarrow> split_once (CR # p) (c # cs) = map_option (apfst ((#) c)) (split_once (CR # p) cs)"
  by (subst split_once.simps) simp

lemma split_once_line:
  "CR \<notin> set l \<Longrightarrow> split_once (CR # p) (l @ s) = map_option (apfst ((@) l)) (split_once (CR # p) s)"
proof (induction l)
  case Nil
  show ?case by (cases "split_once (CR # p) s") auto
next
  case (Cons c l)
  then show ?case by (cases "split_once (CR # p) s") (auto simp: split_once_skip)
qed

lemma split_once_line_end:
  assumes "s \<noteq> []" "hd s \<noteq> CR"
  shows "split_once (CRLF @ CRLF) (CRLF @ s) = map_option (apfst ((@) CRLF)) (split_once (CRLF @ CRLF) s)"
proof -
  obtain c cs where s: "s = c # cs" "c \<noteq> CR" using assms by (cases s) auto
  then have "split_once [CR, LF, CR, LF] (CR # LF # s) = map_option (apfst ((#) CR)) (split_once [CR, LF, CR, LF] (LF # s))"
    by (subst split_once.simps) simp
  also have "split_once [CR, LF, CR, LF] (LF # s) = map_option (apfst ((#) LF)) (split_once [CR, LF, CR, LF] s)"
    by (rule split_once_skip) simp
  finally show ?thesis by (cases "split_once [CR, LF, CR, LF] s") (auto simp: CRLF_def)
qed

lemma split_once_headers:
  assumes "\<forall>h \<in> set headers. h \<noteq> [] \<and> CR \<notin> set h"
  shows "split_once (CRLF @ CRLF) (CRLF @ concat (map (\<lambda>h. h @ CRLF) headers) @ CRLF @ body) =
    Some (concat (map (\<lambda>h. CRLF @ h) headers), body)"
  using assms
proof (induction headers)
  case Nil
  show ?case by (subst split_once.simps) (simp add: CRLF_def)
next
  case (Cons h hs)
  let ?rest = "CRLF @ concat (map (\<lambda>h. h @ CRLF) hs) @ CRLF @ body"
  have h: "h \<noteq> []" "CR \<notin> set h" using Cons.prems by auto
  then have "hd (h @ ?rest) \<noteq> CR" by (cases h) auto
  then have "split_once (CRLF @ CRLF) (CRLF @ h @ ?rest) =
      map_option (apfst ((@) CRLF)) (split_once (CRLF @ CRLF) (h @ ?rest))" using h by (intro split_once_line_end) auto
  also have "split_once (CRLF @ CRLF) (h @ ?rest) = map_option (apfst ((@) h)) (split_once (CRLF @ CRLF) ?rest)"
    using split_once_line [OF h(2), of "[LF, CR, LF]"] by (simp add: CRLF_def)
  finally show ?case using Cons by simp
qed

lemma parse_digits_append:
  "parse_digits n (a @ b) = Option.bind (parse_digits n a) (\<lambda>m. parse_digits m b)"
  by (induction a arbitrary: n) (simp_all add: bind_assoc)

lemma digit_value_char: "d < 10 \<Longrightarrow> digit_value (char_of (48 + d)) = Some d"
  by (simp add: digit_value_def)

lemma parse_show_nat: "parse_digits 0 (show_nat n) = Some n"
proof (induction n rule: show_nat.induct)
  case (1 n)
  show ?case
  proof (cases "n < 10")
    case True
    then show ?thesis by (simp add: show_nat.simps [of n] digit_value_char)
  next
    case False
    then have "parse_digits 0 (show_nat n) = parse_digits (n div 10) [char_of (48 + n mod 10)]"
      using 1 by (simp add: show_nat.simps [of n] parse_digits_append)
    also have "\<dots> = Some (10 * (n div 10) + n mod 10)" using digit_value_char [of "n mod 10"] by simp
    finally show ?thesis by simp
  qed
qed

lemma show_nat_digits: "show_nat n \<noteq> [] \<and> (\<forall>c \<in> set (show_nat n). 48 \<le> (of_char c :: nat) \<and> (of_char c :: nat) \<le> 57)"
proof (induction n rule: show_nat.induct)
  case (1 n)
  then show ?case by (cases "n < 10") (auto simp: show_nat.simps [of n])
qed

lemma show_nat_plain:
  "\<forall>c \<in> set (show_nat n). \<not> is_whitespace c \<and> c \<noteq> CR \<and> c \<noteq> LF \<and> c \<noteq> CHR ''+''"
proof
  fix c assume "c \<in> set (show_nat n)"
  then have "48 \<le> (of_char c :: nat)" "(of_char c :: nat) \<le> 57" using show_nat_digits by blast+
  then show "\<not> is_whitespace c \<and> c \<noteq> CR \<and> c \<noteq> LF \<and> c \<noteq> CHR ''+''" by (auto simp: is_whitespace_def CR_def LF_def)
qed

lemma parse_u16_show: "n < 65536 \<Longrightarrow> parse_u16 (show_nat n) = Some n"
  using show_nat_plain [of n] show_nat_digits [of n] parse_show_nat [of n]
  by (cases "show_nat n") (auto simp: parse_u16_def Let_def simp del: parse_digits.simps)

lemma words_word: "\<forall>c \<in> set w. \<not> is_whitespace c \<Longrightarrow> words acc (w @ s) = words (rev w @ acc) s"
  by (induction w arbitrary: acc) auto

lemma words_two:
  assumes "\<forall>c \<in> set p. \<not> is_whitespace c" "\<forall>c \<in> set w. \<not> is_whitespace c" "p \<noteq> []" "w \<noteq> []"
  shows "\<exists>rest. split_whitespace (p @ '' '' @ w @ '' '' @ s) = p # w # rest"
proof -
  have space: "is_whitespace (CHR '' '')" by (simp add: is_whitespace_def)
  show ?thesis using assms space by (simp add: split_whitespace_def words_word)
qed

lemma first_line_crlf:
  assumes "plain_line l"
  shows "first_line (l @ CRLF @ s) = Some l" and "l \<noteq> [] \<Longrightarrow> first_line l = Some l"
proof -
  have t: "takeWhile (\<lambda>c. c \<noteq> LF) (l @ CRLF @ s) = l @ [CR]"
    by (subst takeWhile_append2) (use assms in \<open>auto simp: plain_line_def CRLF_def\<close>)
  show "first_line (l @ CRLF @ s) = Some l" by (simp add: first_line_def t Let_def) (simp add: CRLF_def)
  have whole: "takeWhile (\<lambda>c. c \<noteq> LF) l = l" using assms by (auto simp: plain_line_def takeWhile_eq_all_conv)
  show "l \<noteq> [] \<Longrightarrow> first_line l = Some l" by (simp add: first_line_def Let_def whole)
qed

text \<open>The client reads any response a server writes. Whatever the status, the reason, the header lines and
  the body, line breaks and blank lines in the body included, the text of an HTTP response is parsed
  into exactly that status and that body.\<close>

lemma parse_response:
  assumes "plain_line proto" "proto \<noteq> []" "\<forall>c \<in> set proto. \<not> is_whitespace c" and "plain_line reason" and "status < 65536"
    and "\<forall>h \<in> set headers. h \<noteq> [] \<and> plain_line h"
  shows "parse (response_text proto status reason headers body) = Inr \<lparr>rs_status = status, rs_body = body\<rparr>"
proof -
  let ?line = "proto @ '' '' @ show_nat status @ '' '' @ reason"
  have line: "plain_line ?line" using assms(1,4) show_nat_plain [of status] by (auto simp: plain_line_def CR_def LF_def)
  have "response_text proto status reason headers body = ?line @ CRLF @ concat (map (\<lambda>h. h @ CRLF) headers) @ CRLF @ body"
    by (simp add: response_text_def)
  moreover have "split_once (CRLF @ CRLF) (?line @ CRLF @ concat (map (\<lambda>h. h @ CRLF) headers) @ CRLF @ body) =
      Some (?line @ concat (map (\<lambda>h. CRLF @ h) headers), body)"
    using split_once_line [of ?line "[LF, CR, LF]"] split_once_headers [of headers body] line assms(6)
    by (simp add: plain_line_def CRLF_def)
  moreover have "first_line (?line @ concat (map (\<lambda>h. CRLF @ h) headers)) = Some ?line"
  proof (cases headers)
    case Nil
    then show ?thesis using first_line_crlf(2) [OF line] by simp
  next
    case (Cons h hs)
    then show ?thesis using first_line_crlf(1) [OF line, of "h @ concat (map (\<lambda>h. CRLF @ h) hs)"] by simp
  qed
  moreover obtain rest where "split_whitespace ?line = proto # show_nat status # rest"
    using words_two [of proto "show_nat status" reason] assms(2,3) show_nat_plain [of status] show_nat_digits [of status] by auto
  ultimately show ?thesis using parse_u16_show [OF assms(5)]
    by (simp add: parse_def opt_or_def unwrap_or_def ok_or_def Let_def)
qed

section \<open>DNS\<close>

datatype client_error = BadName string | QueryTooLarge | NoAnswer | BadAnswer | NoServer | NotAnAddress string | NotAType string

datatype client_transport = Over_Udp | Over_Tcp

record 'm outcome =
  oc_message :: 'm
  oc_transport :: client_transport
  oc_size :: nat
  oc_retried_over_tcp :: bool

definition tcp_frame :: "u8 list \<Rightarrow> client_error + u8 list" where
  "tcp_frame wire =
     (if length wire < 65536 then Inr ([of_nat (length wire div 256), of_nat (length wire mod 256)] @ wire) else Inl QueryTooLarge)"

definition tcp_read :: "u8 list \<Rightarrow> client_error + u8 list" where
  "tcp_read stream = (case stream of
       hi # lo # rest \<Rightarrow>
         (let expected = 256 * unat hi + unat lo in if expected \<le> length rest then Inr (take expected rest) else Inl NoAnswer)
     | _ \<Rightarrow> Inl NoAnswer)"

definition ask_udp :: "(u8 list \<Rightarrow> 'm option) \<Rightarrow> (u8 list \<Rightarrow> u8 list option) \<Rightarrow> u8 list \<Rightarrow> client_error + ('m \<times> nat)" where
  "ask_udp from_vec exchange wire =
     rbind (ok_or NoAnswer (exchange wire)) (\<lambda>datagram.
     let buf = take 4096 datagram in
     rbind (ok_or BadAnswer (from_vec buf)) (\<lambda>m. Inr (m, length buf)))"

definition ask_tcp :: "(u8 list \<Rightarrow> 'm option) \<Rightarrow> (u8 list \<Rightarrow> u8 list option) \<Rightarrow> u8 list \<Rightarrow> client_error + ('m \<times> nat)" where
  "ask_tcp from_vec exchange wire =
     rbind (tcp_frame wire) (\<lambda>sent.
     rbind (ok_or NoAnswer (exchange sent)) (\<lambda>stream.
     rbind (tcp_read stream) (\<lambda>body.
     rbind (ok_or BadAnswer (from_vec body)) (\<lambda>m. Inr (m, length body)))))"

definition dns_query :: "(u8 list \<Rightarrow> 'm option) \<Rightarrow> ('m \<Rightarrow> bool) \<Rightarrow> (u8 list \<Rightarrow> u8 list option) \<Rightarrow> (u8 list \<Rightarrow> u8 list option)
    \<Rightarrow> u8 list \<Rightarrow> bool \<Rightarrow> client_error + 'm outcome" where
  "dns_query from_vec truncation udp tcp wire force_tcp =
     (if force_tcp then
        rbind (ask_tcp from_vec tcp wire) (\<lambda>(m, size).
        Inr \<lparr>oc_message = m, oc_transport = Over_Tcp, oc_size = size, oc_retried_over_tcp = False\<rparr>)
      else
        rbind (ask_udp from_vec udp wire) (\<lambda>(m, size).
        if truncation m then
          rbind (ask_tcp from_vec tcp wire) (\<lambda>(m, size).
          Inr \<lparr>oc_message = m, oc_transport = Over_Tcp, oc_size = size, oc_retried_over_tcp = True\<rparr>)
        else Inr \<lparr>oc_message = m, oc_transport = Over_Udp, oc_size = size, oc_retried_over_tcp = False\<rparr>))"

definition parse_server :: "(string \<Rightarrow> sock_addr option) \<Rightarrow> (string \<Rightarrow> ip_addr option) \<Rightarrow> string \<Rightarrow> client_error + sock_addr" where
  "parse_server parse_sock parse_ip input =
     (let trimmed = dropWhile (\<lambda>c. c = CHR ''@'') (trim input) in
      if trimmed = [] then Inl NoServer
      else case parse_sock trimmed of
        Some addr \<Rightarrow> Inr addr
      | None \<Rightarrow> (case parse_ip trimmed of Some ip \<Rightarrow> Inr (ip, 53) | None \<Rightarrow> Inl (NotAnAddress input)))"

text \<open>A framed message is read back whole, whatever follows it on the stream.\<close>

lemma tcp_frame_round_trip:
  assumes "tcp_frame wire = Inr sent"
  shows "tcp_read (sent @ rest) = Inr wire"
proof -
  have "length wire < 65536" and s: "sent = [of_nat (length wire div 256), of_nat (length wire mod 256)] @ wire"
    using assms by (auto simp: tcp_frame_def split: if_splits)
  then have "unat (of_nat (length wire div 256) :: u8) = length wire div 256" "unat (of_nat (length wire mod 256) :: u8) = length wire mod 256"
    by (simp_all add: unat_of_nat)
  then show ?thesis by (simp add: s tcp_read_def Let_def)
qed

text \<open>A truncated answer over UDP is never reported: the query is repeated over TCP.\<close>

lemma udp_answer_whole:
  "dns_query from_vec truncation udp tcp wire force_tcp = Inr oc \<Longrightarrow> oc_transport oc = Over_Udp \<Longrightarrow>
     \<not> force_tcp \<and> \<not> truncation (oc_message oc) \<and> \<not> oc_retried_over_tcp oc"
  by (auto simp: dns_query_def rbind_eq_Inr split: if_splits)

section \<open>The tools against the server\<close>

definition http_server :: "('d http_response \<Rightarrow> string) \<Rightarrow> bool" where
  "http_server wire \<longleftrightarrow> (\<forall>r. ht_status r < 1000 \<longrightarrow> (\<exists>proto reason headers body. plain_line proto \<and> proto \<noteq> [] \<and>
     (\<forall>c \<in> set proto. \<not> is_whitespace c) \<and> plain_line reason \<and> (\<forall>h \<in> set headers. h \<noteq> [] \<and> plain_line h) \<and>
     wire r = response_text proto (ht_status r) reason headers body \<and> length (wire r) \<le> MAX_BODY))"

lemma request_server:
  assumes "http_server wire" and "ht_status r < 1000"
  shows "\<exists>body. request (Some (wire r)) = Inr \<lparr>rs_status = ht_status r, rs_body = body\<rparr>"
proof -
  from assms obtain proto reason headers body where w: "plain_line proto" "proto \<noteq> []" "\<forall>c \<in> set proto. \<not> is_whitespace c"
    "plain_line reason" "\<forall>h \<in> set headers. h \<noteq> [] \<and> plain_line h"
    "wire r = response_text proto (ht_status r) reason headers body" "length (wire r) \<le> MAX_BODY"
    unfolding http_server_def by blast
  have "ht_status r < 65536" using assms(2) by simp
  from parse_response [OF w(1-4) this w(5)] w(6,7) show ?thesis by (simp add: request_def ok_or_def)
qed

lemma code_status_refuses: "400 \<le> code_status c \<and> code_status c < 1000"
  by (cases c) simp_all

definition endpoint_of :: "string \<Rightarrow> endpoint" where
  "endpoint_of path = (if path = ''/healthz'' then Get_healthz else if path = ''/readyz'' then Get_readyz
     else if path = ''/metrics'' then Get_metrics else if path = ''/version'' then Get_version else Fallback)"

lemma reload_endpoint_status:
  assumes "reload_endpoint peer authorization s ctx = (r, s', ctx')"
  shows "ht_status r < 1000 \<and> (ht_status r < 300 \<longleftrightarrow> (\<exists>hook out c. as_reload s = Some hook \<and>
      \<not> is_draining (as_lifecycle s) \<and> may_mutate s peer authorization \<and> hook ctx = (Some (Inr out), c))) \<and> 200 \<le> ht_status r"
proof -
  have "ht_status (refused_body e) < 1000 \<and> \<not> ht_status (refused_body e) < 300 \<and> 200 \<le> ht_status (refused_body e)" for e :: "'c reload_error"
    using code_status_refuses [of "re_code e"] by (simp add: refused_body_def reply_def)
  then show ?thesis
    using assms by (auto simp: reload_endpoint_def reply_def Let_def split: option.splits if_splits prod.splits sum.splits)
qed

definition auth_header :: "string option \<Rightarrow> string option" where
  "auth_header token = map_option (\<lambda>t. ''Bearer '' @ t) token"

text \<open>C34: what the tools report is what the server does. Over any HTTP transport the probe of a container
  succeeds in every phase, \<^verbatim>\<open>vega status\<close> succeeds exactly while the server is serving, and \<^verbatim>\<open>vega reload\<close>
  succeeds exactly when the server was not draining, the caller's token or address was accepted, and the
  reload itself went through.\<close>

theorem tools_report_the_server:
  fixes s :: "('c, 'd) admin_state"
  assumes "http_server wire"
  shows "let answer = (\<lambda>ep. Some (wire (fst (router ver seconds now limiter ep peer (auth_header token) s ctx)))) in
     probe (answer (endpoint_of ''/healthz'')) = Inr () \<and>
     (status_command json no_json parse_f64 (\<lambda>path. answer (endpoint_of path)) \<longleftrightarrow> phase_of (as_lifecycle s) = Serving) \<and>
     (reload_server (answer Post_reload) = Inr True \<longleftrightarrow> (\<exists>hook out c. as_reload s = Some hook \<and>
        \<not> is_draining (as_lifecycle s) \<and> may_mutate s peer (auth_header token) \<and> hook ctx = (Some (Inr out), c)))"
proof -
  define answer where "answer ep = fst (router ver seconds now limiter ep peer (auth_header token) s ctx)" for ep
  obtain r s' ctx' where r: "reload_endpoint peer (auth_header token) s ctx = (r, s', ctx')" by (metis surj_pair)
  have st: "ht_status (answer Get_healthz) = 200" "ht_status (answer Post_reload) = ht_status r"
    "ht_status (answer Get_readyz) = (if phase_of (as_lifecycle s) = Serving then 200 else 503)"
    using r by (simp_all add: answer_def router_def phase_header_def healthz_def readyz_def reply_def split: phase.split)
  note rel = reload_endpoint_status [OF r]
  have ok: "ht_status (answer ep) < 1000 \<Longrightarrow> \<exists>body. request (Some (wire (answer ep))) = Inr \<lparr>rs_status = ht_status (answer ep), rs_body = body\<rparr>" for ep
    by (rule request_server [OF assms])
  have ep: "endpoint_of ''/healthz'' = Get_healthz" "endpoint_of ''/readyz'' = Get_readyz" by (simp_all add: endpoint_of_def)
  have small: "200 < (1000 :: nat)" "(if phase_of (as_lifecycle s) = Serving then 200 else 503) < (1000 :: nat)" by simp_all
  obtain b1 b2 b3 where req: "request (Some (wire (answer Get_healthz))) = Inr \<lparr>rs_status = 200, rs_body = b1\<rparr>"
    "request (Some (wire (answer Get_readyz))) = Inr \<lparr>rs_status = (if phase_of (as_lifecycle s) = Serving then 200 else 503), rs_body = b2\<rparr>"
    "request (Some (wire (answer Post_reload))) = Inr \<lparr>rs_status = ht_status r, rs_body = b3\<rparr>"
    using ok [of Get_healthz] ok [of Get_readyz] ok [of Post_reload] rel small unfolding st by blast
  show ?thesis
    unfolding Let_def answer_def [symmetric] ep reload_server_def probe_def status_command_def fetch_def
    using req rel by (auto simp: is_ok_and_def is_success_def ep split: if_splits)
qed

lemma length_show_nat: "length (show_nat n) \<le> n + 1"
proof (induction n rule: show_nat.induct)
  case (1 n)
  show ?case
  proof (cases "n < 10")
    case False
    then have "length (show_nat n) = length (show_nat (n div 10)) + 1" by (simp add: show_nat.simps [of n])
    then show ?thesis using 1 False by simp
  qed (simp add: show_nat.simps [of n])
qed

definition demo_wire :: "'d http_response \<Rightarrow> string" where
  "demo_wire r = response_text ''HTTP/1.0'' (ht_status r) ''x'' [] []"

lemma demo_wire_ok: "http_server demo_wire"
proof -
  have "length (demo_wire r) \<le> MAX_BODY" if "ht_status r < 1000" for r :: "'a http_response"
    using length_show_nat [of "ht_status r"] that by (simp add: demo_wire_def response_text_def MAX_BODY_def CRLF_def)
  moreover have "plain_line ''HTTP/1.0''" "plain_line ''x''" "\<forall>c \<in> set ''HTTP/1.0''. \<not> is_whitespace c"
    by (simp_all add: plain_line_def CR_def LF_def is_whitespace_def)
  ultimately show ?thesis unfolding http_server_def by (metis demo_wire_def empty_iff list.distinct(1) list.set(1))
qed

theorem tools_report_the_server_witness:
  "probe (Some (demo_wire (fst (router [] (\<lambda>_. []) 0 None Get_healthz (V4 0) None demo_draining ())))) = Inr ()"
  using tools_report_the_server [OF demo_wire_ok, of "[]" "\<lambda>_. []" 0 None "V4 0" None demo_draining "()"
    "\<lambda>_. None :: unit option" "()" "\<lambda>_. None :: unit option"]
  by (simp add: Let_def endpoint_of_def auth_header_def)

section \<open>Scraped samples\<close>

text \<open>A line of the exposition: a key that starts and ends with a visible character and is not a comment, a
  space, and a number without white space.\<close>

definition sample_line :: "string \<Rightarrow> string \<Rightarrow> bool" where
  "sample_line key num \<longleftrightarrow> plain_line key \<and> key \<noteq> [] \<and> \<not> is_whitespace (hd key) \<and> \<not> is_whitespace (last key) \<and>
     hd key \<noteq> CHR ''#'' \<and> num \<noteq> [] \<and> (\<forall>c \<in> set num. \<not> is_whitespace c)"

lemma trim_id: "s \<noteq> [] \<Longrightarrow> \<not> is_whitespace (hd s) \<Longrightarrow> \<not> is_whitespace (last s) \<Longrightarrow> trim s = s"
proof -
  assume "s \<noteq> []" "\<not> is_whitespace (hd s)" "\<not> is_whitespace (last s)"
  moreover have "dropWhile is_whitespace t = t" if "t \<noteq> []" "\<not> is_whitespace (hd t)" for t using that by (cases t) auto
  ultimately show "trim s = s" by (simp add: trim_def trim_start_def hd_rev)
qed

lemma split_once_at: "c \<notin> set l \<Longrightarrow> split_once [c] (l @ c # s) = Some (l, s)"
proof (induction l)
  case Nil
  show ?case by (subst split_once.simps) simp
next
  case (Cons a l)
  then show ?case by (subst split_once.simps) simp
qed

lemma lines_cons:
  assumes "plain_line l"
  shows "lines (l @ LF # s) = l # lines s"
proof -
  have t: "takeWhile (\<lambda>c. c \<noteq> LF) (l @ LF # s) = l" "dropWhile (\<lambda>c. c \<noteq> LF) (l @ LF # s) = LF # s"
    using assms by (auto simp: plain_line_def takeWhile_append2 dropWhile_append2 intro: takeWhile_append2 [THEN trans] dropWhile_append2 [THEN trans])
  have "\<not> (l \<noteq> [] \<and> last l = CR)" using assms last_in_set [of l] by (metis plain_line_def)
  then show ?thesis by (subst lines.simps) (auto simp: first_line_def Let_def t)
qed

lemma parse_line_sample:
  assumes "sample_line key num"
  shows "parse_line parse_f64 (key @ CHR '' '' # num) = map_option (Pair key) (parse_f64 num)"
proof -
  let ?l = "key @ CHR '' '' # num"
  have key: "key \<noteq> []" "\<not> is_whitespace (hd key)" "\<not> is_whitespace (last key)" and num: "num \<noteq> []" "\<forall>c \<in> set num. \<not> is_whitespace c"
    using assms by (auto simp: sample_line_def)
  have "CHR '' '' \<notin> set (rev num)" using num(2) by (auto simp: is_whitespace_def)
  then have "rsplit_once (CHR '' '') ?l = Some (key, num)" by (simp add: rsplit_once_def split_once_at)
  moreover have "trim ?l = ?l" using key num by (intro trim_id) auto
  moreover have "trim key = key" "trim num = num" using key num by (auto intro!: trim_id)
  ultimately show ?thesis by (simp add: parse_line_def)
qed

lemma fold_upds: "fold (\<lambda>(k, v) m. m(k \<mapsto> v)) xs m = m ++ map_of (rev xs)"
  by (induction xs arbitrary: m) (auto simp: map_add_def split: option.splits)

text \<open>What the server writes for a sample it can be asked for is what \<^verbatim>\<open>vega status\<close> reads back: comments are
  skipped, every sample arrives under its key, and a later sample replaces an earlier one of the same key.\<close>

definition exposition_text :: "(string list \<times> string \<times> string) list \<Rightarrow> string" where
  "exposition_text ss = concat (map (\<lambda>(comments, key, num).
     concat (map (\<lambda>c. ''#'' @ c @ [LF]) comments) @ key @ '' '' @ num @ [LF]) ss)"

lemma lines_comments:
  "\<forall>c \<in> set comments. plain_line c \<Longrightarrow>
   filter (\<lambda>l. \<not> prefix ''#'' l) (lines (concat (map (\<lambda>c. ''#'' @ c @ [LF]) comments) @ s)) = filter (\<lambda>l. \<not> prefix ''#'' l) (lines s)"
proof (induction comments)
  case (Cons c cs)
  then have "plain_line (CHR ''#'' # c)" by (auto simp: plain_line_def CR_def LF_def)
  then show ?case using Cons lines_cons [of "CHR ''#'' # c"] by simp
qed simp

theorem scraped_samples:
  assumes "\<forall>(comments, key, num) \<in> set ss. (\<forall>c \<in> set comments. plain_line c) \<and> sample_line key num \<and> parse_f64 num \<noteq> None"
  shows "parse_prometheus parse_f64 (exposition_text ss) = map_of (rev (map (\<lambda>(_, key, num). (key, the (parse_f64 num))) ss))"
proof -
  have "List.map_filter (parse_line parse_f64) (filter (\<lambda>l. \<not> prefix ''#'' l) (lines (exposition_text ss)))
      = map (\<lambda>(_, key, num). (key, the (parse_f64 num))) ss" using assms
  proof (induction ss)
    case Nil
    show ?case by (simp add: exposition_text_def lines.simps [of "[]"] first_line_def map_filter_simps)
  next
    case (Cons x ss)
    obtain comments key num where x: "x = (comments, key, num)" by (cases x) auto
    have sl: "\<forall>c \<in> set comments. plain_line c" "sample_line key num" "parse_f64 num \<noteq> None" using Cons.prems by (auto simp: x)
    have pl: "plain_line (key @ CHR '' '' # num)"
      using sl(2) by (auto simp: sample_line_def plain_line_def is_whitespace_def CR_def LF_def)
    have key: "\<not> prefix ''#'' (key @ CHR '' '' # num)" using sl(2) by (cases key) (auto simp: sample_line_def)
    have "exposition_text (x # ss) = concat (map (\<lambda>c. ''#'' @ c @ [LF]) comments) @ (key @ CHR '' '' # num) @ LF # exposition_text ss"
      by (simp add: exposition_text_def x)
    then have "filter (\<lambda>l. \<not> prefix ''#'' l) (lines (exposition_text (x # ss)))
        = (key @ CHR '' '' # num) # filter (\<lambda>l. \<not> prefix ''#'' l) (lines (exposition_text ss))"
      by (simp only: lines_comments [OF sl(1)] lines_cons [OF pl] filter.simps key if_True not_False_eq_True)
    then show ?case using Cons sl(3) by (auto simp: parse_line_sample [OF sl(2)] map_filter_simps x)
  qed
  then show ?thesis by (simp add: parse_prometheus_def fold_upds)
qed

end
