(* ===== verification/Editor_Save.thy ===== *)
theory Editor_Save
  imports Prelude
begin

text \<open>
  \<^verbatim>\<open>write_atomically\<close> of \<^verbatim>\<open>src/editor.rs\<close>: the replacement of the config file by any number of
  processes at once, as a step relation over the files of one directory. A step is one call of the
  operating system, which may fail; a write may stop after any prefix. The death of a process leaves the state
  after some step. A power cut leaves under the name of the config file the file whose directory entry was
  last on the medium, and of a file that was not flushed anything: which files are flushed, and that entry, are
  part of the state. The metadata of an existing file can be read.
\<close>

section \<open>The writers\<close>

definition TEMP_NAME_ATTEMPTS :: nat where "TEMP_NAME_ATTEMPTS = 16"

record disk_file =
  f_content :: string
  f_mode :: "12 word"

type_synonym disk = "string \<Rightarrow> disk_file option"

datatype save_pc =
    S_Create nat
  | S_Mode string
  | S_Write string
  | S_Sync string
  | S_Rename string
  | S_Clean string
  | S_Ok
  | S_Err

record writer =
  w_contents :: string
  w_pc :: save_pc

record save_sys =
  sd_files :: disk
  sd_flushed :: "string set"
  sd_durable :: "disk_file option"
  sd_writers :: "writer list"

text \<open>The name of attempt \<open>k\<close> of a writer: the target's, its process and time stamp, and the attempt.\<close>

definition temp_name :: "string \<Rightarrow> (nat \<Rightarrow> string) \<Rightarrow> (nat \<Rightarrow> string) \<Rightarrow> nat \<Rightarrow> nat \<Rightarrow> string" where
  "temp_name target stamp digits i k = ''.'' @ target @ ''.'' @ stamp i @ ''.'' @ digits k @ ''.tmp''"

definition wgoto :: "nat \<Rightarrow> save_pc \<Rightarrow> save_sys \<Rightarrow> save_sys" where
  "wgoto i p s = s\<lparr>sd_writers := (sd_writers s)[i := (sd_writers s ! i)\<lparr>w_pc := p\<rparr>]\<rparr>"

definition w_at :: "nat \<Rightarrow> save_pc \<Rightarrow> save_sys \<Rightarrow> bool" where
  "w_at i p s \<longleftrightarrow> i < length (sd_writers s) \<and> w_pc (sd_writers s ! i) = p"

definition put_file :: "string \<Rightarrow> disk_file option \<Rightarrow> save_sys \<Rightarrow> save_sys" where
  "put_file n f s = s\<lparr>sd_files := (sd_files s)(n := f)\<rparr>"

text \<open>What is written is not on the medium before it is flushed; a rename takes the file along as it is.\<close>

definition unflush :: "string \<Rightarrow> save_sys \<Rightarrow> save_sys" where
  "unflush n s = s\<lparr>sd_flushed := sd_flushed s - {n}\<rparr>"

definition flush :: "string \<Rightarrow> save_sys \<Rightarrow> save_sys" where
  "flush n s = s\<lparr>sd_flushed := insert n (sd_flushed s)\<rparr>"

definition rename_flushed :: "string \<Rightarrow> string \<Rightarrow> save_sys \<Rightarrow> save_sys" where
  "rename_flushed n target s = (if n \<in> sd_flushed s then flush target s else unflush target s)"

definition next_attempt :: "nat \<Rightarrow> save_pc" where
  "next_attempt k = (if k + 1 < TEMP_NAME_ATTEMPTS then S_Create (k + 1) else S_Err)"

inductive save_step :: "string \<Rightarrow> (nat \<Rightarrow> nat \<Rightarrow> string) \<Rightarrow> 12 word \<Rightarrow> save_sys \<Rightarrow> save_sys \<Rightarrow> bool"
  for target tmp umask where
  created: "w_at i (S_Create k) s \<Longrightarrow> sd_files s (tmp i k) = None \<Longrightarrow>
    save_step target tmp umask s (unflush (tmp i k) (wgoto i (S_Mode (tmp i k)) (put_file (tmp i k) (Some \<lparr>f_content = [], f_mode = umask\<rparr>) s)))"
| taken: "w_at i (S_Create k) s \<Longrightarrow> sd_files s (tmp i k) \<noteq> None \<Longrightarrow> save_step target tmp umask s (wgoto i (next_attempt k) s)"
| create_failed: "w_at i (S_Create k) s \<Longrightarrow> save_step target tmp umask s (wgoto i S_Err s)"
| mode_kept: "w_at i (S_Mode n) s \<Longrightarrow> sd_files s target = Some old \<Longrightarrow> sd_files s n = Some f \<Longrightarrow>
    save_step target tmp umask s (unflush n (wgoto i (S_Write n) (put_file n (Some (f\<lparr>f_mode := f_mode old\<rparr>)) s)))"
| no_mode: "w_at i (S_Mode n) s \<Longrightarrow> sd_files s target = None \<Longrightarrow> save_step target tmp umask s (wgoto i (S_Write n) s)"
| mode_failed: "w_at i (S_Mode n) s \<Longrightarrow> sd_files s target \<noteq> None \<Longrightarrow> save_step target tmp umask s (wgoto i (S_Clean n) s)"
| partly_written: "w_at i (S_Write n) s \<Longrightarrow> sd_files s n = Some f \<Longrightarrow>
    save_step target tmp umask s (unflush n (put_file n (Some (f\<lparr>f_content := take m (w_contents (sd_writers s ! i))\<rparr>)) s))"
| written: "w_at i (S_Write n) s \<Longrightarrow> sd_files s n = Some f \<Longrightarrow>
    save_step target tmp umask s (unflush n (wgoto i (S_Sync n) (put_file n (Some (f\<lparr>f_content := w_contents (sd_writers s ! i)\<rparr>)) s)))"
| write_failed: "w_at i (S_Write n) s \<Longrightarrow> save_step target tmp umask s (wgoto i (S_Clean n) s)"
| synced: "w_at i (S_Sync n) s \<Longrightarrow> save_step target tmp umask s (flush n (wgoto i (S_Rename n) s))"
| sync_failed: "w_at i (S_Sync n) s \<Longrightarrow> save_step target tmp umask s (wgoto i (S_Clean n) s)"
| renamed: "w_at i (S_Rename n) s \<Longrightarrow> sd_files s n = Some f \<Longrightarrow>
    save_step target tmp umask s (rename_flushed n target (wgoto i S_Ok (put_file n None (put_file target (Some f) s))))"
| dir_synced: "w_at i S_Ok s \<Longrightarrow> save_step target tmp umask s (s\<lparr>sd_durable := sd_files s target\<rparr>)"
| written_back: "save_step target tmp umask s (s\<lparr>sd_durable := sd_files s target\<rparr>)"
| rename_failed: "w_at i (S_Rename n) s \<Longrightarrow> save_step target tmp umask s (wgoto i (S_Clean n) s)"
| cleaned: "w_at i (S_Clean n) s \<Longrightarrow> save_step target tmp umask s (wgoto i S_Err (put_file n None s))"
| not_cleaned: "w_at i (S_Clean n) s \<Longrightarrow> save_step target tmp umask s (wgoto i S_Err s)"

text \<open>After the rename the call succeeds whatever the flush of the directory does, which may fail or never come.
  At the start every file is on the medium.\<close>

definition save_init :: "string \<Rightarrow> disk \<Rightarrow> string list \<Rightarrow> save_sys" where
  "save_init target fs contents = \<lparr>sd_files = fs, sd_flushed = UNIV, sd_durable = fs target,
     sd_writers = map (\<lambda>c. \<lparr>w_contents = c, w_pc = S_Create 0\<rparr>) contents\<rparr>"

section \<open>The invariant\<close>

text \<open>The temporary file a writer holds, and what it holds of it.\<close>

fun held :: "save_pc \<Rightarrow> string option" where
  "held (S_Mode n) = Some n"
| "held (S_Write n) = Some n"
| "held (S_Sync n) = Some n"
| "held (S_Rename n) = Some n"
| "held (S_Clean n) = Some n"
| "held _ = None"

definition hold_of :: "save_sys \<Rightarrow> nat \<Rightarrow> string option" where
  "hold_of s i = held (w_pc (sd_writers s ! i))"

fun whole :: "save_pc \<Rightarrow> bool" where
  "whole (S_Sync _) = True"
| "whole (S_Rename _) = True"
| "whole _ = False"

fun moded :: "save_pc \<Rightarrow> bool" where
  "moded (S_Write _) = True"
| "moded (S_Sync _) = True"
| "moded (S_Rename _) = True"
| "moded _ = False"

definition holds_ok :: "disk \<Rightarrow> string \<Rightarrow> (nat \<Rightarrow> nat \<Rightarrow> string) \<Rightarrow> save_sys \<Rightarrow> nat \<Rightarrow> bool" where
  "holds_ok fs target tmp s i \<longleftrightarrow> (\<forall>n. hold_of s i = Some n \<longrightarrow> n \<in> range (tmp i) \<and>
     (\<exists>f. sd_files s n = Some f \<and>
        (whole (w_pc (sd_writers s ! i)) \<longrightarrow> f_content f = w_contents (sd_writers s ! i)) \<and>
        (moded (w_pc (sd_writers s ! i)) \<longrightarrow> (\<forall>old. fs target = Some old \<longrightarrow> f_mode f = f_mode old))))"

text \<open>A file that may stand under the target's name: the old one, or a whole one of a writer that went through.\<close>

definition stored_ok :: "disk \<Rightarrow> string \<Rightarrow> save_sys \<Rightarrow> disk_file option \<Rightarrow> bool" where
  "stored_ok fs target s d \<longleftrightarrow>
     (d = fs target \<or> (\<exists>i f. w_at i S_Ok s \<and> d = Some f \<and> f_content f = w_contents (sd_writers s ! i))) \<and>
     (\<forall>old. fs target = Some old \<longrightarrow> (\<exists>f. d = Some f \<and> f_mode f = f_mode old))"

definition target_ok :: "disk \<Rightarrow> string \<Rightarrow> save_sys \<Rightarrow> bool" where
  "target_ok fs target s \<longleftrightarrow> stored_ok fs target s (sd_files s target)"

definition save_inv :: "disk \<Rightarrow> string list \<Rightarrow> string \<Rightarrow> (nat \<Rightarrow> nat \<Rightarrow> string) \<Rightarrow> save_sys \<Rightarrow> bool" where
  "save_inv fs contents target tmp s \<longleftrightarrow>
     map w_contents (sd_writers s) = contents \<and> target_ok fs target s \<and>
     (\<forall>i < length (sd_writers s). holds_ok fs target tmp s i) \<and>
     (\<forall>i j. i < length (sd_writers s) \<longrightarrow> j < length (sd_writers s) \<longrightarrow> hold_of s i \<noteq> None \<longrightarrow> hold_of s i = hold_of s j \<longrightarrow> i = j) \<and>
     (\<forall>n. n \<noteq> target \<longrightarrow> n \<notin> (\<Union>i. range (tmp i)) \<longrightarrow> sd_files s n = fs n)"

lemma temp_name_fresh: "temp_name target stamp digits i k \<noteq> target"
proof
  assume "temp_name target stamp digits i k = target"
  then have "length (temp_name target stamp digits i k) = length target" by (rule arg_cong)
  then show False by (simp add: temp_name_def)
qed

lemma wgoto_simps [simp]:
  "sd_files (wgoto i p s) = sd_files s" "length (sd_writers (wgoto i p s)) = length (sd_writers s)"
  "map w_contents (sd_writers (wgoto i p s)) = map w_contents (sd_writers s)"
  "sd_writers (put_file n f s) = sd_writers s" "sd_files (put_file n f s) = (sd_files s)(n := f)"
  by (simp_all add: wgoto_def put_file_def map_update) (metis list_update_id map_update)

lemma flush_simps [simp]:
  "sd_files (unflush n s) = sd_files s" "sd_writers (unflush n s) = sd_writers s" "sd_durable (unflush n s) = sd_durable s"
  "sd_files (flush n s) = sd_files s" "sd_writers (flush n s) = sd_writers s" "sd_durable (flush n s) = sd_durable s"
  "sd_files (rename_flushed n t s) = sd_files s" "sd_writers (rename_flushed n t s) = sd_writers s" "sd_durable (rename_flushed n t s) = sd_durable s"
  "sd_flushed (unflush n s) = sd_flushed s - {n}" "sd_flushed (flush n s) = insert n (sd_flushed s)"
  "sd_flushed (wgoto i p s) = sd_flushed s" "sd_flushed (put_file n f s) = sd_flushed s"
  "sd_durable (wgoto i p s) = sd_durable s" "sd_durable (put_file n f s) = sd_durable s"
  by (simp_all add: unflush_def flush_def rename_flushed_def wgoto_def put_file_def)

text \<open>The invariant on files and writers does not look at what is on the medium.\<close>

lemma save_inv_cong:
  "sd_files s' = sd_files s \<Longrightarrow> sd_writers s' = sd_writers s \<Longrightarrow> save_inv fs contents target tmp s' \<longleftrightarrow> save_inv fs contents target tmp s"
  by (simp add: save_inv_def target_ok_def stored_ok_def holds_ok_def hold_of_def w_at_def)

lemma save_inv_flush [simp]:
  "save_inv fs contents target tmp (unflush n s) = save_inv fs contents target tmp s"
  "save_inv fs contents target tmp (flush n s) = save_inv fs contents target tmp s"
  "save_inv fs contents target tmp (rename_flushed n t s) = save_inv fs contents target tmp s"
  "save_inv fs contents target tmp (s\<lparr>sd_durable := d\<rparr>) = save_inv fs contents target tmp s"
  by (rule save_inv_cong; simp)+

lemma wgoto_nth:
  "i < length (sd_writers s) \<Longrightarrow> j < length (sd_writers s) \<Longrightarrow>
     sd_writers (wgoto i p s) ! j = (if j = i then (sd_writers s ! i)\<lparr>w_pc := p\<rparr> else sd_writers s ! j)"
  by (simp add: wgoto_def nth_list_update)

lemma hold_of_wgoto: "i < length (sd_writers s) \<Longrightarrow> j < length (sd_writers s) \<Longrightarrow>
    hold_of (wgoto i p s) j = (if j = i then held p else hold_of s j)"
  by (simp add: hold_of_def wgoto_nth)

text \<open>A step of writer \<open>i\<close> that touches no file, or only the one file \<open>n\<close> it holds or has just created.\<close>

lemma save_inv_own:
  assumes inv: "save_inv fs contents target tmp s" and at: "w_at i p0 s" and ok: "p0 \<noteq> S_Ok" "p \<noteq> S_Ok"
    and n: "n \<in> range (tmp i)" "n \<noteq> target" and mine: "hold_of s i = Some n \<or> sd_files s n = None \<or> f = sd_files s n \<and> held p = None"
    and p: "held p = None \<or> held p = Some n"
    and f: "held p = Some n \<Longrightarrow> \<exists>g. f = Some g \<and> (whole p \<longrightarrow> f_content g = w_contents (sd_writers s ! i)) \<and>
        (moded p \<longrightarrow> (\<forall>old. fs target = Some old \<longrightarrow> f_mode g = f_mode old))"
  shows "save_inv fs contents target tmp (wgoto i p (put_file n f s))"
proof -
  let ?s = "wgoto i p (put_file n f s)"
  have i: "i < length (sd_writers s)" "w_pc (sd_writers s ! i) = p0" using at by (auto simp: w_at_def)
  have nth: "sd_writers ?s ! j = (if j = i then (sd_writers s ! i)\<lparr>w_pc := p\<rparr> else sd_writers s ! j)" if "j < length (sd_writers s)" for j
    using wgoto_nth [of i "put_file n f s" j p] i that by simp
  have hold: "hold_of ?s j = (if j = i then held p else hold_of s j)" if "j < length (sd_writers s)" for j
    using nth [OF that] by (simp add: hold_of_def)
  have inv': "\<And>j. j < length (sd_writers s) \<Longrightarrow> holds_ok fs target tmp s j" "target_ok fs target s" using inv by (auto simp: save_inv_def)
  have other: "hold_of s j \<noteq> Some n" if "j < length (sd_writers s)" "j \<noteq> i" "held p \<noteq> None \<or> f \<noteq> sd_files s n" for j
  proof
    assume h: "hold_of s j = Some n"
    then have "sd_files s n \<noteq> None" using inv'(1) [OF that(1)] by (auto simp: holds_ok_def)
    then have "hold_of s i = Some n" using mine that(3) by auto
    then show False using inv h that(1,2) i(1) by (auto simp: save_inv_def)
  qed
  have "holds_ok fs target tmp ?s j" if j: "j < length (sd_writers s)" for j
  proof (cases "j = i")
    case True
    then show ?thesis using hold [OF j] nth [OF j] p n f by (auto simp: holds_ok_def)
  next
    case False
    have "((sd_files s)(n := f)) m = sd_files s m" if "hold_of s j = Some m" for m
      using other [OF j False] that by (cases "f = sd_files s n") auto
    then show ?thesis using inv'(1) [OF j] hold [OF j] nth [OF j] False by (auto simp: holds_ok_def)
  qed
  moreover have "target_ok fs target ?s"
  proof -
    have "w_at j S_Ok ?s" "w_contents (sd_writers ?s ! j) = w_contents (sd_writers s ! j)" if "w_at j S_Ok s" for j
      using that i ok nth [of j] by (auto simp: w_at_def)
    then show ?thesis using inv'(2) n(2) unfolding target_ok_def stored_ok_def by (simp; metis)
  qed
  moreover have "j = k" if "j < length (sd_writers s)" "k < length (sd_writers s)" "hold_of ?s j \<noteq> None" "hold_of ?s j = hold_of ?s k" for j k
    using that other [of j] other [of k] p inv hold [of j] hold [of k] by (auto simp: save_inv_def split: if_splits)
  moreover have "sd_files ?s m = fs m" if "m \<noteq> target" "m \<notin> (\<Union>i. range (tmp i))" for m
    using that n(1) inv by (auto simp: save_inv_def)
  moreover have "map w_contents (sd_writers ?s) = contents" "length (sd_writers ?s) = length (sd_writers s)"
    using inv by (simp_all add: save_inv_def)
  ultimately show ?thesis unfolding save_inv_def by metis
qed

lemma save_inv_rename:
  assumes inv: "save_inv fs contents target tmp s" and at: "w_at i (S_Rename n) s" and g: "sd_files s n = Some g"
    and fresh: "\<And>i k. tmp i k \<noteq> target"
  shows "save_inv fs contents target tmp (wgoto i S_Ok (put_file n None (put_file target (Some g) s)))"
proof -
  let ?s = "wgoto i S_Ok (put_file n None (put_file target (Some g) s))"
  have i: "i < length (sd_writers s)" "w_pc (sd_writers s ! i) = S_Rename n" using at by (auto simp: w_at_def)
  have nth: "sd_writers ?s ! j = (if j = i then (sd_writers s ! i)\<lparr>w_pc := S_Ok\<rparr> else sd_writers s ! j)" if "j < length (sd_writers s)" for j
    using wgoto_nth [of i "put_file n None (put_file target (Some g) s)" j S_Ok] i that by simp
  have hold: "hold_of ?s j = (if j = i then None else hold_of s j)" if "j < length (sd_writers s)" for j
    using nth [OF that] by (simp add: hold_of_def)
  have hi: "hold_of s i = Some n" using i(2) by (simp add: hold_of_def)
  have ok: "holds_ok fs target tmp s j" if "j < length (sd_writers s)" for j using inv that by (auto simp: save_inv_def)
  have mine: "n \<in> range (tmp i)" "f_content g = w_contents (sd_writers s ! i)"
    "\<And>old. fs target = Some old \<Longrightarrow> f_mode g = f_mode old"
    using ok [OF i(1)] hi i(2) g by (auto simp: holds_ok_def)
  then have nt: "n \<noteq> target" using fresh by blast
  have "holds_ok fs target tmp ?s j" if j: "j < length (sd_writers s)" for j
  proof (cases "j = i")
    case True
    then show ?thesis using hold [OF j] by (simp add: holds_ok_def)
  next
    case False
    have "m \<noteq> n \<and> m \<noteq> target" if h: "hold_of s j = Some m" for m
    proof -
      have "m \<in> range (tmp j)" using ok [OF j] h by (simp add: holds_ok_def)
      moreover have "hold_of s i \<noteq> hold_of s j" using inv i(1) j hi False unfolding save_inv_def by (metis option.distinct(1))
      ultimately show ?thesis using h hi fresh by auto
    qed
    then show ?thesis using ok [OF j] hold [OF j] nth [OF j] False by (auto simp: holds_ok_def)
  qed
  moreover have "target_ok fs target ?s"
  proof -
    have "w_at i S_Ok ?s" "sd_files ?s target = Some g" "w_contents (sd_writers ?s ! i) = w_contents (sd_writers s ! i)"
      using i nt nth [OF i(1)] by (simp_all add: w_at_def)
    then show ?thesis using mine(2,3) unfolding target_ok_def stored_ok_def by metis
  qed
  moreover have "j = k" if "j < length (sd_writers s)" "k < length (sd_writers s)" "hold_of ?s j \<noteq> None" "hold_of ?s j = hold_of ?s k" for j k
    using that inv hold [of j] hold [of k] by (auto simp: save_inv_def split: if_splits)
  moreover have "sd_files ?s m = fs m" if "m \<noteq> target" "m \<notin> (\<Union>i. range (tmp i))" for m
    using that mine(1) inv by (auto simp: save_inv_def)
  moreover have "map w_contents (sd_writers ?s) = contents" "length (sd_writers ?s) = length (sd_writers s)"
    using inv by (simp_all add: save_inv_def)
  ultimately show ?thesis unfolding save_inv_def by metis
qed

lemma put_file_same [simp]: "put_file n (sd_files s n) s = s"
  by (simp add: put_file_def)

lemma wgoto_same: "w_at i p s \<Longrightarrow> wgoto i p s = s"
  by (cases s) (auto simp: wgoto_def w_at_def list_update_same_conv)

lemma save_inv_held:
  assumes "save_inv fs contents target tmp s" and "w_at i p s" and "held p = Some n"
  shows "hold_of s i = Some n" and "n \<in> range (tmp i)"
    and "\<exists>f. sd_files s n = Some f \<and> (whole p \<longrightarrow> f_content f = w_contents (sd_writers s ! i)) \<and>
       (moded p \<longrightarrow> (\<forall>old. fs target = Some old \<longrightarrow> f_mode f = f_mode old))"
  using assms by (auto simp: save_inv_def w_at_def hold_of_def holds_ok_def)

lemma save_inv_step:
  assumes "save_step target tmp umask s s'" and inv: "save_inv fs contents target tmp s" and fresh: "\<And>i k. tmp i k \<noteq> target"
  shows "save_inv fs contents target tmp s'"
proof -
  have mode: "\<exists>f. sd_files s target = Some f \<and> f_mode f = f_mode old" if "fs target = Some old" for old
    using inv that by (auto simp: save_inv_def target_ok_def stored_ok_def)
  have move: "save_inv fs contents target tmp (wgoto i p (put_file n f s))"
    if "w_at i p0 s" "held p0 = Some n" "p \<noteq> S_Ok" "held p = None \<or> held p = Some n"
      "held p = Some n \<Longrightarrow> \<exists>g. f = Some g \<and> (whole p \<longrightarrow> f_content g = w_contents (sd_writers s ! i)) \<and>
        (moded p \<longrightarrow> (\<forall>old. fs target = Some old \<longrightarrow> f_mode g = f_mode old))" for i p0 p n f
  proof -
    note h = save_inv_held [OF inv that(1,2)]
    have "p0 \<noteq> S_Ok" "n \<noteq> target" using that(2) h(2) fresh by auto
    then show ?thesis using save_inv_own [OF inv that(1) _ that(3) h(2) _ _ that(4,5)] h(1) by blast
  qed
  have stay: "save_inv fs contents target tmp (wgoto i p s)"
    if st: "w_at i p0 s" "held p0 = Some n" "p \<noteq> S_Ok" "held p = None \<or> held p = Some n" "whole p \<Longrightarrow> whole p0"
      "moded p \<Longrightarrow> moded p0 \<or> sd_files s target = None" for i p0 p n
  proof -
    obtain g where g: "sd_files s n = Some g" "whole p0 \<longrightarrow> f_content g = w_contents (sd_writers s ! i)"
      "moded p0 \<longrightarrow> (\<forall>old. fs target = Some old \<longrightarrow> f_mode g = f_mode old)" using save_inv_held(3) [OF inv st(1,2)] by blast
    have "f_mode g = f_mode old" if "moded p" "fs target = Some old" for old
      using st(6) [OF that(1)] g(3) that(2) mode [OF that(2)] by auto
    then have "save_inv fs contents target tmp (wgoto i p (put_file n (sd_files s n) s))"
      using g(1,2) st(5) by (intro move [OF st(1-4)]) blast
    then show ?thesis by (simp only: put_file_same)
  qed
  have free: "save_inv fs contents target tmp (wgoto i p s)" if "w_at i (S_Create k) s" "held p = None" "p \<noteq> S_Ok" for i k p
    using save_inv_own [OF inv that(1), of p "tmp i k" "sd_files s (tmp i k)"] that fresh by simp
  from assms(1) show ?thesis
  proof cases
    case (created i k)
    show ?thesis unfolding created(1) save_inv_flush
      by (rule save_inv_own [OF inv created(2)]) (use created(3) fresh in auto)
  next
    case (taken i k)
    then show ?thesis using free by (simp add: next_attempt_def)
  next
    case (mode_kept i n old f)
    then show ?thesis using move [of i "S_Mode n" n "S_Write n"] mode by auto
  next
    case (partly_written i n f m)
    let ?s = "put_file n (Some (f\<lparr>f_content := take m (w_contents (sd_writers s ! i))\<rparr>)) s"
    have "wgoto i (S_Write n) ?s = ?s" using partly_written by (auto simp: w_at_def intro: wgoto_same)
    moreover have "save_inv fs contents target tmp (wgoto i (S_Write n) ?s)"
      using save_inv_held(3) [OF inv partly_written(2)] partly_written(3) by (intro move [OF partly_written(2)]) auto
    ultimately show ?thesis using partly_written(1) by simp
  next
    case (written i n f)
    then show ?thesis using move [OF written(2), of n "S_Sync n"] save_inv_held(3) [OF inv written(2)] by fastforce
  next
    case (renamed i n f)
    then show ?thesis using save_inv_rename [OF inv renamed(2,3)] fresh by simp
  next
    case (cleaned i n)
    then show ?thesis using move [OF cleaned(2), of n S_Err None] by simp
  qed (use inv in \<open>auto intro: free stay\<close>)
qed

section \<open>What is on the medium\<close>

lemma ok_stays:
  assumes "save_step target tmp umask s s'" and "w_at i S_Ok s"
  shows "w_at i S_Ok s' \<and> w_contents (sd_writers s' ! i) = w_contents (sd_writers s ! i)"
  using assms by (cases rule: save_step.cases) (auto simp: w_at_def wgoto_nth nth_list_update wgoto_def put_file_def)

lemma stored_ok_step:
  "save_step target tmp umask s s' \<Longrightarrow> stored_ok fs target s d \<Longrightarrow> stored_ok fs target s' d"
  unfolding stored_ok_def using ok_stays by metis

definition medium_inv :: "disk \<Rightarrow> string \<Rightarrow> save_sys \<Rightarrow> bool" where
  "medium_inv fs target s \<longleftrightarrow> target \<in> sd_flushed s \<and> (\<forall>i n. w_at i (S_Rename n) s \<longrightarrow> n \<in> sd_flushed s) \<and>
     stored_ok fs target s (sd_durable s)"

text \<open>A step of writer \<open>i\<close> that unflushes the file it holds or has just created spares the target and the files others
  are about to rename.\<close>

lemma unflush_safe:
  assumes inv: "save_inv fs contents target tmp s" and m: "medium_inv fs target s" and i: "i < length (sd_writers s)"
    and n: "n \<in> range (tmp i)" "hold_of s i = Some n \<or> sd_files s n = None" and fresh: "\<And>i k. tmp i k \<noteq> target"
  shows "target \<in> sd_flushed s - {n}" and "w_at j (S_Rename k) s \<Longrightarrow> j \<noteq> i \<Longrightarrow> k \<in> sd_flushed s - {n}"
proof -
  show "target \<in> sd_flushed s - {n}" using m n(1) fresh by (auto simp: medium_inv_def)
  assume j: "w_at j (S_Rename k) s" "j \<noteq> i"
  then have h: "hold_of s j = Some k" "j < length (sd_writers s)" by (auto simp: w_at_def hold_of_def)
  then have "sd_files s k \<noteq> None" using inv unfolding save_inv_def holds_ok_def by fastforce
  moreover have "hold_of s i \<noteq> hold_of s j" using inv i h j(2) unfolding save_inv_def by (metis option.distinct(1))
  ultimately have "k \<noteq> n" using n(2) h(1) by auto
  then show "k \<in> sd_flushed s - {n}" using m j(1) by (auto simp: medium_inv_def)
qed

lemma medium_inv_step:
  assumes st: "save_step target tmp umask s s'" and inv: "save_inv fs contents target tmp s" and m: "medium_inv fs target s"
    and fresh: "\<And>i k. tmp i k \<noteq> target"
  shows "medium_inv fs target s'"
proof -
  have "sd_durable s' = sd_durable s \<or> sd_durable s' = sd_files s target" using st by cases auto
  moreover have "stored_ok fs target s (sd_files s target)" using inv by (simp add: save_inv_def target_ok_def)
  ultimately have dur: "stored_ok fs target s' (sd_durable s')"
    using m stored_ok_step [OF st] by (auto simp: medium_inv_def)
  have old: "target \<in> sd_flushed s" "\<And>i n. w_at i (S_Rename n) s \<Longrightarrow> n \<in> sd_flushed s" using m by (auto simp: medium_inv_def)
  have at: "w_at j (S_Rename k) (wgoto i p t) \<longleftrightarrow> (if j = i then p = S_Rename k \<and> i < length (sd_writers t) else w_at j (S_Rename k) t)"
    if "i < length (sd_writers t)" for i j k p t
    using that by (auto simp: w_at_def wgoto_def nth_list_update)
  have put: "w_at j p (put_file n f t) = w_at j p t" "w_at j p (unflush n t) = w_at j p t" "w_at j p (flush n t) = w_at j p t"
    "w_at j p (rename_flushed n k t) = w_at j p t" "w_at j p (t\<lparr>sd_durable := d\<rparr>) = w_at j p t" for j p n f t k d
    by (simp_all add: w_at_def)
  have own: "target \<in> sd_flushed s - {n} \<and> (\<forall>j k. j \<noteq> i \<longrightarrow> w_at j (S_Rename k) s \<longrightarrow> k \<in> sd_flushed s - {n})"
    if "w_at i p s" "n \<in> range (tmp i)" "held p = Some n \<or> sd_files s n = None" for i p n
    using unflush_safe [OF inv m _ that(2) _ fresh, of] that(1,3) by (auto simp: w_at_def hold_of_def)
  have held: "n \<in> range (tmp i)" if "w_at i p s" "held p = Some n" for i p n by (rule save_inv_held(2) [OF inv that])
  have len: "i < length (sd_writers s)" if "w_at i p s" for i p using that by (simp add: w_at_def)
  from st have "target \<in> sd_flushed s' \<and> (\<forall>i n. w_at i (S_Rename n) s' \<longrightarrow> n \<in> sd_flushed s')"
  proof cases
    case (created i k)
    then show ?thesis using own [OF created(2), of "tmp i k"] len [OF created(2)] by (auto simp: at put)
  next
    case (mode_kept i n ol f)
    then show ?thesis using own [OF mode_kept(2) held [OF mode_kept(2)], of n] len [OF mode_kept(2)] by (auto simp: at put)
  next
    case (partly_written i n f m)
    have "j \<noteq> i" if "w_at j (S_Rename k) s" for j k using that partly_written(2) by (auto simp: w_at_def)
    then show ?thesis using own [OF partly_written(2) held [OF partly_written(2)], of n] partly_written(1) by (auto simp: put)
  next
    case (written i n f)
    then show ?thesis using own [OF written(2) held [OF written(2)], of n] len [OF written(2)] by (auto simp: at put)
  next
    case (synced i n)
    then show ?thesis using old len [OF synced(2)] by (auto simp: at put)
  next
    case (renamed i n f)
    then have "n \<in> sd_flushed s" using old(2) by blast
    then show ?thesis using old len [OF renamed(2)] renamed(1) by (auto simp: at put rename_flushed_def)
  qed (use old len in \<open>auto simp: at put next_attempt_def split: if_splits\<close>)
  then show ?thesis using dur by (simp add: medium_inv_def)
qed

section \<open>What the file can be\<close>

lemma save_inv_init: "save_inv fs contents target tmp (save_init target fs contents)" "medium_inv fs target (save_init target fs contents)"
  by (auto simp: save_inv_def save_init_def target_ok_def stored_ok_def holds_ok_def hold_of_def comp_def medium_inv_def w_at_def)

lemma save_inv_reachable:
  assumes "(save_step target tmp umask)\<^sup>*\<^sup>* (save_init target fs contents) s" and "\<And>i k. tmp i k \<noteq> target"
  shows "save_inv fs contents target tmp s \<and> medium_inv fs target s"
  using assms(1)
proof (induction rule: rtranclp_induct)
  case (step y z)
  then show ?case using save_inv_step [OF step(2) _ assms(2)] medium_inv_step [OF step(2) _ _ assms(2)] by blast
qed (use save_inv_init in blast)

text \<open>C31: however many processes replace the config file at once, and wherever any of them fails or is
  killed, the file is at every moment whole: what it was, or exactly what one of the writers that has
  reported success wrote. The same is true of the file a power cut would leave under its name, and the file
  there is flushed at every moment. Its permission bits, when it existed, never change, so a save
  cannot widen who may read the admin token in it, and no file other than it and the writers' temporary
  files is touched.\<close>

theorem config_file_stays_whole:
  assumes "(save_step target (temp_name target stamp digits) umask)\<^sup>*\<^sup>* (save_init target fs contents) s"
  shows "(\<forall>d \<in> {sd_files s target, sd_durable s}.
       (d = fs target \<or> (\<exists>i f. i < length contents \<and> w_pc (sd_writers s ! i) = S_Ok \<and> d = Some f \<and> f_content f = contents ! i)) \<and>
       (\<forall>old. fs target = Some old \<longrightarrow> (\<exists>f. d = Some f \<and> f_mode f = f_mode old))) \<and>
     target \<in> sd_flushed s \<and>
     (\<forall>n. n \<noteq> target \<longrightarrow> (\<forall>i k. n \<noteq> temp_name target stamp digits i k) \<longrightarrow> sd_files s n = fs n)"
proof -
  have inv: "save_inv fs contents target (temp_name target stamp digits) s" and m: "medium_inv fs target s"
    using save_inv_reachable [OF assms temp_name_fresh] by blast+
  have "w_contents (sd_writers s ! i) = contents ! i \<and> i < length contents" if "i < length (sd_writers s)" for i
    using inv that by (auto simp: save_inv_def)
  then have "(d = fs target \<or> (\<exists>i f. i < length contents \<and> w_pc (sd_writers s ! i) = S_Ok \<and> d = Some f \<and> f_content f = contents ! i)) \<and>
       (\<forall>old. fs target = Some old \<longrightarrow> (\<exists>f. d = Some f \<and> f_mode f = f_mode old))" if "stored_ok fs target s d" for d
    using that unfolding stored_ok_def w_at_def by (auto 0 4)
  moreover have "stored_ok fs target s (sd_files s target)" "stored_ok fs target s (sd_durable s)" "target \<in> sd_flushed s"
    using inv m by (simp_all add: save_inv_def target_ok_def medium_inv_def)
  moreover have "\<forall>n. n \<noteq> target \<longrightarrow> (\<forall>i k. n \<noteq> temp_name target stamp digits i k) \<longrightarrow> sd_files s n = fs n"
    using inv unfolding save_inv_def by auto
  ultimately show ?thesis by blast
qed

text \<open>A save that meets no failure goes through.\<close>

lemma save_succeeds:
  assumes "fs target = Some old" and "tmp 0 0 \<noteq> target" and "fs (tmp 0 0) = None"
  shows "(save_step target tmp umask)\<^sup>*\<^sup>* (save_init target fs [c])
    \<lparr>sd_files = fs(target \<mapsto> \<lparr>f_content = c, f_mode = f_mode old\<rparr>), sd_flushed = UNIV,
     sd_durable = Some \<lparr>f_content = c, f_mode = f_mode old\<rparr>, sd_writers = [\<lparr>w_contents = c, w_pc = S_Ok\<rparr>]\<rparr>"
proof -
  let ?R = "(save_step target tmp umask)\<^sup>*\<^sup>*" and ?n = "tmp 0 0"
  define st where "st d p F = \<lparr>sd_files = d, sd_flushed = F, sd_durable = Some old, sd_writers = [\<lparr>w_contents = c, w_pc = p\<rparr>]\<rparr>" for d p F
  have at: "w_at 0 p (st d p F)" for d p F by (simp add: w_at_def st_def)
  have sel: "sd_files (st d p F) = d" "w_contents (sd_writers (st d p F) ! 0) = c" for d p F by (simp_all add: st_def)
  have go: "wgoto 0 q (st d p F) = st d q F" "put_file m f (st d p F) = st (d(m := f)) p F" "unflush m (st d p F) = st d p (F - {m})"
    "flush m (st d p F) = st d p (insert m F)" for d p q m f F
    by (simp_all add: wgoto_def put_file_def unflush_def flush_def st_def)
  have ren: "rename_flushed m t (st d p UNIV) = st d p UNIV" for m t d p by (simp add: rename_flushed_def flush_def st_def)
  let ?e = "\<lparr>f_content = [], f_mode = umask\<rparr>" and ?f = "\<lparr>f_content = [], f_mode = f_mode old\<rparr>"
    and ?g = "\<lparr>f_content = c, f_mode = f_mode old\<rparr>" and ?U = "UNIV - {?n}"
  have r1: "?R (st fs (S_Create 0) UNIV) (st (fs(?n \<mapsto> ?e)) (S_Mode ?n) ?U)"
    using created [OF at, of fs 0 UNIV tmp target umask] assms by (simp add: sel go r_into_rtranclp)
  have r2: "?R (st (fs(?n \<mapsto> ?e)) (S_Mode ?n) ?U) (st (fs(?n \<mapsto> ?f)) (S_Write ?n) ?U)"
    using mode_kept [OF at, of "fs(?n \<mapsto> ?e)" ?n ?U target old ?e tmp umask] assms by (simp add: sel go r_into_rtranclp)
  have r3: "?R (st (fs(?n \<mapsto> ?f)) (S_Write ?n) ?U) (st (fs(?n \<mapsto> ?g)) (S_Sync ?n) ?U)"
    using written [OF at, of "fs(?n \<mapsto> ?f)" ?n ?U ?f target tmp umask] assms by (simp add: sel go r_into_rtranclp)
  have r4: "?R (st (fs(?n \<mapsto> ?g)) (S_Sync ?n) ?U) (st (fs(?n \<mapsto> ?g)) (S_Rename ?n) UNIV)"
    using synced [OF at, of target tmp umask "fs(?n \<mapsto> ?g)" ?n ?U] by (simp add: sel go r_into_rtranclp insert_Diff)
  have r5: "?R (st (fs(?n \<mapsto> ?g)) (S_Rename ?n) UNIV) (st (fs(?n \<mapsto> ?g, target \<mapsto> ?g, ?n := None)) S_Ok UNIV)"
    using renamed [OF at, of "fs(?n \<mapsto> ?g)" ?n UNIV ?g target tmp umask] by (simp add: sel go ren r_into_rtranclp)
  have e: "fs(?n \<mapsto> ?g, target \<mapsto> ?g, ?n := None) = fs(target \<mapsto> ?g)" using assms(2,3) by (intro ext) simp
  have r6: "?R (st (fs(target \<mapsto> ?g)) S_Ok UNIV) (st (fs(target \<mapsto> ?g)) S_Ok UNIV\<lparr>sd_durable := Some ?g\<rparr>)"
    using dir_synced [OF at, of target tmp umask "fs(target \<mapsto> ?g)" UNIV] by (simp add: sel r_into_rtranclp)
  note r = rtranclp_trans [OF rtranclp_trans [OF r1 rtranclp_trans [OF r2 rtranclp_trans [OF r3 rtranclp_trans [OF r4 r5]]], unfolded e] r6]
  have "st fs (S_Create 0) UNIV = save_init target fs [c]" by (simp add: st_def save_init_def assms(1))
  with r show ?thesis by (simp add: st_def)
qed

definition demo_disk :: disk where
  "demo_disk = (\<lambda>n. if n = ''c'' then Some \<lparr>f_content = ''old'', f_mode = 0x1A0\<rparr> else None)"

theorem config_file_stays_whole_witness:
  "\<exists>s f. (save_step ''c'' (temp_name ''c'' (\<lambda>_. []) (\<lambda>_. [])) 0x1B6)\<^sup>*\<^sup>* (save_init ''c'' demo_disk [''new'']) s \<and>
     sd_files s ''c'' = Some f \<and> f_content f = ''new'' \<and> f_mode f = 0x1A0 \<and> ''c'' \<in> sd_flushed s \<and> sd_durable s = Some f"
proof -
  let ?f = "\<lparr>f_content = ''new'', f_mode = 0x1A0\<rparr>"
  let ?s = "\<lparr>sd_files = demo_disk(''c'' \<mapsto> ?f), sd_flushed = UNIV, sd_durable = Some ?f, sd_writers = [\<lparr>w_contents = ''new'', w_pc = S_Ok\<rparr>]\<rparr>"
  have r: "(save_step ''c'' (temp_name ''c'' (\<lambda>_. []) (\<lambda>_. [])) 0x1B6)\<^sup>*\<^sup>* (save_init ''c'' demo_disk [''new'']) ?s"
    using save_succeeds [of demo_disk "''c''" "\<lparr>f_content = ''old'', f_mode = 0x1A0\<rparr>" "temp_name ''c'' (\<lambda>_. []) (\<lambda>_. [])"]
    by (simp add: demo_disk_def temp_name_def)
  from config_file_stays_whole [OF r] have "''c'' \<in> sd_flushed ?s" by blast
  then show ?thesis using r by (intro exI [of _ ?s]) simp
qed

end
