(* ===== verification/Editor_Write.thy ===== *)
theory Editor_Write
  imports Client Editor_Save
begin

text \<open>
  \<^verbatim>\<open>write_atomically\<close> of \<^verbatim>\<open>src/editor.rs\<close> as one process runs it: the files after it on every path through it,
  the errors included. What the operating system answers is an argument: which attempts to create a
  temporary file go through, whether the mode can be set, after how many octets a write stops,
  whether the flush, the rename and the removal of a temporary file work. A path ends in the name of a file.
  The flush of the directory at the end is best effort and changes no file.
\<close>

section \<open>The write\<close>

record save_env =
  sv_umask :: "12 word"
  sv_stamp :: string
  sv_creates :: "nat \<Rightarrow> bool"
  sv_mode :: bool
  sv_stops :: "nat option"
  sv_syncs :: bool
  sv_renames :: bool
  sv_removes :: bool
  sv_dirs :: bool

datatype save_error = Not_Created | Names_Taken | Not_Moded | Not_Written | Not_Synced | Not_Renamed

text \<open>The directory of a path with its slash, nothing for the working directory, and the name of the file.\<close>

definition path_dir :: "string \<Rightarrow> string" where
  "path_dir path = rev (dropWhile (\<lambda>c. c \<noteq> CHR ''/'') (rev path))"

definition path_name :: "string \<Rightarrow> string" where
  "path_name path = rev (takeWhile (\<lambda>c. c \<noteq> CHR ''/'') (rev path))"

definition temp_path :: "save_env \<Rightarrow> string \<Rightarrow> nat \<Rightarrow> string" where
  "temp_path sv path k = path_dir path @ temp_name (path_name path) (\<lambda>_. sv_stamp sv) show_nat 0 k"

fun create_temp :: "save_env \<Rightarrow> string \<Rightarrow> nat list \<Rightarrow> disk \<Rightarrow> (save_error + string) \<times> disk" where
  "create_temp sv path [] fs = (Inl Names_Taken, fs)"
| "create_temp sv path (k # ks) fs =
     (let tmp = temp_path sv path k in
      if fs tmp \<noteq> None then create_temp sv path ks fs
      else if sv_creates sv k then (Inr tmp, fs(tmp \<mapsto> \<lparr>f_content = [], f_mode = sv_umask sv\<rparr>))
      else (Inl Not_Created, fs))"

definition preserve_mode :: "save_env \<Rightarrow> string \<Rightarrow> string \<Rightarrow> disk \<Rightarrow> (save_error + unit) \<times> disk" where
  "preserve_mode sv path tmp fs =
     (case fs path of
        None \<Rightarrow> (Inr (), fs)
      | Some old \<Rightarrow>
          if sv_mode sv then (Inr (), fs(tmp := map_option (\<lambda>f. f\<lparr>f_mode := f_mode old\<rparr>) (fs tmp)))
          else (Inl Not_Moded, fs))"

text \<open>The closure of the function: the mode, then the contents, then the flush.\<close>

definition write_temp :: "save_env \<Rightarrow> string \<Rightarrow> string \<Rightarrow> string \<Rightarrow> disk \<Rightarrow> (save_error + unit) \<times> disk" where
  "write_temp sv path tmp contents fs =
     (let put = (\<lambda>c fs. fs(tmp := map_option (\<lambda>f. f\<lparr>f_content := c\<rparr>) (fs tmp))) in
      case preserve_mode sv path tmp fs of
        (Inl e, fs) \<Rightarrow> (Inl e, fs)
      | (Inr _, fs) \<Rightarrow>
          (case sv_stops sv of
             Some m \<Rightarrow> (Inl Not_Written, put (take m contents) fs)
           | None \<Rightarrow> (if sv_syncs sv then Inr () else Inl Not_Synced, put contents fs)))"

definition remove_file :: "save_env \<Rightarrow> string \<Rightarrow> disk \<Rightarrow> disk" where
  "remove_file sv tmp fs = (if sv_removes sv then fs(tmp := None) else fs)"

definition write_atomically :: "save_env \<Rightarrow> string \<Rightarrow> string \<Rightarrow> disk \<Rightarrow> (save_error + unit) \<times> disk" where
  "write_atomically sv path contents fs =
     (case create_temp sv path [0..<TEMP_NAME_ATTEMPTS] fs of
        (Inl e, fs) \<Rightarrow> (Inl e, fs)
      | (Inr tmp, fs) \<Rightarrow>
          (case write_temp sv path tmp contents fs of
             (Inl e, fs) \<Rightarrow> (Inl e, remove_file sv tmp fs)
           | (Inr _, fs) \<Rightarrow>
               if sv_renames sv then (Inr (), fs(path := fs tmp, tmp := None))
               else (Inl Not_Renamed, remove_file sv tmp fs)))"

section \<open>What a write leaves\<close>

lemma temp_path_fresh: "temp_path sv path k \<noteq> path"
proof
  assume e: "temp_path sv path k = path"
  have "length (rev path) = length (takeWhile (\<lambda>c. c \<noteq> CHR ''/'') (rev path)) + length (dropWhile (\<lambda>c. c \<noteq> CHR ''/'') (rev path))"
    by (metis length_append takeWhile_dropWhile_id)
  then have "length path < length (temp_path sv path k)"
    by (simp add: temp_path_def path_dir_def path_name_def temp_name_def)
  with e show False by simp
qed

lemma create_temp_Inr:
  "create_temp sv path ks fs = (Inr tmp, fs') \<Longrightarrow>
     (\<exists>k \<in> set ks. tmp = temp_path sv path k) \<and> fs tmp = None \<and> fs' = fs(tmp \<mapsto> \<lparr>f_content = [], f_mode = sv_umask sv\<rparr>)"
  by (induction ks) (auto simp: Let_def split: if_splits)

lemma create_temp_Inl: "create_temp sv path ks fs = (Inl e, fs') \<Longrightarrow> fs' = fs"
  by (induction ks) (auto simp: Let_def split: if_splits)

text \<open>Of a file that is written and not renamed only the temporary file can be left.\<close>

definition left_behind :: "save_env \<Rightarrow> string \<Rightarrow> disk \<Rightarrow> disk \<Rightarrow> bool" where
  "left_behind sv path fs fs' \<longleftrightarrow> \<not> sv_removes sv \<and>
     (\<exists>k < TEMP_NAME_ATTEMPTS. \<exists>f. fs (temp_path sv path k) = None \<and> fs' = fs(temp_path sv path k \<mapsto> f))"

definition saved_file :: "save_env \<Rightarrow> disk \<Rightarrow> string \<Rightarrow> string \<Rightarrow> disk_file" where
  "saved_file sv fs path contents =
     \<lparr>f_content = contents, f_mode = (case fs path of Some old \<Rightarrow> f_mode old | None \<Rightarrow> sv_umask sv)\<rparr>"

lemma upd_same: "m k = Some v \<Longrightarrow> m(k \<mapsto> v) = m"
  by (intro ext) simp

lemma write_temp_result:
  assumes "fs tmp = Some f" and "tmp \<noteq> path" and "write_temp sv path tmp contents fs = (r, fs')"
  shows "\<exists>g. fs' = fs(tmp \<mapsto> g) \<and> (r = Inr () \<longrightarrow>
     g = \<lparr>f_content = contents, f_mode = (case fs path of Some old \<Rightarrow> f_mode old | None \<Rightarrow> f_mode f)\<rparr>)"
  using assms upd_same [of fs tmp f]
  by (cases f) (auto simp: write_temp_def preserve_mode_def Let_def split: option.splits if_splits intro: exI [of _ f])

text \<open>A write that succeeds puts the contents under the path, with the permission bits of the file that was there, and
  leaves nothing else; one that fails leaves everything, but for a temporary file that could not be removed.\<close>

lemma write_atomically_result:
  assumes "write_atomically sv path contents fs = (r, fs')"
  shows "case r of Inr _ \<Rightarrow> fs' = fs(path \<mapsto> saved_file sv fs path contents) | Inl _ \<Rightarrow> fs' = fs \<or> left_behind sv path fs fs'"
proof (cases "create_temp sv path [0..<TEMP_NAME_ATTEMPTS] fs")
  case (Pair c fs1)
  show ?thesis
  proof (cases c)
    case (Inl e)
    then show ?thesis using assms Pair create_temp_Inl by (fastforce simp: write_atomically_def)
  next
    case (Inr tmp)
    from create_temp_Inr [OF Pair [unfolded Inr]] obtain k where k: "k < TEMP_NAME_ATTEMPTS" "tmp = temp_path sv path k" "fs tmp = None"
      and fs1: "fs1 = fs(tmp \<mapsto> \<lparr>f_content = [], f_mode = sv_umask sv\<rparr>)" by auto
    have ne: "tmp \<noteq> path" using temp_path_fresh k(2) by simp
    obtain w fs2 where w: "write_temp sv path tmp contents fs1 = (w, fs2)" by fastforce
    have f1: "fs1 tmp = Some \<lparr>f_content = [], f_mode = sv_umask sv\<rparr>" "fs1 path = fs path" using fs1 ne by simp_all
    from write_temp_result [OF f1(1) ne w] obtain g where g: "fs2 = fs1(tmp \<mapsto> g)" "w = Inr () \<Longrightarrow> g = saved_file sv fs path contents"
      by (auto simp: saved_file_def f1(2) split: option.split)
    have g1: "fs2 = fs(tmp \<mapsto> g)" using g(1) fs1 by simp
    have left: "remove_file sv tmp fs2 = fs \<or> left_behind sv path fs (remove_file sv tmp fs2)"
      using g1 k by (auto simp: remove_file_def left_behind_def)
    have "fs2(path := fs2 tmp, tmp := None) = fs(path \<mapsto> g)" using g1 k(3) ne by (intro ext) auto
    then show ?thesis using assms Pair Inr w g(2) left
      by (cases w) (auto simp: write_atomically_def split: if_splits)
  qed
qed

text \<open>A write that meets no failure goes through.\<close>

lemma write_goes_through:
  assumes "fs (temp_path sv path 0) = None" and "sv_creates sv 0" "sv_mode sv" "sv_stops sv = None" "sv_syncs sv" "sv_renames sv"
  shows "write_atomically sv path contents fs = (Inr (), fs(path \<mapsto> saved_file sv fs path contents))"
proof -
  have "[0..<TEMP_NAME_ATTEMPTS] = 0 # [Suc 0..<TEMP_NAME_ATTEMPTS]" by (rule upt_conv_Cons) (simp add: TEMP_NAME_ATTEMPTS_def)
  then have "fst (write_atomically sv path contents fs) = Inr ()"
    using assms by (auto simp: write_atomically_def write_temp_def preserve_mode_def Let_def split: option.split)
  then obtain fs' where w: "write_atomically sv path contents fs = (Inr (), fs')" by (metis prod.collapse)
  then show ?thesis using write_atomically_result [OF w] by simp
qed

section \<open>It runs as the writers do\<close>

text \<open>A lone writer that has come to \<open>p\<close> with the files \<open>fs\<close>.\<close>

definition comes_to :: "save_env \<Rightarrow> string \<Rightarrow> string \<Rightarrow> disk \<Rightarrow> save_pc \<Rightarrow> disk \<Rightarrow> bool" where
  "comes_to sv path c fs0 p fs \<longleftrightarrow> (\<exists>s. (save_step path (\<lambda>_. temp_path sv path) (sv_umask sv))\<^sup>*\<^sup>* (save_init path fs0 [c]) s \<and>
     sd_files s = fs \<and> sd_writers s = [\<lparr>w_contents = c, w_pc = p\<rparr>])"

lemma comes_to_start: "comes_to sv path c fs (S_Create 0) fs"
  unfolding comes_to_def by (intro exI [of _ "save_init path fs [c]"]) (simp add: save_init_def)

lemma comes_to_step:
  assumes "comes_to sv path c fs0 p fs"
    and "\<And>s. sd_files s = fs \<Longrightarrow> sd_writers s = [\<lparr>w_contents = c, w_pc = p\<rparr>] \<Longrightarrow> w_at 0 p s \<Longrightarrow>
      \<exists>s'. save_step path (\<lambda>_. temp_path sv path) (sv_umask sv) s s' \<and> sd_files s' = fs' \<and> sd_writers s' = [\<lparr>w_contents = c, w_pc = p'\<rparr>]"
  shows "comes_to sv path c fs0 p' fs'"
proof -
  from assms(1) obtain s where s: "(save_step path (\<lambda>_. temp_path sv path) (sv_umask sv))\<^sup>*\<^sup>* (save_init path fs0 [c]) s"
    "sd_files s = fs" "sd_writers s = [\<lparr>w_contents = c, w_pc = p\<rparr>]" by (auto simp: comes_to_def)
  then have "w_at 0 p s" by (simp add: w_at_def)
  from assms(2) [OF s(2,3) this] obtain s' where s': "save_step path (\<lambda>_. temp_path sv path) (sv_umask sv) s s'"
    "sd_files s' = fs'" "sd_writers s' = [\<lparr>w_contents = c, w_pc = p'\<rparr>]" by blast
  from rtranclp.rtrancl_into_rtrancl [OF s(1) s'(1)] s'(2,3) show ?thesis unfolding comes_to_def by blast
qed

lemma wgoto_one: "sd_writers s = [\<lparr>w_contents = c, w_pc = p\<rparr>] \<Longrightarrow> sd_writers (wgoto 0 q s) = [\<lparr>w_contents = c, w_pc = q\<rparr>]"
  by (simp add: wgoto_def)

lemma comes_to_created:
  assumes "comes_to sv path c fs0 (S_Create k) fs" and "fs (temp_path sv path k) = None"
  shows "comes_to sv path c fs0 (S_Mode (temp_path sv path k)) (fs(temp_path sv path k \<mapsto> \<lparr>f_content = [], f_mode = sv_umask sv\<rparr>))"
  by (rule comes_to_step [OF assms(1)]) (intro exI conjI, rule save_step.created, auto simp: assms(2) wgoto_one)

lemma comes_to_taken:
  assumes "comes_to sv path c fs0 (S_Create k) fs" and "fs (temp_path sv path k) \<noteq> None"
  shows "comes_to sv path c fs0 (next_attempt k) fs"
  by (rule comes_to_step [OF assms(1)]) (intro exI conjI, rule save_step.taken, use assms(2) in \<open>auto simp: wgoto_one\<close>)

lemma comes_to_failed:
  "comes_to sv path c fs0 (S_Create k) fs \<Longrightarrow> comes_to sv path c fs0 S_Err fs"
  "comes_to sv path c fs0 (S_Mode n) fs \<Longrightarrow> fs path \<noteq> None \<Longrightarrow> comes_to sv path c fs0 (S_Clean n) fs"
  "comes_to sv path c fs0 (S_Write n) fs \<Longrightarrow> comes_to sv path c fs0 (S_Clean n) fs"
  "comes_to sv path c fs0 (S_Sync n) fs \<Longrightarrow> comes_to sv path c fs0 (S_Clean n) fs"
  "comes_to sv path c fs0 (S_Rename n) fs \<Longrightarrow> comes_to sv path c fs0 (S_Clean n) fs"
proof -
  show "comes_to sv path c fs0 (S_Create k) fs \<Longrightarrow> comes_to sv path c fs0 S_Err fs"
    by (erule comes_to_step) (intro exI conjI, rule save_step.create_failed, auto simp: wgoto_one)
  show "comes_to sv path c fs0 (S_Mode n) fs \<Longrightarrow> fs path \<noteq> None \<Longrightarrow> comes_to sv path c fs0 (S_Clean n) fs"
    by (erule comes_to_step) (intro exI conjI, rule save_step.mode_failed, auto simp: wgoto_one)
  show "comes_to sv path c fs0 (S_Write n) fs \<Longrightarrow> comes_to sv path c fs0 (S_Clean n) fs"
    by (erule comes_to_step) (intro exI conjI, rule save_step.write_failed, auto simp: wgoto_one)
  show "comes_to sv path c fs0 (S_Sync n) fs \<Longrightarrow> comes_to sv path c fs0 (S_Clean n) fs"
    by (erule comes_to_step) (intro exI conjI, rule save_step.sync_failed, auto simp: wgoto_one)
  show "comes_to sv path c fs0 (S_Rename n) fs \<Longrightarrow> comes_to sv path c fs0 (S_Clean n) fs"
    by (erule comes_to_step) (intro exI conjI, rule save_step.rename_failed, auto simp: wgoto_one)
qed

lemma comes_to_moded:
  assumes "comes_to sv path c fs0 (S_Mode n) fs" and "fs n = Some f"
  shows "comes_to sv path c fs0 (S_Write n) (fs(n \<mapsto> f\<lparr>f_mode := (case fs path of Some old \<Rightarrow> f_mode old | None \<Rightarrow> f_mode f)\<rparr>))"
proof (cases "fs path")
  case None
  have "fs(n \<mapsto> f\<lparr>f_mode := f_mode f\<rparr>) = fs" using assms(2) by (intro ext) simp
  moreover have "comes_to sv path c fs0 (S_Write n) fs"
    by (rule comes_to_step [OF assms(1)]) (intro exI conjI, rule save_step.no_mode, auto simp: None wgoto_one)
  ultimately show ?thesis by (simp add: None)
next
  case (Some old)
  show ?thesis
    by (rule comes_to_step [OF assms(1)]) (intro exI conjI, rule save_step.mode_kept [where f = f and old = old], auto simp: Some assms(2) wgoto_one)
qed

lemma comes_to_written:
  assumes "comes_to sv path c fs0 (S_Write n) fs" and "fs n = Some f"
  shows "comes_to sv path c fs0 (S_Write n) (fs(n \<mapsto> f\<lparr>f_content := take m c\<rparr>))"
    and "comes_to sv path c fs0 (S_Sync n) (fs(n \<mapsto> f\<lparr>f_content := c\<rparr>))"
proof -
  show "comes_to sv path c fs0 (S_Write n) (fs(n \<mapsto> f\<lparr>f_content := take m c\<rparr>))"
    by (rule comes_to_step [OF assms(1)])
      (intro exI conjI, rule save_step.partly_written [where f = f and m = m], use assms(2) in auto)
  show "comes_to sv path c fs0 (S_Sync n) (fs(n \<mapsto> f\<lparr>f_content := c\<rparr>))"
    by (rule comes_to_step [OF assms(1)])
      (intro exI conjI, rule save_step.written [where f = f], use assms(2) in \<open>auto simp: wgoto_one\<close>)
qed

lemma comes_to_renamed:
  assumes "comes_to sv path c fs0 (S_Sync n) fs" and "fs n = Some f" and "n \<noteq> path"
  shows "comes_to sv path c fs0 (S_Rename n) fs" and "comes_to sv path c fs0 S_Ok (fs(path \<mapsto> f, n := None))"
proof -
  show r: "comes_to sv path c fs0 (S_Rename n) fs"
    by (rule comes_to_step [OF assms(1)]) (intro exI conjI, rule save_step.synced, auto simp: wgoto_one)
  show "comes_to sv path c fs0 S_Ok (fs(path \<mapsto> f, n := None))"
    by (rule comes_to_step [OF r]) (intro exI conjI, rule save_step.renamed [where f = f], auto simp: assms(2) wgoto_one)
qed

lemma comes_to_removed:
  assumes "comes_to sv path c fs0 (S_Clean n) fs"
  shows "comes_to sv path c fs0 S_Err (remove_file sv n fs)"
proof (cases "sv_removes sv")
  case True
  show ?thesis
    by (rule comes_to_step [OF assms]) (intro exI conjI, rule save_step.cleaned, auto simp: remove_file_def True wgoto_one)
next
  case False
  show ?thesis
    by (rule comes_to_step [OF assms]) (intro exI conjI, rule save_step.not_cleaned, auto simp: remove_file_def False wgoto_one)
qed

lemma create_temp_runs:
  assumes "comes_to sv path c fs0 (S_Create k) fs" and "k < TEMP_NAME_ATTEMPTS"
    and "create_temp sv path [k..<TEMP_NAME_ATTEMPTS] fs = (r, fs')"
  shows "case r of Inl _ \<Rightarrow> comes_to sv path c fs0 S_Err fs' | Inr tmp \<Rightarrow> comes_to sv path c fs0 (S_Mode tmp) fs'"
  using assms
proof (induction "TEMP_NAME_ATTEMPTS - k" arbitrary: k)
  case (Suc d)
  have ks: "[k..<TEMP_NAME_ATTEMPTS] = k # [Suc k..<TEMP_NAME_ATTEMPTS]" using Suc.prems(2) by (rule upt_conv_Cons)
  show ?case
  proof (cases "fs (temp_path sv path k)")
    case None
    then show ?thesis
      using Suc.prems comes_to_created comes_to_failed(1) unfolding ks by (auto simp: Let_def split: if_splits)
  next
    case (Some f)
    then have rest: "create_temp sv path [Suc k..<TEMP_NAME_ATTEMPTS] fs = (r, fs')" using Suc.prems(3) unfolding ks by (simp add: Let_def)
    have nxt: "comes_to sv path c fs0 (next_attempt k) fs" using comes_to_taken [OF Suc.prems(1)] Some by simp
    show ?thesis
    proof (cases "Suc k < TEMP_NAME_ATTEMPTS")
      case True
      have "d = TEMP_NAME_ATTEMPTS - Suc k" using Suc.hyps(2) by simp
      then show ?thesis using Suc.hyps(1) [of "Suc k"] True nxt rest by (simp add: next_attempt_def)
    next
      case False
      then show ?thesis using nxt rest by (auto simp: next_attempt_def)
    qed
  qed
qed simp

text \<open>Whatever the operating system answers, the function ends as a lone writer of the step relation can: on success
  in \<open>S_Ok\<close>, on an error in \<open>S_Err\<close>, with the same files.\<close>

theorem write_atomically_runs:
  assumes "write_atomically sv path contents fs = (r, fs')"
  shows "comes_to sv path contents fs (if r = Inr () then S_Ok else S_Err) fs'"
proof -
  obtain a fs1 where a: "create_temp sv path [0..<TEMP_NAME_ATTEMPTS] fs = (a, fs1)" by fastforce
  have run: "case a of Inl _ \<Rightarrow> comes_to sv path contents fs S_Err fs1 | Inr tmp \<Rightarrow> comes_to sv path contents fs (S_Mode tmp) fs1"
    by (rule create_temp_runs [OF comes_to_start _ a]) (simp add: TEMP_NAME_ATTEMPTS_def)
  show ?thesis
  proof (cases a)
    case (Inl e)
    then show ?thesis using run a assms by (auto simp: write_atomically_def)
  next
    case (Inr tmp)
    note c = create_temp_Inr [OF a [unfolded Inr]]
    have ne: "tmp \<noteq> path" using c temp_path_fresh [of sv path] by auto
    obtain f where f: "fs1 tmp = Some f" using c by simp
    let ?f = "f\<lparr>f_mode := (case fs1 path of Some old \<Rightarrow> f_mode old | None \<Rightarrow> f_mode f)\<rparr>"
    have m: "comes_to sv path contents fs (S_Mode tmp) fs1" using run Inr by simp
    note w = comes_to_moded [OF m f]
    note clean = comes_to_removed [OF comes_to_failed(2) [OF m]] comes_to_removed [OF comes_to_failed(3) [OF comes_to_written(1) [OF w, of ?f]]]
      comes_to_removed [OF comes_to_failed(4) [OF comes_to_written(2) [OF w, of ?f]]]
    note ren = comes_to_renamed [OF comes_to_written(2) [OF w, of ?f], of "?f\<lparr>f_content := contents\<rparr>"]
    note clean' = comes_to_removed [OF comes_to_failed(5) [OF ren(1)]]
    have none: "fs1(tmp \<mapsto> f) = fs1" using f by (intro ext) simp
    show ?thesis
      using assms a Inr f ne clean clean' ren(2) none
      by (auto simp: write_atomically_def write_temp_def preserve_mode_def Let_def split: option.splits if_splits)
  qed
qed

end
