(* ===== verification/Calendar.thy ===== *)
theory Calendar
  imports Prelude
begin

text \<open>
  The date arithmetic of \<^verbatim>\<open>src/commands/mod.rs\<close>, Hinnant's conversion of a day count into year, month and day,
  and its agreement with a calendar that counts days one at a time. Divisions there are of
  non-negative numbers. An era is 400 years from the first of March; a year of an era is found by a
  table of its 400 first and last days, the month by one of the 366 days of a year.
\<close>

section \<open>The day as a number\<close>

definition civil_from_days :: "int \<Rightarrow> int \<times> int \<times> int" where
  "civil_from_days z =
     (let era = z div 146097;
          doe = z mod 146097;
          yoe = (doe - doe div 1460 + doe div 36524 - doe div 146096) div 365;
          y = yoe + era * 400;
          day_of_year = doe - (365 * yoe + yoe div 4 - yoe div 100);
          mp = (5 * day_of_year + 2) div 153;
          d = day_of_year - (153 * mp + 2) div 5 + 1;
          m = (if mp < 10 then mp + 3 else mp - 9);
          y = (if m \<le> 2 then y + 1 else y)
      in (y, m, d))"

definition ymd_from_unix_days :: "u64 \<Rightarrow> u32" where
  "ymd_from_unix_days days =
     (case civil_from_days (sint (days + 719468)) of (y, m, d) \<Rightarrow>
        of_int y * 10000 + of_int m * 100 + of_int d)"

section \<open>The calendar\<close>

definition leap :: "int \<Rightarrow> bool" where
  "leap y \<longleftrightarrow> y mod 4 = 0 \<and> (y mod 100 \<noteq> 0 \<or> y mod 400 = 0)"

definition month_length :: "int \<Rightarrow> int \<Rightarrow> int" where
  "month_length y m = (if m = 2 then (if leap y then 29 else 28) else if m \<in> {4, 6, 9, 11} then 30 else 31)"

fun next_day :: "int \<times> int \<times> int \<Rightarrow> int \<times> int \<times> int" where
  "next_day (y, m, d) =
     (if d < month_length y m then (y, m, d + 1) else if m < 12 then (y, m + 1, 1) else (y + 1, 1, 1))"

definition calendar :: "nat \<Rightarrow> int \<times> int \<times> int" where
  "calendar n = (next_day ^^ n) (1970, 1, 1)"

definition pack_date :: "int \<times> int \<times> int \<Rightarrow> int" where
  "pack_date = (\<lambda>(y, m, d). y * 10000 + m * 100 + d)"

section \<open>Years of an era\<close>

definition year_of :: "int \<Rightarrow> int" where
  "year_of doe = (doe - doe div 1460 + doe div 36524 - doe div 146096) div 365"

definition year_start :: "int \<Rightarrow> int" where
  "year_start y = 365 * y + y div 4 - y div 100"

definition year_end :: "int \<Rightarrow> int" where
  "year_end y = (if y = 399 then 146096 else year_start (y + 1) - 1)"

definition month_day :: "int \<Rightarrow> int \<times> int" where
  "month_day n = (let mp = (5 * n + 2) div 153 in (if mp < 10 then mp + 3 else mp - 9, n - (153 * mp + 2) div 5 + 1))"

lemma year_table:
  "\<forall>y \<in> set [0..399]. year_of (year_start y) = y \<and> year_of (year_end y) = y \<and>
     year_end y - year_start y = (if leap (y + 1) then 365 else 364) \<and> year_end y \<le> 146096"
  by code_simp

lemma month_table:
  "\<forall>n \<in> set [0..364]. case month_day n of (m, d) \<Rightarrow> month_day (n + 1) =
     (if m = 2 then (2, d + 1) else if d < month_length 0 m then (m, d + 1) else if m < 12 then (m + 1, 1) else (1, 1)) \<and>
     1 \<le> m \<and> m \<le> 12 \<and> (m = 2 \<longrightarrow> d < 28 \<or> n = 364 \<and> d = 28)"
  by code_simp

lemma year_tableD:
  assumes "0 \<le> y" "y \<le> 399"
  shows "year_of (year_start y) = y" "year_of (year_end y) = y" "year_end y - year_start y = (if leap (y + 1) then 365 else 364)"
    "year_end y \<le> 146096"
  using year_table assms by auto

lemma year_of_mono:
  assumes "a \<le> b"
  shows "year_of a \<le> year_of b"
proof -
  define g :: "int \<Rightarrow> int" where "g n = n - n div 1460 + n div 36524 - n div 146096" for n
  have step: "g n \<le> g (n + 1)" for n
  proof -
    have q: "p - p div 4 \<le> p' - p' div 4" if "p \<le> p'" for p p' :: int using that by presburger
    have "k div 146096 = k div 36524 div 4" for k :: int using zdiv_zmult2_eq [of 4 k 36524] by simp
    moreover have "n div 36524 \<le> (n + 1) div 36524" by (rule zdiv_mono1) simp_all
    moreover have "(n + 1) div 1460 \<le> n div 1460 + 1" using zdiv_mono1 [of "n + 1" "n + 1460" 1460] by simp
    ultimately show ?thesis using q [of "n div 36524" "(n + 1) div 36524"] by (simp add: g_def)
  qed
  have "g a \<le> g (a + int k)" for k
  proof (induction k)
    case (Suc k)
    then show ?case using step [of "a + int k"] by (simp add: algebra_simps)
  qed simp
  from this [of "nat (b - a)"] have "g a \<le> g b" using assms by simp
  then show ?thesis by (simp add: year_of_def g_def zdiv_mono1)
qed

lemma year_of_within:
  assumes "0 \<le> y" "y \<le> 399" "year_start y \<le> n" "n \<le> year_end y"
  shows "year_of n = y"
  using year_tableD [OF assms(1,2)] year_of_mono [OF assms(3)] year_of_mono [OF assms(4)] by simp

lemma year_covers:
  assumes "0 \<le> n" "n < 146097"
  obtains y where "0 \<le> y" "y \<le> 399" "year_start y \<le> n" "n \<le> year_end y"
proof -
  have "k \<le> 399 \<Longrightarrow> n \<le> year_end (int k) \<Longrightarrow> \<exists>y. 0 \<le> y \<and> y \<le> 399 \<and> year_start y \<le> n \<and> n \<le> year_end y" for k
  proof (induction k)
    case 0
    then show ?case using assms by (intro exI [of _ 0]) (simp add: year_start_def)
  next
    case (Suc k)
    show ?case
    proof (cases "n \<le> year_end (int k)")
      case True
      then show ?thesis using Suc by simp
    next
      case False
      then have "year_start (int (Suc k)) \<le> n" using Suc.prems(1) by (simp add: year_end_def add.commute split: if_splits)
      then show ?thesis using Suc.prems by (intro exI [of _ "int (Suc k)"]) simp
    qed
  qed
  from this [of 399] assms show ?thesis using that by (auto simp: year_end_def)
qed

lemma civil_eq:
  "civil_from_days z =
    (case month_day (z mod 146097 - year_start (year_of (z mod 146097))) of (m, d) \<Rightarrow>
       (if m \<le> 2 then year_of (z mod 146097) + z div 146097 * 400 + 1 else year_of (z mod 146097) + z div 146097 * 400, m, d))"
  by (simp only: civil_from_days_def Let_def month_day_def year_of_def year_start_def prod.case)

lemma civil_at:
  assumes "0 \<le> y" "y \<le> 399" "0 \<le> n" "n \<le> year_end y - year_start y"
  shows "civil_from_days (era * 146097 + year_start y + n) =
    (case month_day n of (m, d) \<Rightarrow> (if m \<le> 2 then y + era * 400 + 1 else y + era * 400, m, d))"
proof -
  let ?doe = "year_start y + n"
  have "year_end y \<le> 146096" by (rule year_tableD [OF assms(1,2)])
  moreover have "0 \<le> year_start y" using assms(1) by (simp add: year_start_def)
  ultimately have doe: "0 \<le> ?doe" "?doe < 146097" using assms(3,4) by linarith+
  have "(era * 146097 + year_start y + n) div 146097 = era" "(era * 146097 + year_start y + n) mod 146097 = ?doe"
    using doe by (simp_all add: add.assoc)
  moreover have "year_of ?doe = y" using year_of_within [OF assms(1,2)] assms(3,4) by simp
  ultimately show ?thesis by (simp only: civil_eq add_diff_cancel_left')
qed

lemma civil_split:
  obtains era y n where "z = era * 146097 + year_start y + n" "0 \<le> y" "y \<le> 399" "0 \<le> n" "n \<le> year_end y - year_start y"
proof -
  obtain y where y: "0 \<le> y" "y \<le> 399" "year_start y \<le> z mod 146097" "z mod 146097 \<le> year_end y"
    by (rule year_covers [of "z mod 146097"]) simp_all
  have "z = z div 146097 * 146097 + year_start y + (z mod 146097 - year_start y)" by simp
  then show ?thesis using that y by (metis diff_ge_0_iff_ge diff_right_mono)
qed

lemma leap_era [simp]: "leap (y + era * 400 + 1) = leap (y + 1)"
proof -
  have "(y + era * 400 + 1) mod 4 = (y + 1) mod 4" "(y + era * 400 + 1) mod 100 = (y + 1) mod 100"
    "(y + era * 400 + 1) mod 400 = (y + 1) mod 400"
    using mod_mult_self1 [of "y + 1" "era * 100" 4] mod_mult_self1 [of "y + 1" "era * 4" 100] mod_mult_self1 [of "y + 1" era 400]
    by (simp_all add: algebra_simps)
  then show ?thesis by (simp add: leap_def)
qed

lemma civil_next: "civil_from_days (z + 1) = next_day (civil_from_days z)"
proof -
  obtain era y n where z: "z = era * 146097 + year_start y + n" and y: "0 \<le> y" "y \<le> 399"
    and n: "0 \<le> n" "n \<le> year_end y - year_start y" by (rule civil_split)
  note last = year_tableD(3) [OF y]
  note here = civil_at [OF y n, of era, folded z]
  show ?thesis
  proof (cases "n = year_end y - year_start y")
    case False
    obtain m d where md: "month_day n = (m, d)" by (cases "month_day n")
    have "n \<in> set [0..364]" using False n last by (simp split: if_splits)
    with month_table md have t: "month_day (n + 1) =
        (if m = 2 then (2, d + 1) else if d < month_length 0 m then (m, d + 1) else if m < 12 then (m + 1, 1) else (1, 1))"
      "1 \<le> m" "m \<le> 12" "m = 2 \<longrightarrow> d < 28 \<or> n = 364 \<and> d = 28" by (auto split: prod.splits)
    have "civil_from_days (z + 1) = (case month_day (n + 1) of (m, d) \<Rightarrow>
        (if m \<le> 2 then y + era * 400 + 1 else y + era * 400, m, d))"
      using civil_at [of y "n + 1" era] y n False z by (simp add: add.assoc)
    moreover have "m = 2 \<Longrightarrow> d < month_length (y + era * 400 + 1) m" using t(4) False n last by (auto simp: month_length_def split: if_splits)
    ultimately show ?thesis using here md t(1-3) by (auto simp: month_length_def split: if_splits)
  next
    case True
    have feb: "next_day (civil_from_days z) = (y + era * 400 + 1, 3, 1)"
      using here last True by (simp add: month_day_def month_length_def split: if_splits)
    have mar: "month_day 0 = (3, 1)" by (simp add: month_day_def)
    show ?thesis
    proof (cases "y = 399")
      case True
      with \<open>n = year_end y - year_start y\<close> z have "z + 1 = (era + 1) * 146097 + year_start 0 + 0"
        by (simp add: year_end_def year_start_def)
      moreover have "0 \<le> year_end 0 - year_start 0" by (simp add: year_end_def year_start_def)
      ultimately show ?thesis using civil_at [of 0 0 "era + 1"] feb mar True by (simp add: algebra_simps)
    next
      case False
      then have "z + 1 = era * 146097 + year_start (y + 1) + 0" using z True by (simp add: year_end_def)
      moreover have "0 \<le> year_end (y + 1) - year_start (y + 1)" using year_tableD(3) [of "y + 1"] False y by (simp split: if_splits)
      ultimately show ?thesis using civil_at [of "y + 1" 0 era] feb mar False y by (simp add: algebra_simps)
    qed
  qed
qed

lemma civil_is_calendar: "civil_from_days (719468 + int n) = calendar n"
proof (induction n)
  case 0
  show ?case by (simp add: calendar_def civil_from_days_def Let_def)
next
  case (Suc n)
  then show ?case using civil_next [of "719468 + int n"] by (simp add: calendar_def algebra_simps)
qed

section \<open>The packed date\<close>

definition valid_date :: "int \<times> int \<times> int \<Rightarrow> bool" where
  "valid_date = (\<lambda>(y, m, d). 1970 \<le> y \<and> 1 \<le> m \<and> m \<le> 12 \<and> 1 \<le> d \<and> d \<le> month_length y m)"

lemma month_length_bounds: "28 \<le> month_length y m" "month_length y m \<le> 31"
  by (simp_all add: month_length_def)

lemma calendar_valid: "valid_date (calendar n)"
proof (induction n)
  case 0
  show ?case by (simp add: calendar_def valid_date_def month_length_def)
next
  case (Suc n)
  obtain y m d where c: "calendar n = (y, m, d)" by (metis prod_cases3)
  then have "calendar (Suc n) = next_day (y, m, d)" by (simp add: calendar_def)
  then show ?case using Suc c month_length_bounds [of y] month_length_bounds [of "y + 1"]
    by (auto simp: valid_date_def intro: order_trans [of _ 28])
qed

lemma pack_date_next: "valid_date x \<Longrightarrow> pack_date x < pack_date (next_day x)"
proof (cases x)
  case (fields y m d)
  assume "valid_date x"
  then show ?thesis using month_length_bounds(2) [of y m] by (simp add: fields valid_date_def pack_date_def)
qed

lemma pack_date_mono: "strict_mono (\<lambda>n. pack_date (calendar n))"
  unfolding strict_mono_Suc_iff using pack_date_next [OF calendar_valid] by (simp add: calendar_def)

lemma pack_date_upto:
  assumes "n \<le> k"
  shows "0 < pack_date (calendar n) \<and> pack_date (calendar n) \<le> pack_date (civil_from_days (719468 + int k))"
  using calendar_valid [of n] strict_mono_less_eq [OF pack_date_mono] assms
  by (auto simp: civil_is_calendar valid_date_def pack_date_def split: prod.splits)

lemma days_sint:
  assumes "unat days \<le> 156000000"
  shows "sint ((days :: u64) + 719468) = 719468 + int (unat days)"
proof -
  have u: "unat (days + 719468) = unat days + 719468" using assms by (simp add: unat_word_ariths(1))
  have "uint (days + 719468) = int (unat (days + 719468))" by simp
  also have "\<dots> = int (unat days) + 719468" by (simp only: u of_nat_add of_nat_numeral)
  finally have "uint (days + 719468) = int (unat days) + 719468" .
  moreover have "int (unat days) \<le> 156000000" using assms by (metis of_nat_le_iff of_nat_numeral)
  then have "uint (days + 719468) < 2 ^ 63" using calculation by simp
  ultimately show ?thesis by (simp add: sint_uint signed_take_bit_int_eq_self)
qed

lemma ymd_calendar:
  assumes "unat days \<le> 156000000"
  shows "uint (ymd_from_unix_days days) = pack_date (calendar (unat days))"
proof -
  obtain y m d where c: "calendar (unat days) = (y, m, d)" by (metis prod_cases3)
  have "ymd_from_unix_days days = of_int y * 10000 + of_int m * 100 + of_int d"
    by (simp only: ymd_from_unix_days_def days_sint [OF assms] civil_is_calendar c prod.case)
  also have "\<dots> = of_int (pack_date (y, m, d))" by (simp add: pack_date_def)
  finally have "ymd_from_unix_days days = of_int (pack_date (calendar (unat days)))" by (simp add: c)
  moreover have "pack_date (civil_from_days (719468 + int 156000000)) < 2 ^ 32"
    by (simp add: civil_from_days_def Let_def pack_date_def)
  ultimately show ?thesis using pack_date_upto [OF assms] by (simp add: uint_word_of_int take_bit_int_eq_self)
qed

text \<open>C36: the date arithmetic of the serials agrees with the Gregorian calendar. For every day from the
  first of January 1970 on, as far as the packed form fits its 32 bits, the number computed without
  any loop is the year, month and day reached by counting days one at a time with the lengths of the
  months and the leap years.\<close>

theorem ymd_is_calendar_date:
  assumes "unat days \<le> 156000000"
  shows "uint (ymd_from_unix_days days) = pack_date (calendar (unat days)) \<and> valid_date (calendar (unat days))"
  using ymd_calendar [OF assms] calendar_valid by simp

theorem ymd_is_calendar_date_witness: "uint (ymd_from_unix_days 20664) = pack_date (calendar 20664) \<and> pack_date (calendar 20664) = 20260730"
  using ymd_is_calendar_date [of 20664] civil_is_calendar [of 20664, symmetric] by (simp add: civil_from_days_def Let_def pack_date_def)

end
