(* ===== verification/Serial.thy ===== *)
theory Serial
  imports Calendar
begin

text \<open>
  The SOA serials of \<^verbatim>\<open>src/commands/mod.rs\<close>: the date of the day with a two-digit counter. The
  arithmetic is that of a release build, where an overflow wraps.
\<close>

section \<open>Operations\<close>

datatype clock_error = ClockBeforeEpoch

definition next_serial :: "u32 option \<Rightarrow> u32 \<Rightarrow> u32" where
  "next_serial previous today =
     (let base = saturating_mul today 100 in
      case previous of
        Some prev \<Rightarrow> if prev \<ge> base \<and> prev < base + 99 then prev + 1 else if prev \<ge> base then prev else base + 1
      | None \<Rightarrow> base + 1)"

definition today_utc :: "u64 option \<Rightarrow> clock_error + u32" where
  "today_utc since_epoch = rbind (ok_or ClockBeforeEpoch since_epoch) (\<lambda>secs. Inr (ymd_from_unix_days (secs div 86400)))"

section \<open>Serials of successive edits\<close>

definition day_base :: "u64 \<Rightarrow> nat" where
  "day_base days = unat (ymd_from_unix_days days) * 100"

lemma day_base_calendar:
  assumes "unat days \<le> 848000"
  shows "int (day_base days) = 100 * pack_date (calendar (unat days))"
proof -
  have "uint (ymd_from_unix_days days) = pack_date (calendar (unat days))" by (rule ymd_calendar) (use assms in simp)
  then show ?thesis by (simp add: day_base_def)
qed

lemma day_base_fits:
  assumes "unat days \<le> 848000"
  shows "day_base days + 99 < 2 ^ 32"
proof -
  have "pack_date (civil_from_days (719468 + int 848000)) \<le> 42949671"
    by (simp add: civil_from_days_def Let_def pack_date_def)
  then have "int (day_base days) \<le> 4294967100" using pack_date_upto [OF assms] day_base_calendar [OF assms] by linarith
  then show ?thesis by simp
qed

lemma day_base_less:
  assumes "a < b" "unat b \<le> 848000"
  shows "day_base a + 100 \<le> day_base b"
proof -
  have ab: "unat a < unat b" using assms(1) by (simp add: word_less_nat_alt)
  then have "pack_date (calendar (unat a)) < pack_date (calendar (unat b))" by (rule strict_monoD [OF pack_date_mono])
  then have "int (day_base a) + 100 \<le> int (day_base b)" using day_base_calendar ab assms(2) by simp
  then show ?thesis by linarith
qed

lemma next_serial_nat:
  assumes "unat days \<le> 848000"
  shows "unat (next_serial previous (ymd_from_unix_days days)) =
    (case previous of
       Some p \<Rightarrow> if unat p \<ge> day_base days then (if unat p < day_base days + 99 then unat p + 1 else unat p) else day_base days + 1
     | None \<Rightarrow> day_base days + 1)"
proof -
  let ?base = "saturating_mul (ymd_from_unix_days days) 100"
  note fits = day_base_fits [OF assms]
  have base: "unat ?base = day_base days"
    using fits by (simp add: saturating_mul_def day_base_def unat_word_ariths(2))
  have plus: "unat (?base + 1) = day_base days + 1" "unat (?base + 99) = day_base days + 99"
    using fits by (simp_all add: unat_word_ariths(1) base)
  have suc: "unat (p + 1) = unat p + 1" if "unat p < day_base days + 99" for p :: u32
    using fits that by (simp add: unat_word_ariths(1))
  show ?thesis
    by (auto simp: next_serial_def Let_def word_le_nat_alt word_less_nat_alt base plus suc split: option.split)
qed

fun serials :: "u32 option \<Rightarrow> u64 list \<Rightarrow> u32 list" where
  "serials previous [] = []"
| "serials previous (day # days) =
     (let serial = next_serial previous (ymd_from_unix_days day) in serial # serials (Some serial) days)"

lemma serials_grow:
  assumes "sorted days" and "\<forall>d \<in> set days. unat d \<le> 848000 \<and> count_list days d \<le> 99"
    and "days \<noteq> [] \<longrightarrow> (\<forall>p. previous = Some p \<longrightarrow> unat p + count_list days (hd days) \<le> day_base (hd days) + 99)"
  shows "sorted_wrt (<) (serials previous days) \<and> (\<forall>s \<in> set (serials previous days). \<forall>p. previous = Some p \<longrightarrow> p < s) \<and>
    length (serials previous days) = length days"
  using assms
proof (induction days arbitrary: previous)
  case (Cons day days)
  define serial where "serial = next_serial previous (ymd_from_unix_days day)"
  have small: "unat day \<le> 848000" "count_list (day # days) day \<le> 99" using Cons.prems(2) by auto
  note val = next_serial_nat [OF small(1), of previous, folded serial_def]
  have start: "previous = Some p \<Longrightarrow> unat p + count_list days day < day_base day + 99" for p using Cons.prems(3) by simp
  have up: "previous = Some p \<Longrightarrow> p < serial" for p
    using val start [of p] by (auto simp: word_less_nat_alt)
  have top: "unat serial + count_list days day \<le> day_base day + 99"
    using val start small(2) by (auto split: option.splits)
  have next_ok: "unat serial + count_list days (hd days) \<le> day_base (hd days) + 99" if "days \<noteq> []"
  proof (cases "hd days = day")
    case False
    from that have hd: "hd days \<in> set days" by simp
    then have less: "day < hd days" using False Cons.prems(1) by (auto simp: less_le)
    have "unat (hd days) \<le> 848000" "count_list days (hd days) \<le> 99" using Cons.prems(2) hd False by (auto split: if_splits)
    then show ?thesis using day_base_less [OF less] top by simp
  qed (use top in simp)
  have "sorted_wrt (<) (serials (Some serial) days) \<and> (\<forall>s \<in> set (serials (Some serial) days). serial < s) \<and>
      length (serials (Some serial) days) = length days"
    using Cons.IH [of "Some serial"] Cons.prems(1,2) next_ok by (force split: if_splits)
  then show ?case using up by (auto simp: Let_def serial_def [symmetric] dest: less_trans)
qed simp

text \<open>A secondary sees every edit. However edits fall on the days, in order and at most 99 to a day,
  each gets a serial larger than all before it and larger than the one the zone started from, unless
  that one already stood too far ahead in the counter of the first day. The dates stay below the year
  4292, where the serial still fits 32 bits.\<close>

lemma edits_raise_the_serial:
  assumes "sorted days" and "\<forall>d \<in> set days. unat d \<le> 848000 \<and> count_list days d \<le> 99"
    and "\<forall>p. previous = Some p \<longrightarrow> unat p + count_list days (hd days) \<le> unat (ymd_from_unix_days (hd days)) * 100 + 99"
  shows "sorted_wrt (<) ((case previous of None \<Rightarrow> [] | Some p \<Rightarrow> [p]) @ serials previous days)"
  using serials_grow [OF assms(1,2), of previous] assms(3) by (auto simp: day_base_def split: option.splits)

text \<open>The serial never goes back, and the counter of a day stops at 99.\<close>

lemma serial_never_back:
  "unat days \<le> 848000 \<Longrightarrow> p \<le> next_serial (Some p) (ymd_from_unix_days days)"
  by (auto simp: word_le_nat_alt next_serial_nat)

lemma serial_stuck:
  "unat days \<le> 848000 \<Longrightarrow> day_base days + 99 \<le> unat p \<Longrightarrow> next_serial (Some p) (ymd_from_unix_days days) = p"
  by (simp add: word_unat_eq_iff next_serial_nat)

end
