(* ===== verification/Tomlparse.thy ===== *)
theory Tomlparse
  imports Prelude
begin

text \<open>
  \<^verbatim>\<open>src/tomlparse.rs\<close>: what is kept of a TOML parser's error. The two parsers are crates; what one
  reports of a text it refuses, a byte span and a message, is an argument. The text is a Rust string, a
  sequence of Unicode scalar values kept as their UTF-8 octets.
\<close>

section \<open>Strings of the Rust standard library\<close>

type_synonym codepoint = nat

definition octet :: "nat \<Rightarrow> u8" where
  "octet n = of_nat n"

definition utf8_char :: "codepoint \<Rightarrow> u8 list" where
  "utf8_char c =
     (if c < 0x80 then [octet c]
      else if c < 0x800 then [octet (0xC0 + c div 0x40), octet (0x80 + c mod 0x40)]
      else if c < 0x10000 then [octet (0xE0 + c div 0x1000), octet (0x80 + c div 0x40 mod 0x40), octet (0x80 + c mod 0x40)]
      else [octet (0xF0 + c div 0x40000), octet (0x80 + c div 0x1000 mod 0x40), octet (0x80 + c div 0x40 mod 0x40), octet (0x80 + c mod 0x40)])"

definition utf8 :: "codepoint list \<Rightarrow> u8 list" where
  "utf8 cs = concat (map utf8_char cs)"

definition is_scalar :: "codepoint \<Rightarrow> bool" where
  "is_scalar c \<longleftrightarrow> c < 0xD800 \<or> 0xE000 \<le> c \<and> c < 0x110000"

definition is_continuation :: "u8 \<Rightarrow> bool" where
  "is_continuation b \<longleftrightarrow> 0x80 \<le> b \<and> b < 0xC0"

definition is_char_boundary :: "u8 list \<Rightarrow> nat \<Rightarrow> bool" where
  "is_char_boundary raw i \<longleftrightarrow> i = 0 \<or> i = length raw \<or> i < length raw \<and> \<not> is_continuation (raw ! i)"

definition chars_count :: "u8 list \<Rightarrow> nat" where
  "chars_count bs = length (filter (\<lambda>b. \<not> is_continuation b) bs)"

fun rfind :: "u8 \<Rightarrow> u8 list \<Rightarrow> nat option" where
  "rfind b [] = None"
| "rfind b (x # xs) = (case rfind b xs of Some i \<Rightarrow> Some (i + 1) | None \<Rightarrow> if x = b then Some 0 else None)"

section \<open>Operations\<close>

fun floor_boundary :: "u8 list \<Rightarrow> nat \<Rightarrow> nat" where
  "floor_boundary raw offset =
     (if offset > 0 \<and> \<not> is_char_boundary raw offset then floor_boundary raw (offset - 1) else offset)"

declare floor_boundary.simps [simp del]

definition position_of :: "u8 list \<Rightarrow> nat \<Rightarrow> nat \<times> nat" where
  "position_of raw offset =
     (let offset = floor_boundary raw (min offset (length raw));
          head = take offset raw;
          line_start = (case rfind 10 head of None \<Rightarrow> 0 | Some newline \<Rightarrow> newline + 1);
          line = count_list (take line_start head) 10 + 1;
          column = chars_count (drop line_start head) + 1
      in (line, column))"

record parse_error =
  pe_position :: "(nat \<times> nat) option"
  pe_message :: string

definition parse_error_new :: "u8 list \<Rightarrow> (nat \<times> nat) option \<Rightarrow> string \<Rightarrow> parse_error" where
  "parse_error_new raw span message = \<lparr>pe_position = map_option (\<lambda>s. position_of raw (fst s)) span, pe_message = message\<rparr>"

definition error_line :: "parse_error \<Rightarrow> nat option" where
  "error_line e = map_option fst (pe_position e)"

definition error_column :: "parse_error \<Rightarrow> nat option" where
  "error_column e = map_option snd (pe_position e)"

definition parse_error_display :: "(nat \<Rightarrow> string) \<Rightarrow> parse_error \<Rightarrow> string" where
  "parse_error_display digits e = (case pe_position e of
       Some (l, c) \<Rightarrow> ''TOML parse error at line '' @ digits l @ '', column '' @ digits c @ '': '' @ pe_message e
     | None \<Rightarrow> pe_message e)"

text \<open>Both entry points, over what the parser of the crate answers for a text.\<close>

definition parse_document :: "(u8 list \<Rightarrow> ((nat \<times> nat) option \<times> string) + 'd) \<Rightarrow> u8 list \<Rightarrow> parse_error + 'd" where
  "parse_document parser raw = (case parser raw of Inr d \<Rightarrow> Inr d | Inl (span, message) \<Rightarrow> Inl (parse_error_new raw span message))"

section \<open>Characters and octets\<close>

lemma unat_octet [simp]: "n < 256 \<Longrightarrow> unat (octet n) = n"
  by (simp add: octet_def unat_of_nat)

lemma is_continuation_unat: "is_continuation b \<longleftrightarrow> 0x80 \<le> unat b \<and> unat b < 0xC0"
  by (simp add: is_continuation_def word_le_nat_alt word_less_nat_alt)

lemma utf8_char_shape:
  assumes "is_scalar c"
  obtains b bs where "utf8_char c = b # bs" "\<not> is_continuation b" "\<forall>x \<in> set bs. is_continuation x"
    "b = 10 \<longleftrightarrow> c = 10" "c = 10 \<longrightarrow> bs = []"
proof -
  have c: "c < 0x110000" using assms by (auto simp: is_scalar_def)
  define b bs where "b = hd (utf8_char c)" and "bs = tl (utf8_char c)"
  have cons: "utf8_char c = b # bs" by (simp add: b_def bs_def utf8_char_def)
  have lead: "unat b < 0x80 \<or> 0xC0 \<le> unat b" "b = 10 \<longleftrightarrow> c = 10"
    using c by (auto simp: b_def utf8_char_def word_unat_eq_iff)
  moreover have "\<forall>x \<in> set bs. is_continuation x"
    by (simp add: bs_def utf8_char_def is_continuation_unat)
  moreover have "bs = []" if "c = 10" using that by (simp add: bs_def utf8_char_def)
  moreover have "\<not> is_continuation b" using lead(1) by (auto simp: is_continuation_unat)
  ultimately show ?thesis using that cons by blast
qed

lemma utf8_simps [simp]: "utf8 [] = []" "utf8 (c # cs) = utf8_char c @ utf8 cs" "utf8 (cs @ ds) = utf8 cs @ utf8 ds"
  by (simp_all add: utf8_def)

lemma rfind_append: "rfind b (xs @ ys) = (case rfind b ys of Some i \<Rightarrow> Some (length xs + i) | None \<Rightarrow> rfind b xs)"
  by (induction xs) (auto split: option.splits)

lemma rfind_None: "rfind b xs = None \<longleftrightarrow> b \<notin> set xs"
  by (induction xs) (auto split: option.splits)

lemma rfind_Some: "rfind b xs = Some i \<Longrightarrow> i < length xs \<and> b \<notin> set (drop (i + 1) xs)"
  by (induction xs arbitrary: i) (auto simp: rfind_None split: option.splits if_splits)

lemma not_continuation_newline: "\<not> is_continuation 10"
  by (simp add: is_continuation_unat)

section \<open>Positions\<close>

fun advance :: "codepoint \<Rightarrow> nat \<times> nat \<Rightarrow> nat \<times> nat" where
  "advance c (l, k) = (if c = 10 then (l + 1, 1) else (l, k + 1))"

definition line_start :: "u8 list \<Rightarrow> nat" where
  "line_start head = (case rfind 10 head of None \<Rightarrow> 0 | Some newline \<Rightarrow> newline + 1)"

definition head_position :: "u8 list \<Rightarrow> nat \<times> nat" where
  "head_position head = (count_list (take (line_start head) head) 10 + 1, chars_count (drop (line_start head) head) + 1)"

lemma position_head: "position_of raw offset = head_position (take (floor_boundary raw (min offset (length raw))) raw)"
  by (simp add: position_of_def head_position_def line_start_def Let_def)

lemma line_start_le: "line_start head \<le> length head"
  using rfind_Some [of 10 head] by (auto simp: line_start_def split: option.splits)

lemma newlines_before: "count_list (take (line_start head) head) 10 = count_list head 10"
proof -
  have "10 \<notin> set (drop (line_start head) head)"
    using rfind_Some [of 10 head] by (auto simp: line_start_def rfind_None split: option.splits)
  then have "count_list (drop (line_start head) head) 10 = 0" by (simp add: count_list_0_iff)
  then show ?thesis by (metis add.right_neutral append_take_drop_id count_list_append)
qed

lemma head_position_char:
  assumes "is_scalar c"
  shows "head_position (head @ utf8_char c) = advance c (head_position head)"
proof -
  obtain b bs where u: "utf8_char c = b # bs" "\<not> is_continuation b" "\<forall>x \<in> set bs. is_continuation x"
    "b = 10 \<longleftrightarrow> c = 10" "c = 10 \<longrightarrow> bs = []" by (rule utf8_char_shape [OF assms])
  show ?thesis
  proof (cases "c = 10")
    case True
    then have "utf8_char c = [10]" using u by simp
    moreover have "line_start (head @ [10]) = length head + 1" by (simp add: line_start_def rfind_append)
    ultimately show ?thesis using True by (simp add: head_position_def newlines_before chars_count_def)
  next
    case False
    then have "10 \<notin> set (b # bs)" using u not_continuation_newline by auto
    then have "line_start (head @ b # bs) = line_start head" unfolding line_start_def rfind_append using rfind_None [of 10 "b # bs"] by simp
    moreover have "chars_count (b # bs) = 1" using u(2,3) by (simp add: chars_count_def filter_empty_conv)
    ultimately show ?thesis using False line_start_le [of head] by (simp add: head_position_def u(1) chars_count_def)
  qed
qed

lemma head_position_utf8: "\<forall>c \<in> set cs. is_scalar c \<Longrightarrow> head_position (utf8 cs) = fold advance cs (1, 1)"
proof (induction cs rule: rev_induct)
  case Nil
  show ?case by (simp add: head_position_def chars_count_def)
next
  case (snoc c cs)
  then show ?case using head_position_char [of c "utf8 cs"] by simp
qed

lemma floor_boundary_back:
  assumes "is_char_boundary raw k" and "k \<le> n" and "\<forall>i. k < i \<and> i \<le> n \<longrightarrow> \<not> is_char_boundary raw i"
  shows "floor_boundary raw n = k"
  using assms(2,3)
proof (induction n)
  case (Suc n)
  show ?case
  proof (cases "k = Suc n")
    case False
    then have "\<not> is_char_boundary raw (Suc n)" "k \<le> n" using Suc.prems by auto
    then show ?thesis using Suc by (simp add: floor_boundary.simps [of raw "Suc n"])
  qed (use assms(1) in \<open>simp add: floor_boundary.simps [of raw "Suc n"]\<close>)
qed (simp add: floor_boundary.simps)

lemma floor_boundary_utf8:
  assumes "\<forall>c \<in> set (ps @ qs). is_scalar c" and "length (utf8 ps) \<le> offset"
    and "qs = [] \<or> offset < length (utf8 (ps @ [hd qs]))"
  shows "floor_boundary (utf8 (ps @ qs)) (min offset (length (utf8 (ps @ qs)))) = length (utf8 ps)"
proof (cases qs)
  case Nil
  then show ?thesis using assms(2) by (intro floor_boundary_back) (auto simp: is_char_boundary_def)
next
  case (Cons q qs')
  obtain b bs where u: "utf8_char q = b # bs" "\<not> is_continuation b" "\<forall>x \<in> set bs. is_continuation x"
    by (rule utf8_char_shape [of q]) (use assms(1) Cons in auto)
  have off: "offset \<le> length (utf8 ps) + length bs" using assms(3) Cons u(1) by simp
  show ?thesis
  proof (rule floor_boundary_back)
    show "is_char_boundary (utf8 (ps @ qs)) (length (utf8 ps))" using Cons u by (simp add: is_char_boundary_def nth_append)
    show "\<forall>i. length (utf8 ps) < i \<and> i \<le> min offset (length (utf8 (ps @ qs))) \<longrightarrow> \<not> is_char_boundary (utf8 (ps @ qs)) i"
    proof (intro allI impI)
      fix i assume i: "length (utf8 ps) < i \<and> i \<le> min offset (length (utf8 (ps @ qs)))"
      then obtain j where j: "i = length (utf8 ps) + Suc j" by (metis less_iff_Suc_add add_Suc_right)
      with i off have "j < length bs" by simp
      then have "utf8 (ps @ qs) ! i \<in> set bs" "i < length (utf8 (ps @ qs))" using j Cons u(1) by (simp_all add: nth_append)
      then show "\<not> is_char_boundary (utf8 (ps @ qs)) i" using u(3) j by (auto simp: is_char_boundary_def)
    qed
  qed (use assms(2) in simp)
qed

text \<open>The position of a parse error is the one an editor shows: for any text and any byte offset, also one past
  its end or inside a character, the line and column reached by reading the characters that end at or
  before the offset one at a time.\<close>

lemma position_utf8:
  assumes "\<forall>c \<in> set (ps @ qs). is_scalar c" and "length (utf8 ps) \<le> offset"
    and "qs = [] \<or> offset < length (utf8 (ps @ [hd qs]))"
  shows "position_of (utf8 (ps @ qs)) offset = fold advance ps (1, 1)"
  using head_position_utf8 [of ps] assms(1) unfolding position_head floor_boundary_utf8 [OF assms] by simp

lemma fold_advance: "fold advance ps (1, 1) = (count_list ps 10 + 1, length (takeWhile (\<lambda>c. c \<noteq> 10) (rev ps)) + 1)"
  by (induction ps rule: rev_induct) simp_all

text \<open>C33: what is shown for a broken config file is the parser's own message and two numbers. For any text and any
  byte offset the parser names, inside a character or past the end too, the message stands behind the line and
  the column of the last character that ends at or before the offset, as an editor counts them; without an
  offset it stands alone. Of the file's text only these two counts enter, so the source line that the crates
  print is gone. What a parser puts into its message is its own: serde may quote a key or a scalar there.\<close>

theorem parse_error_shows_position:
  assumes "\<forall>c \<in> set (ps @ qs). is_scalar c" and "parser (utf8 (ps @ qs)) = Inl (span, message)"
    and "\<forall>s \<in> set_option span. length (utf8 ps) \<le> fst s \<and> (qs = [] \<or> fst s < length (utf8 (ps @ [hd qs])))"
  shows "\<exists>e. parse_document parser (utf8 (ps @ qs)) = Inl e \<and>
     (let line = count_list ps 10 + 1; column = length (takeWhile (\<lambda>c. c \<noteq> 10) (rev ps)) + 1 in
      error_line e = map_option (\<lambda>_. line) span \<and> error_column e = map_option (\<lambda>_. column) span \<and>
      parse_error_display digits e = (case span of None \<Rightarrow> message
        | Some _ \<Rightarrow> ''TOML parse error at line '' @ digits line @ '', column '' @ digits column @ '': '' @ message))"
proof (cases span)
  case None
  then show ?thesis
    using assms(2) by (simp add: parse_document_def parse_error_new_def error_line_def error_column_def parse_error_display_def)
next
  case (Some s)
  then have "position_of (utf8 (ps @ qs)) (fst s) = fold advance ps (1, 1)" using assms(1,3) by (intro position_utf8) auto
  then show ?thesis
    using assms(2) Some unfolding fold_advance
    by (simp add: parse_document_def parse_error_new_def error_line_def error_column_def parse_error_display_def Let_def)
qed

theorem parse_error_shows_position_witness:
  "\<exists>e. parse_document (\<lambda>_. Inl (Some (4, 5), ''bad'')) (utf8 ([61, 10, 233] @ [115, 51])) = Inl e \<and>
     parse_error_display (\<lambda>n. replicate n CHR ''i'') e = ''TOML parse error at line ii, column ii: bad''"
  using parse_error_shows_position [of "[61, 10, 233]" "[115, 51]" "\<lambda>_. Inl (Some (4, 5), ''bad'')" "Some (4, 5)" "''bad''"
      "\<lambda>n. replicate n CHR ''i''"]
  by (auto simp: is_scalar_def utf8_char_def Let_def numeral_2_eq_2)

end
