(* ===== verification/Editor.thy ===== *)
theory Editor
  imports Rdata Config
begin

text \<open>
  \<^verbatim>\<open>src/editor.rs\<close>: edits of the record sets of a config file, and the replacement of the file on
  disk. The document is kept as what the editor reads of it: the keys of \<^verbatim>\<open>[zone]\<close> it touches and the
  four keys of each \<^verbatim>\<open>[[zone.records]]\<close> table, each absent or holding a value of some TOML type. The
  comments and layout a document keeps, and the parse and rendering of the text, belong to a crate.
  Configuration text is ASCII, and the display form of a record type is an argument.
\<close>

section \<open>Data\<close>

datatype toml = T_String string | T_Integer int | T_Array "toml list" | T_Other

record table =
  t_name :: "toml option"
  t_type :: "toml option"
  t_ttl :: "toml option"
  t_values :: "toml option"

datatype records_item = Records_Tables "table list" | Records_Other
datatype soa_item = Soa_Table "toml option" | Soa_Other

record zone_table =
  zt_origin :: "toml option"
  zt_soa :: "soa_item option"
  zt_records :: "records_item option"

datatype zone_item = Zone_Table zone_table | Zone_Other

type_synonym document = "zone_item option"

record record_entry =
  en_name :: string
  en_type :: string
  en_ttl :: "u32 option"
  en_values :: "string list"

datatype change = Created | Extended | Replaced | Removed | Unchanged

datatype edit_error =
    UnknownType string
  | NoValues
  | InvalidValue value_error
  | ZoneNotTable
  | SoaNotTable
  | RecordsNotTables
  | ValuesNotArray

definition empty_zone :: zone_table where
  "empty_zone = \<lparr>zt_origin = None, zt_soa = None, zt_records = None\<rparr>"

section \<open>Reading\<close>

fun as_str :: "toml \<Rightarrow> string option" where
  "as_str (T_String s) = Some s"
| "as_str _ = None"

fun as_integer :: "toml \<Rightarrow> int option" where
  "as_integer (T_Integer i) = Some i"
| "as_integer _ = None"

fun as_array :: "toml \<Rightarrow> toml list option" where
  "as_array (T_Array vs) = Some vs"
| "as_array _ = None"

definition u32_try_from :: "int \<Rightarrow> u32 option" where
  "u32_try_from i = (if 0 \<le> i \<and> i < 2 ^ 32 then Some (of_int i) else None)"

definition ascii_lower :: "char \<Rightarrow> char" where
  "ascii_lower c = (if 65 \<le> (of_char c :: nat) \<and> (of_char c :: nat) \<le> 90
     then char_of ((of_char c :: nat) + 32) else c)"

definition to_lowercase :: "string \<Rightarrow> string" where
  "to_lowercase s = map ascii_lower s"

definition normalise_name :: "string \<Rightarrow> string" where
  "normalise_name n = (let trimmed = trim n in if trimmed = [] then ''@'' else to_lowercase trimmed)"

definition normalise_type :: "hickory \<Rightarrow> string \<Rightarrow> edit_error + rtype" where
  "normalise_type E ty = ok_or (UnknownType ty) (rtype_from_str E (to_uppercase (trim ty)))"

definition array_values :: "toml list \<Rightarrow> string list" where
  "array_values vs = List.map_filter as_str vs"

definition build_array :: "string list \<Rightarrow> toml list" where
  "build_array vs = map T_String vs"

definition name_of :: "table \<Rightarrow> string" where
  "name_of t = normalise_name (unwrap_or ''@'' (Option.bind (t_name t) as_str))"

definition matches :: "table \<Rightarrow> string \<Rightarrow> string \<Rightarrow> bool" where
  "matches t n ty \<longleftrightarrow> name_of t = n \<and> map_option to_uppercase (Option.bind (t_type t) as_str) = Some ty"

definition ttl_of :: "table \<Rightarrow> u32 option" where
  "ttl_of t = Option.bind (Option.bind (t_ttl t) as_integer) u32_try_from"

definition set_ttl :: "u32 option \<Rightarrow> table \<Rightarrow> table" where
  "set_ttl ttl t = t\<lparr>t_ttl := map_option (\<lambda>v. T_Integer (uint v)) ttl\<rparr>"

definition value_array :: "table \<Rightarrow> edit_error + toml list" where
  "value_array t = (case t_values t of None \<Rightarrow> Inr [] | Some v \<Rightarrow> ok_or ValuesNotArray (as_array v))"

definition entry_of :: "table \<Rightarrow> record_entry" where
  "entry_of t = \<lparr>en_name = unwrap_or ''@'' (Option.bind (t_name t) as_str),
     en_type = to_uppercase (unwrap_or [] (Option.bind (t_type t) as_str)),
     en_ttl = ttl_of t,
     en_values = unwrap_or [] (map_option array_values (Option.bind (t_values t) as_array))\<rparr>"

definition existing_records :: "document \<Rightarrow> table list option" where
  "existing_records d = (case d of
       Some (Zone_Table z) \<Rightarrow> (case zt_records z of Some (Records_Tables ts) \<Rightarrow> Some ts | _ \<Rightarrow> None)
     | _ \<Rightarrow> None)"

definition records :: "document \<Rightarrow> record_entry list" where
  "records d = (case existing_records d of None \<Rightarrow> [] | Some ts \<Rightarrow> map entry_of ts)"

definition origin_of :: "document \<Rightarrow> string option" where
  "origin_of d = (case d of Some (Zone_Table z) \<Rightarrow> Option.bind (zt_origin z) as_str | _ \<Rightarrow> None)"

definition serial_of :: "document \<Rightarrow> u32 option" where
  "serial_of d = (case d of
       Some (Zone_Table z) \<Rightarrow> (case zt_soa z of
           Some (Soa_Table s) \<Rightarrow> Option.bind (Option.bind s as_integer) u32_try_from
         | _ \<Rightarrow> None)
     | _ \<Rightarrow> None)"

section \<open>Editing\<close>

definition zone_mut :: "document \<Rightarrow> edit_error + zone_table" where
  "zone_mut d = (case d of None \<Rightarrow> Inr empty_zone | Some (Zone_Table z) \<Rightarrow> Inr z | Some Zone_Other \<Rightarrow> Inl ZoneNotTable)"

definition records_mut :: "document \<Rightarrow> edit_error + (zone_table \<times> table list)" where
  "records_mut d =
     rbind (zone_mut d) (\<lambda>z.
     case zt_records z of
       None \<Rightarrow> Inr (z, [])
     | Some (Records_Tables ts) \<Rightarrow> Inr (z, ts)
     | Some Records_Other \<Rightarrow> Inl RecordsNotTables)"

definition put_records :: "zone_table \<Rightarrow> table list \<Rightarrow> document" where
  "put_records z ts = Some (Zone_Table (z\<lparr>zt_records := Some (Records_Tables ts)\<rparr>))"

definition validate_value :: "hickory \<Rightarrow> rtype \<Rightarrow> string \<Rightarrow> string \<Rightarrow> edit_error + unit" where
  "validate_value E rt owner value =
     (case parse_value E rt owner value of Inr _ \<Rightarrow> Inr () | Inl e \<Rightarrow> Inl (InvalidValue e))"

fun validate_all :: "hickory \<Rightarrow> rtype \<Rightarrow> string \<Rightarrow> string list \<Rightarrow> edit_error + unit" where
  "validate_all E rt owner [] = Inr ()"
| "validate_all E rt owner (v # vs) = rbind (validate_value E rt owner v) (\<lambda>_. validate_all E rt owner vs)"

fun split_first :: "('a \<Rightarrow> bool) \<Rightarrow> 'a list \<Rightarrow> ('a list \<times> 'a \<times> 'a list) option" where
  "split_first p [] = None"
| "split_first p (x # xs) =
     (if p x then Some ([], x, xs) else map_option (\<lambda>(a, y, b). (x # a, y, b)) (split_first p xs))"

text \<open>What \<^verbatim>\<open>add\<close> does to the record set it found.\<close>

definition edit_table :: "string list \<Rightarrow> u32 option \<Rightarrow> bool \<Rightarrow> table \<Rightarrow> edit_error + (change \<times> table)" where
  "edit_table vals ttl replace t =
     (let current_ttl = ttl_of t in
      rbind (value_array t) (\<lambda>array.
      let t = t\<lparr>t_values := Some (T_Array array)\<rparr>; current_values = array_values array in
      if replace then
        (if current_values = vals \<and> current_ttl = ttl then Inr (Unchanged, t)
         else Inr (Replaced, set_ttl ttl (t\<lparr>t_values := Some (T_Array (build_array vals))\<rparr>)))
      else
        (let missing = filter (\<lambda>v. v \<notin> set current_values) vals;
             rettl = (ttl \<noteq> None \<and> current_ttl \<noteq> ttl)
         in if missing = [] \<and> \<not> rettl then Inr (Unchanged, t)
            else (let t = t\<lparr>t_values := Some (T_Array (array @ build_array missing))\<rparr>
                  in Inr (Extended, if rettl then set_ttl ttl t else t)))))"

definition new_table :: "string \<Rightarrow> string \<Rightarrow> string list \<Rightarrow> u32 option \<Rightarrow> table" where
  "new_table n ty vals ttl = \<lparr>t_name = Some (T_String n), t_type = Some (T_String ty),
     t_ttl = map_option (\<lambda>v. T_Integer (uint v)) ttl, t_values = Some (T_Array (build_array vals))\<rparr>"

definition add :: "hickory \<Rightarrow> (rtype \<Rightarrow> string) \<Rightarrow> string \<Rightarrow> string \<Rightarrow> string list \<Rightarrow> u32 option \<Rightarrow> bool \<Rightarrow> document
    \<Rightarrow> edit_error + (change \<times> document)" where
  "add E display n ty vals ttl replace d =
     rbind (normalise_type E ty) (\<lambda>rt.
     let n = normalise_name n in
     if vals = [] then Inl NoValues else
     rbind (validate_all E rt n vals) (\<lambda>_.
     rbind (records_mut d) (\<lambda>(z, ts).
     case split_first (\<lambda>t. matches t n (display rt)) ts of
       Some (pre, t, post) \<Rightarrow>
         rbind (edit_table vals ttl replace t) (\<lambda>(c, t). Inr (c, put_records z (pre @ t # post)))
     | None \<Rightarrow> Inr (Created, put_records z (ts @ [new_table n (display rt) vals ttl])))))"

text \<open>One table of \<^verbatim>\<open>remove\<close>: whether it changed, and what is left of it.\<close>

definition remove_from :: "string \<Rightarrow> string option \<Rightarrow> string list \<Rightarrow> table \<Rightarrow> edit_error + (bool \<times> table option)" where
  "remove_from n ty vals t =
     (let type_matches = (case ty of Some ty \<Rightarrow> matches t n ty | None \<Rightarrow> name_of t = n) in
      if \<not> type_matches then Inr (False, Some t)
      else if vals = [] then Inr (True, None)
      else rbind (value_array t) (\<lambda>array.
        let t = t\<lparr>t_values := Some (T_Array array)\<rparr>;
            before = array_values array;
            kept = filter (\<lambda>v. v \<notin> set vals) before
        in if length kept = length before then Inr (False, Some t)
           else if kept = [] then Inr (True, None)
           else Inr (True, Some (t\<lparr>t_values := Some (T_Array (build_array kept))\<rparr>))))"

definition remove :: "hickory \<Rightarrow> (rtype \<Rightarrow> string) \<Rightarrow> string \<Rightarrow> string option \<Rightarrow> string list \<Rightarrow> document
    \<Rightarrow> edit_error + (change \<times> document)" where
  "remove E display n ty vals d =
     (let n = normalise_name n in
      rbind (case ty of None \<Rightarrow> Inr None | Some ty \<Rightarrow> rbind (normalise_type E ty) (\<lambda>rt. Inr (Some (display rt)))) (\<lambda>wanted.
      case existing_records d of
        None \<Rightarrow> Inr (Unchanged, d)
      | Some ts \<Rightarrow>
          rbind (zone_mut d) (\<lambda>z.
          rbind (rmap (remove_from n wanted vals) ts) (\<lambda>rs.
          Inr (if \<exists>r \<in> set rs. fst r then Removed else Unchanged, put_records z (List.map_filter snd rs))))))"

definition set_serial :: "u32 \<Rightarrow> document \<Rightarrow> edit_error + document" where
  "set_serial number d =
     rbind (zone_mut d) (\<lambda>z.
     case zt_soa z of
       Some Soa_Other \<Rightarrow> Inl SoaNotTable
     | _ \<Rightarrow> Inr (Some (Zone_Table (z\<lparr>zt_soa := Some (Soa_Table (Some (T_Integer (uint number))))\<rparr>))))"

section \<open>Normal forms\<close>

lemma ascii_lower_whitespace: "is_whitespace (ascii_lower c) \<longleftrightarrow> is_whitespace c"
proof (cases "65 \<le> (of_char c :: nat) \<and> (of_char c :: nat) \<le> 90")
  case True
  then have "(of_char (ascii_lower c) :: nat) = of_char c + 32" by (simp add: ascii_lower_def)
  then have "ascii_lower c \<notin> {CHR 0x09, CHR 0x0A, CHR 0x0B, CHR 0x0C, CHR 0x0D, CHR 0x20}" using True by auto
  moreover have "c \<notin> {CHR 0x09, CHR 0x0A, CHR 0x0B, CHR 0x0C, CHR 0x0D, CHR 0x20}" using True by auto
  ultimately show ?thesis by (simp add: is_whitespace_def)
qed (auto simp: ascii_lower_def)

lemma ascii_lower_idem: "ascii_lower (ascii_lower c) = ascii_lower c"
  by (auto simp: ascii_lower_def)

lemma dropWhile_lower: "dropWhile is_whitespace (map ascii_lower s) = map ascii_lower (dropWhile is_whitespace s)"
  by (induction s) (simp_all add: ascii_lower_whitespace)

lemma trim_lower: "trim (to_lowercase s) = to_lowercase (trim s)"
  by (simp add: trim_def trim_start_def to_lowercase_def dropWhile_lower rev_map)

lemma normalise_name_idem [simp]: "normalise_name (normalise_name n) = normalise_name n"
proof (cases "trim n = []")
  case True
  then show ?thesis by (simp add: normalise_name_def trim_def trim_start_def is_whitespace_def to_lowercase_def ascii_lower_def)
next
  case False
  then show ?thesis
    by (simp add: normalise_name_def trim_lower trim_idem) (simp add: to_lowercase_def ascii_lower_idem)
qed

section \<open>What an edit does\<close>

lemma u32_round_trip [simp]: "u32_try_from (uint v) = Some v"
  using uint_lt2p [of v] by (simp add: u32_try_from_def)

lemma array_values_build [simp]: "array_values (build_array vs) = vs" "array_values (a @ b) = array_values a @ array_values b"
  by (simp_all add: array_values_def build_array_def map_filter_def comp_def)

lemma ttl_set [simp]: "ttl_of (set_ttl ttl t) = ttl"
  by (cases ttl) (simp_all add: ttl_of_def set_ttl_def)

lemma split_first_Some:
  "split_first p xs = Some (a, y, b) \<Longrightarrow> xs = a @ y # b \<and> p y \<and> (\<forall>x \<in> set a. \<not> p x)"
  by (induction xs arbitrary: a) (auto split: if_splits)

lemma split_first_None: "split_first p xs = None \<longleftrightarrow> (\<forall>x \<in> set xs. \<not> p x)"
  by (induction xs) auto

lemma split_first_append: "\<forall>x \<in> set a. \<not> p x \<Longrightarrow> p y \<Longrightarrow> split_first p (a @ y # b) = Some (a, y, b)"
  by (induction a) auto

lemma matches_update [simp]:
  "matches (t\<lparr>t_values := v\<rparr>) n ty = matches t n ty" "matches (set_ttl ttl t) n ty = matches t n ty"
  by (simp_all add: matches_def name_of_def set_ttl_def)

lemma matches_new: "to_uppercase ty = ty \<Longrightarrow> matches (new_table (normalise_name n) ty vs ttl) (normalise_name n) ty"
  by (simp add: matches_def name_of_def new_table_def)

text \<open>The values and TTL of a record set, and that an edit of a table is the edit the caller asked for.\<close>

definition table_values :: "table \<Rightarrow> string list" where
  "table_values t = en_values (entry_of t)"

lemma value_array_values: "value_array t = Inr a \<Longrightarrow> array_values a = table_values t"
  by (auto simp: value_array_def table_values_def entry_of_def ok_or_eq_Inr array_values_def map_filter_def split: option.splits)

definition asked_for :: "string list \<Rightarrow> u32 option \<Rightarrow> bool \<Rightarrow> table \<Rightarrow> change \<Rightarrow> table \<Rightarrow> bool" where
  "asked_for vals ttl replace t c t' \<longleftrightarrow>
     en_name (entry_of t') = en_name (entry_of t) \<and> en_type (entry_of t') = en_type (entry_of t) \<and>
     table_values t' = (if replace then vals else table_values t @ filter (\<lambda>v. v \<notin> set (table_values t)) vals) \<and>
     ttl_of t' = (if replace \<or> ttl \<noteq> None then ttl else ttl_of t) \<and>
     (c = Unchanged \<longleftrightarrow> entry_of t' = entry_of t) \<and> c \<in> {Extended, Replaced, Unchanged}"

lemma entry_values [simp]: "table_values (t\<lparr>t_values := Some (T_Array a)\<rparr>) = array_values a"
  "table_values (set_ttl ttl t) = table_values t"
  by (simp_all add: table_values_def entry_of_def set_ttl_def)

lemma entry_eq:
  "entry_of t' = entry_of t \<longleftrightarrow> en_name (entry_of t') = en_name (entry_of t) \<and> en_type (entry_of t') = en_type (entry_of t) \<and>
     ttl_of t' = ttl_of t \<and> table_values t' = table_values t"
  by (auto simp: table_values_def entry_of_def)

lemma edit_table_frame:
  "edit_table vals ttl replace t = Inr (c, t') \<Longrightarrow> t_name t' = t_name t \<and> t_type t' = t_type t"
  by (auto simp: edit_table_def Let_def rbind_eq_Inr set_ttl_def split: if_splits)

lemma edit_table_asked:
  assumes "edit_table vals ttl replace t = Inr (c, t')"
  shows "asked_for vals ttl replace t c t'"
proof -
  from assms obtain a where a: "value_array t = Inr a" by (auto simp: edit_table_def rbind_eq_Inr Let_def)
  note v = value_array_values [OF a]
  have nt: "en_name (entry_of t') = en_name (entry_of t)" "en_type (entry_of t') = en_type (entry_of t)"
    using edit_table_frame [OF assms] by (simp_all add: entry_of_def)
  have ttl_values: "ttl_of (t\<lparr>t_values := x\<rparr>) = ttl_of t" for x by (simp add: ttl_of_def)
  show ?thesis
    using assms a v nt unfolding asked_for_def entry_eq
    by (auto simp: edit_table_def Let_def rbind_eq_Inr ttl_values filter_empty_conv split: if_splits)
qed

lemma existing_put [simp]: "existing_records (put_records z ts) = Some ts"
  by (simp add: existing_records_def put_records_def)

lemma records_mut_Inr:
  assumes "records_mut d = Inr (z, ts)"
  shows "zone_mut d = Inr z \<and> ts = unwrap_or [] (existing_records d)"
proof -
  from assms obtain a where a: "zone_mut d = Inr a" by (auto simp: records_mut_def rbind_eq_Inr)
  with assms have "a = z" "zt_records z = None \<and> ts = [] \<or> zt_records z = Some (Records_Tables ts)"
    by (auto simp: records_mut_def split: option.splits records_item.splits)
  with a show ?thesis by (auto simp: zone_mut_def existing_records_def empty_zone_def split: option.splits zone_item.splits)
qed

lemma put_keeps: "zone_mut d = Inr z \<Longrightarrow> origin_of (put_records z ts) = origin_of d \<and> serial_of (put_records z ts) = serial_of d"
  by (auto simp: zone_mut_def put_records_def origin_of_def serial_of_def empty_zone_def split: option.splits zone_item.splits)

lemma validate_all_Inr: "validate_all E rt ow vs = Inr u \<longleftrightarrow> (\<forall>v \<in> set vs. \<exists>rd. parse_value E rt ow v = Inr rd)"
  by (induction vs) (auto simp: validate_value_def rbind_eq_Inr split: sum.splits)

lemma add_Inr:
  assumes "add E display n ty vals ttl replace d = Inr (c, d')"
  obtains rt z ts where "normalise_type E ty = Inr rt" "vals \<noteq> []" "validate_all E rt (normalise_name n) vals = Inr ()"
    "records_mut d = Inr (z, ts)"
    "(case split_first (\<lambda>t. matches t (normalise_name n) (display rt)) ts of
        Some (pre, t, post) \<Rightarrow> rbind (edit_table vals ttl replace t) (\<lambda>(c, t). Inr (c, put_records z (pre @ t # post)))
      | None \<Rightarrow> Inr (Created, put_records z (ts @ [new_table (normalise_name n) (display rt) vals ttl]))) = Inr (c, d')"
  using assms by (auto simp: add_def rbind_eq_Inr Let_def split: if_splits)

text \<open>C40: adding to a record set does what was asked and nothing else. Every value it writes passed the
  value gate for its type. The first table of the name and type keeps its place and gets the new values,
  in place of the old ones or after them without those it had, and the TTL when one is given; with no
  such table one is appended. Every other table, the origin and the serial stay as they were, and
  Unchanged is reported exactly when the record set reads as before.\<close>

theorem add_edits_one_set:
  assumes "add E display n ty vals ttl replace d = Inr (c, d')" and "normalise_type E ty = Inr rt"
  shows "let ts = unwrap_or [] (existing_records d); hit = (\<lambda>t. matches t (normalise_name n) (display rt)) in
     (\<forall>v \<in> set vals. \<exists>rd. parse_value E rt (normalise_name n) v = Inr rd) \<and>
     origin_of d' = origin_of d \<and> serial_of d' = serial_of d \<and>
     ((\<exists>pre t t' post. ts = pre @ t # post \<and> hit t \<and> \<not> (\<exists>x \<in> set pre. hit x) \<and>
        existing_records d' = Some (pre @ t' # post) \<and> asked_for vals ttl replace t c t') \<or>
      c = Created \<and> \<not> (\<exists>x \<in> set ts. hit x) \<and>
        existing_records d' = Some (ts @ [new_table (normalise_name n) (display rt) vals ttl]))"
proof (rule add_Inr [OF assms(1)])
  fix rt' z ts
  let ?hit = "\<lambda>t. matches t (normalise_name n) (display rt)"
  assume r: "normalise_type E ty = Inr rt'" and v: "validate_all E rt' (normalise_name n) vals = Inr ()"
    and m: "records_mut d = Inr (z, ts)"
    and e: "(case split_first (\<lambda>t. matches t (normalise_name n) (display rt')) ts of
        Some (pre, t, post) \<Rightarrow> rbind (edit_table vals ttl replace t) (\<lambda>(c, t). Inr (c, put_records z (pre @ t # post)))
      | None \<Rightarrow> Inr (Created, put_records z (ts @ [new_table (normalise_name n) (display rt') vals ttl]))) = Inr (c, d')"
  have rt: "rt' = rt" using r assms(2) by simp
  note ts = records_mut_Inr [OF m]
  show ?thesis
  proof (cases "split_first ?hit ts")
    case None
    then have "c = Created" "d' = put_records z (ts @ [new_table (normalise_name n) (display rt) vals ttl])"
      using e unfolding rt by simp_all
    then show ?thesis using None v ts put_keeps [of d z] unfolding rt by (simp add: split_first_None validate_all_Inr Let_def)
  next
    case (Some x)
    obtain pre t post where x: "x = (pre, t, post)" by (metis prod_cases3)
    from e Some x obtain t' where t': "edit_table vals ttl replace t = Inr (c, t')" "d' = put_records z (pre @ t' # post)"
      unfolding rt by (auto simp: rbind_eq_Inr)
    have "ts = pre @ t # post \<and> ?hit t \<and> \<not> (\<exists>x \<in> set pre. ?hit x)" using split_first_Some [of ?hit ts] Some x by blast
    then show ?thesis using t' edit_table_asked [OF t'(1)] v ts put_keeps [of d z] unfolding rt
      by (auto simp: validate_all_Inr Let_def)
  qed
qed

text \<open>A document of one record set and the edits of the witnesses.\<close>

definition demo_display :: "rtype \<Rightarrow> string" where
  "demo_display rt = (if rt = RT_A then ''A'' else if rt = RT_NS then ''NS'' else ''TXT'')"

definition demo_document :: document where
  "demo_document = put_records empty_zone [new_table ''@'' ''NS'' [''ns.ex''] None]"

lemma demo_upper: "to_uppercase ''a'' = ''A''" "to_uppercase ''A'' = ''A''"
  by code_simp+

lemma demo_type: "normalise_type demo_hickory ''a'' = Inr RT_A"
  by (simp add: normalise_type_def demo_hickory_def demo_rtype_def trim_def trim_start_def is_whitespace_def demo_upper ok_or_def)

lemma demo_add:
  "add demo_hickory demo_display ''www'' ''a'' [''192.0.2.1''] (Some 60) False demo_document =
     Inr (Created, put_records empty_zone [new_table ''@'' ''NS'' [''ns.ex''] None, new_table ''www'' ''A'' [''192.0.2.1''] (Some 60)])"
proof -
  have n: "normalise_name ''www'' = ''www''" "normalise_name ''@'' = ''@''"
    by (simp_all add: normalise_name_def trim_def trim_start_def is_whitespace_def to_lowercase_def ascii_lower_def)
  have v: "validate_all demo_hickory RT_A ''www'' [''192.0.2.1''] = Inr ()"
    by (simp add: validate_value_def parse_value_def demo_hickory_def demo_rdata_def MAX_VALUE_CHARS_def ok_or_def)
  have "\<not> matches (new_table ''@'' ''NS'' [''ns.ex''] None) ''www'' ''A''" using n by (simp add: matches_def name_of_def new_table_def)
  then show ?thesis using n v
    by (simp add: add_def demo_type demo_document_def put_records_def records_mut_def zone_mut_def demo_display_def)
qed

theorem add_edits_one_set_witness:
  "origin_of (put_records empty_zone [new_table ''@'' ''NS'' [''ns.ex''] None, new_table ''www'' ''A'' [''192.0.2.1''] (Some 60)]) =
     origin_of demo_document"
  using add_edits_one_set [OF demo_add demo_type] by (simp add: Let_def)

section \<open>Round trips\<close>

lemma rmap_remove_others:
  "\<forall>x \<in> set ts. \<not> matches x n ty \<Longrightarrow> rmap (remove_from n (Some ty) vs) ts = Inr (map (\<lambda>t. (False, Some t)) ts)"
  by (induction ts) (simp_all add: remove_from_def)

lemma rmap_append: "rmap f (xs @ ys) = rbind (rmap f xs) (\<lambda>a. rbind (rmap f ys) (\<lambda>b. Inr (a @ b)))"
proof (induction xs)
  case (Cons x xs)
  then show ?case by (cases "f x"; cases "rmap f xs"; cases "rmap f ys") simp_all
qed (cases "rmap f ys"; simp)

lemma edit_new_table: "edit_table vals ttl replace (new_table n ty vals ttl) = Inr (Unchanged, new_table n ty vals ttl)"
proof -
  have "ttl_of (new_table n ty vals ttl) = ttl" by (cases ttl) (simp_all add: ttl_of_def new_table_def)
  moreover have "value_array (new_table n ty vals ttl) = Inr (build_array vals)" by (simp add: value_array_def new_table_def ok_or_def)
  moreover have "(new_table n ty vals ttl)\<lparr>t_values := Some (T_Array (build_array vals))\<rparr> = new_table n ty vals ttl"
    by (simp add: new_table_def)
  ultimately show ?thesis by (simp add: edit_table_def Let_def filter_empty_conv)
qed

text \<open>C39: edits undo and repeat as an operator expects. After a record set was created, the same edit again
  changes nothing and says so; removing the set gives back the records the file had, and removing it
  once more reports that nothing changed.\<close>

theorem created_set_round_trip:
  assumes "add E display n ty vals ttl replace d = Inr (Created, d')" and "normalise_type E ty = Inr rt"
    and "to_uppercase (display rt) = display rt"
  shows "add E display n ty vals ttl replace d' = Inr (Unchanged, d') \<and>
     (\<exists>d''. remove E display n (Some ty) [] d' = Inr (Removed, d'') \<and> records d'' = records d \<and>
        remove E display n (Some ty) [] d'' = Inr (Unchanged, d''))"
proof (rule add_Inr [OF assms(1)])
  fix rt' z ts
  let ?n = "normalise_name n" and ?ty = "display rt"
  let ?hit = "\<lambda>t. matches t ?n ?ty" and ?new = "new_table ?n ?ty vals ttl"
  assume r: "normalise_type E ty = Inr rt'" and ne: "vals \<noteq> []" and v: "validate_all E rt' ?n vals = Inr ()"
    and m: "records_mut d = Inr (z, ts)"
    and e: "(case split_first (\<lambda>t. matches t ?n (display rt')) ts of
        Some (pre, t, post) \<Rightarrow> rbind (edit_table vals ttl replace t) (\<lambda>(c, t). Inr (c, put_records z (pre @ t # post)))
      | None \<Rightarrow> Inr (Created, put_records z (ts @ [new_table ?n (display rt') vals ttl]))) = Inr (Created, d')"
  have rt: "rt' = rt" using r assms(2) by simp
  have none: "split_first ?hit ts = None"
  proof (cases "split_first ?hit ts")
    case (Some x)
    then show ?thesis using e edit_table_asked [of vals ttl replace] unfolding rt
      by (cases x) (auto simp: rbind_eq_Inr asked_for_def)
  qed simp
  then have d': "d' = put_records z (ts @ [?new])" using e unfolding rt by simp
  have others: "\<forall>x \<in> set ts. \<not> ?hit x" using none by (simp add: split_first_None)
  have hit: "?hit ?new" by (rule matches_new [OF assms(3)])
  have again: "records_mut d' = Inr (z\<lparr>zt_records := Some (Records_Tables (ts @ [?new]))\<rparr>, ts @ [?new])"
    by (simp add: d' records_mut_def zone_mut_def put_records_def)
  have z: "zone_mut (put_records z us) = Inr (z\<lparr>zt_records := Some (Records_Tables us)\<rparr>)" for us by (simp add: zone_mut_def put_records_def)
  have put: "put_records (z\<lparr>zt_records := x\<rparr>) us = put_records z us" for x us by (simp add: put_records_def)
  have add2: "add E display n ty vals ttl replace d' = Inr (Unchanged, d')"
    using r ne v again split_first_append [OF others hit, of "[]"] edit_new_table unfolding rt
    by (simp add: add_def put d')
  have gone: "remove_from ?n (Some ?ty) [] ?new = Inr (True, None)" using hit by (simp add: remove_from_def)
  have rem1: "remove E display n (Some ty) [] d' = Inr (Removed, put_records z ts)"
    using r unfolding rt
    by (simp add: remove_def d' z put rmap_append rmap_remove_others [OF others] gone map_filter_def comp_def)
  have rem2: "remove E display n (Some ty) [] (put_records z ts) = Inr (Unchanged, put_records z ts)"
    using r unfolding rt by (simp add: remove_def z put rmap_remove_others [OF others] map_filter_def comp_def)
  have "records (put_records z ts) = records d"
    using records_mut_Inr [OF m] by (simp add: records_def) (cases "existing_records d"; simp)
  then show ?thesis using add2 rem1 rem2 by blast
qed

theorem created_set_round_trip_witness:
  "\<exists>d' d''. add demo_hickory demo_display ''www'' ''a'' [''192.0.2.1''] (Some 60) False demo_document = Inr (Created, d') \<and>
     remove demo_hickory demo_display ''www'' (Some ''a'') [] d' = Inr (Removed, d'') \<and> records d'' = records demo_document"
proof -
  have "to_uppercase (demo_display RT_A) = demo_display RT_A" by (simp add: demo_display_def demo_upper)
  from created_set_round_trip [OF demo_add demo_type this] show ?thesis using demo_add by blast
qed

text \<open>Values given twice in one call are written twice: only the values the file had are skipped.\<close>

lemma repeated_values_written:
  "table_values t = [] \<Longrightarrow> edit_table [v, v] ttl False t = Inr (c, t') \<Longrightarrow> table_values t' = [v, v]"
  using edit_table_asked [of "[v, v]" ttl False t c t'] by (simp add: asked_for_def)

text \<open>The serial an edit sets is the one read back.\<close>

lemma set_serial_read:
  assumes "set_serial n d = Inr d'"
  shows "serial_of d' = Some n \<and> records d' = records d \<and> origin_of d' = origin_of d"
proof -
  from assms obtain z where z: "zone_mut d = Inr z" by (auto simp: set_serial_def rbind_eq_Inr)
  with assms have "d' = Some (Zone_Table (z\<lparr>zt_soa := Some (Soa_Table (Some (T_Integer (uint n))))\<rparr>))"
    by (auto simp: set_serial_def split: option.splits soa_item.splits)
  moreover have "d = None \<and> z = empty_zone \<or> d = Some (Zone_Table z)"
    using z by (auto simp: zone_mut_def split: option.splits zone_item.splits)
  ultimately show ?thesis by (auto simp: serial_of_def records_def existing_records_def origin_of_def empty_zone_def)
qed

end
