(* ===== verification/Zone_Findings.thy ===== *)
theory Zone_Findings
  imports Zone_Theorems
begin

text \<open>
  The findings of a zone build, which \<^verbatim>\<open>vega check\<close> turns into its exit status: which record sets a zone cut
  hides and which delegations lack the addresses of a name server inside them.
\<close>

section \<open>Occluded record sets\<close>

lemma kept_or_gone:
  "x \<in> set (s_rrsets (snd (es ! (order ! r)))) \<longleftrightarrow> x \<in> set (kept_runs E es order r) \<or> x \<in> set (gone_runs E es order r)"
  by (auto simp: kept_runs_def gone_runs_def Let_def split: option.splits)

lemma kept_gone_types:
  "x \<in> set (kept_runs E es order r) \<Longrightarrow> y \<in> set (gone_runs E es order r) \<Longrightarrow> s_type x \<noteq> s_type y"
  by (auto simp: kept_runs_def gone_runs_def keep_run_def Let_def split: option.splits)

lemma gone_Nil: "gone_runs E es order r = [] \<Longrightarrow> kept_runs E es order r = sort_key s_type (s_rrsets (snd (es ! (order ! r))))"
  by (auto simp: kept_runs_def gone_runs_def Let_def filter_empty_conv filter_id_conv split: option.splits)

lemma run_records_Nil_iff:
  "runs_ok rs \<Longrightarrow> run_records t rs = [] \<longleftrightarrow> t \<notin> s_type ` set rs"
  by (auto simp: run_records_def runs_ok_def)

lemma runs_ok_sub: "runs_ok rs \<Longrightarrow> set xs \<subseteq> set rs \<Longrightarrow> runs_ok xs"
  by (auto simp: runs_ok_def)

lemma gone_iff_unserved:
  assumes bu: "built E lower es order Z" and i: "i < length es"
  shows "t \<in> s_type ` set (gone_runs E es order i) \<longleftrightarrow>
    run_records t (runs_at es (ranked es order ! i)) \<noteq> [] \<and> records_at Z (nodes Z ! i) t ow = []"
proof -
  note b = built_facts(3,2) [OF bu]
  have at: "runs_at es (ranked es order ! i) = s_rrsets (snd (es ! (order ! i)))" by (rule rank_runs_at [OF b i])
  have ok: "runs_ok (s_rrsets (snd (es ! (order ! i))))" by (rule rank_runs_ok [OF b i])
  have kept: "runs_ok (kept_runs E es order i)" by (rule runs_ok_sub [OF ok]) (use kept_or_gone in blast)
  show ?thesis
    unfolding built_kept_records [OF bu i] at using run_records_Nil_iff [OF ok] run_records_Nil_iff [OF kept] kept_or_gone kept_gone_types
    by fastforce
qed

section \<open>Missing glue\<close>

definition missing_glue :: "zone \<Rightarrow> name \<Rightarrow> rdata list \<Rightarrow> diagnostic list" where
  "missing_glue Z c vs = map (MissingGlue c) (filter (\<lambda>n. suffix c n \<and> (suffix (lower_origin Z) n \<longrightarrow> glue_of Z n = [])) (uniq [] (ns_names vs)))"

lemma set_uniq: "set (uniq seen xs) = set xs - set seen"
  by (induction xs arbitrary: seen) auto

lemma glue_fold_notes:
  assumes E: "hickory_ok E" and Z: "zone_ok Z" and c: "is_lower c"
    and "\<forall>v \<in> set vs. case v of RD_NS n \<Rightarrow> length n \<le> 127 | _ \<Rightarrow> True"
  shows "g_notes (fold (\<lambda>v g. case v of RD_NS target \<Rightarrow> glue_for E Z c target g | _ \<Rightarrow> g) vs g) = g_notes g @
    map (MissingGlue c) (filter (\<lambda>n. suffix c n \<and> (suffix (lower_origin Z) n \<longrightarrow> glue_of Z n = [])) (uniq (g_seen g) (ns_names vs)))"
  using assms(4)
proof (induction vs arbitrary: g)
  case Nil
  then show ?case by (simp add: ns_names_def)
next
  case (Cons v vs)
  show ?case
  proof (cases "\<exists>n. v = RD_NS n")
    case True
    then obtain n where v: "v = RD_NS n" by blast
    then have len: "length n \<le> 127" using Cons.prems by simp
    have "ns_names (v # vs) = lower_name n # ns_names vs" by (simp add: v ns_names_def)
    then show ?thesis
      using Cons.IH [of "glue_for E Z c n g"] Cons.prems glue_for_step(1) [OF E Z len, of c g] glue_for_notes [OF E Z len c, of g]
      by (simp add: v)
  next
    case False
    then have skip: "(case v of RD_NS target \<Rightarrow> glue_for E Z c target g | _ \<Rightarrow> g) = g"
      and "ns_names (v # vs) = ns_names vs"
      by (cases v; simp add: ns_names_def)+
    then show ?thesis using Cons.IH [of g] Cons.prems by simp
  qed
qed

lemma referral_notes:
  assumes E: "hickory_ok E" and Z: "zone_ok Z" "ns_ok Z" and nd: "nd \<in> set (nodes Z)"
  shows "snd (referral_of E Z nd diags) =
    diags @ missing_glue Z (lower_name (node_name nd)) (concat (map (values_of Z) (sets_at Z nd RT_NS)))"
proof -
  have ok: "sets_ok Z" using Z by (simp add: zone_ok_def)
  let ?ns = "sets_at Z nd RT_NS"
  let ?vs = "concat (map (values_of Z) ?ns)"
  have vals: "concat (List.map_filter (\<lambda>run. span_get (rdatas Z) (rr_rdata run)) ?ns) = ?vs"
    using map_filter_values [OF ok nd, of ?ns RT_NS] by simp
  have "\<forall>v \<in> set ?vs. case v of RD_NS n \<Rightarrow> length n \<le> 127 | _ \<Rightarrow> True"
    using Z(2) values_of_sub [of Z] unfolding ns_ok_def by fastforce
  from glue_fold_notes [OF E Z(1) is_lower_lower_name this] show ?thesis
    using rrsets_of_eq [OF ok nd, of RT_NS] vals E by (simp add: referral_of_def missing_glue_def Let_def)
qed

lemma build_referrals_notes:
  assumes E: "hickory_ok E" and Z: "zone_ok Z" "ns_ok Z"
    and "set nds \<subseteq> set (nodes Z)" and "i + length nds < 2 ^ 32"
  shows "set (snd (build_referrals_from E Z i nds st)) = set (snd st) \<union>
    (\<Union>nd \<in> {nd \<in> set nds. flags_contains (node_flags nd) DELEGATION}.
       set (missing_glue Z (lower_name (node_name nd)) (concat (map (values_of Z) (sets_at Z nd RT_NS)))))"
  using assms(4,5)
proof (induction nds arbitrary: i st)
  case (Cons nd nds)
  have small: "int i < 2 ^ 32" using Cons.prems(2) by simp
  have nd: "nd \<in> set (nodes Z)" using Cons.prems(1) by simp
  show ?case
    using Cons.IH [of "i + 1"] Cons.prems small referral_notes [OF E Z nd, of "snd st"]
    by (auto simp: case_prod_beta simp del: flags_contains_bit)
qed simp

section \<open>The findings of a build\<close>

lemma missing_glue_update: "missing_glue (Z\<lparr>referrals := rf, diagnostics := dg\<rparr>) = missing_glue Z"
  by (simp add: fun_eq_iff missing_glue_def view_update)

lemma finish_findings:
  assumes E: "hickory_ok E" and it: "iter_ok iter" and b: "builder_ok b" and fin: "finish E iter seed b sc = Inr Z"
  obtains order where "built E (b_lower_origin b) (iter (closure_of E iter b)) order Z"
    "set (diagnostics Z) = (\<Union>r < length (iter (closure_of E iter b)). set (occluded_at E (iter (closure_of E iter b)) order r)) \<union>
      (\<Union>nd \<in> {nd \<in> set (nodes Z). flags_contains (node_flags nd) DELEGATION}.
         set (missing_glue Z (lower_name (node_name nd)) (concat (map (values_of Z) (sets_at Z nd RT_NS)))))"
proof (rule finish_arena [OF assms])
  fix order a idx s
  let ?es = "iter (closure_of E iter b)" and ?Z = "assemble b s seed a idx"
  assume bu: "built E (b_lower_origin b) ?es order Z" and inv: "arena_inv E seed ?es order (length ?es) a"
    and Z: "Z = ?Z\<lparr>referrals := fst (build_referrals E ?Z (a_diagnostics a)), diagnostics := snd (build_referrals E ?Z (a_diagnostics a))\<rparr>"
  have bu': "built E (b_lower_origin b) ?es order ?Z" using bu unfolding Z built_update .
  have "names_ok ?Z" using built_zone_ok [OF bu'] by (simp add: zone_ok_def)
  then have small: "0 + length (nodes ?Z) < 2 ^ 32" using names_ok_small by simp
  have "diagnostics Z = snd (build_referrals_from E ?Z 0 (nodes ?Z) (Map.empty, a_diagnostics a))" by (simp add: Z build_referrals_def)
  moreover have "set (a_diagnostics a) = (\<Union>r < length ?es. set (occluded_at E ?es order r))"
    using inv by (auto simp: arena_inv_def)
  moreover have "missing_glue Z = missing_glue ?Z" "values_of Z = values_of ?Z" "sets_at Z = sets_at ?Z" "nodes Z = nodes ?Z"
    unfolding Z by (simp_all only: missing_glue_update view_update) simp
  ultimately show ?thesis
    using that [OF bu] build_referrals_notes [OF E built_zone_ok [OF bu'] built_ns_ok [OF bu'] subset_refl small, of "(Map.empty, a_diagnostics a)"]
    by simp
qed

lemma missing_glue_iff:
  assumes bu: "built E lower es order Z" and i: "i < length es" and cut: "flags_contains (node_flags (nodes Z ! i)) DELEGATION"
  shows "MissingGlue c n \<in> set (missing_glue Z (lower_name (node_name (nodes Z ! i))) (concat (map (values_of Z) (sets_at Z (nodes Z ! i) RT_NS)))) \<longleftrightarrow>
    c = owner_names Z ! i \<and> suffix c n \<and> n \<in> set (ns_names (map rec_data (records_at Z (nodes Z ! i) RT_NS ow))) \<and> glue_of Z n = []"
proof -
  note b = built_facts [OF bu]
  have own: "lower_name (node_name (nodes Z ! i)) = owner_names Z ! i" using i b(6) by (simp add: owner_names_def)
  have "owner_names Z ! i \<in> set (owner_names Z)" using i b(6) by (simp add: owner_names_def)
  then have "suffix (lower_origin Z) (owner_names Z ! i)"
    using built_names_ok [OF bu] by (auto simp: names_ok_def)
  then have inside: "suffix (owner_names Z ! i) n \<Longrightarrow> suffix (lower_origin Z) n" by (rule suffix_order.trans)
  have "map rec_data (records_at Z (nodes Z ! i) RT_NS ow) = concat (map (values_of Z) (sets_at Z (nodes Z ! i) RT_NS))"
    by (simp add: records_at_def map_concat comp_def from_rdata_def)
  then show ?thesis unfolding own missing_glue_def using inside by (auto simp: set_uniq)
qed

lemma built_named:
  assumes "built E lower es order Z"
  shows "node_named Z n = Some i \<longleftrightarrow> i < length es \<and> ranked es order ! i = n"
  using node_named_Some [of Z n i] node_named_nth [OF built_names_ok [OF assms], of i] built_names [OF assms] built_facts(6) [OF assms]
    nth_owner_names [of i Z] by auto

lemma from_config_findings:
  assumes E: "hickory_ok E" and it: "iter_ok iter" and f: "from_config E iter seed cfg = Inr Z"
    and o: "name_from_str E (zc_origin cfg) = Some origin"
  obtains es order where "built E (lower_name origin) es order Z"
    "\<And>k t. run_records t (runs_at es k) = declared E origin (zc_default_ttl cfg) (zc_records cfg) k t"
    "set (diagnostics Z) = (\<Union>r < length es. set (occluded_at E es order r)) \<union>
      (\<Union>nd \<in> {nd \<in> set (nodes Z). flags_contains (node_flags nd) DELEGATION}.
         set (missing_glue Z (lower_name (node_name nd)) (concat (map (values_of Z) (sets_at Z nd RT_NS)))))"
  using f
proof (rule from_config_Inr [OF E])
  fix o' b sc
  assume o': "name_from_str E (zc_origin cfg) = Some o'" and h: "holds E o' (zc_default_ttl cfg) (zc_records cfg) b"
    and bo: "builder_ok b" "b_lower_origin b = lower_name o'" and fin: "finish E iter seed b sc = Inr Z"
  have oo: "o' = origin" using o o' by simp
  show ?thesis
    by (rule finish_findings [OF E it bo(1) fin]) (use that bo(2) oo closure_records [OF E it h] in auto)
qed

lemma occluded_iff:
  assumes bu: "built E (lower_name origin) es order Z"
    and rec: "\<And>k t. run_records t (runs_at es k) = declared E origin ttl specs k t"
  shows "(\<exists>r < length es. Occluded n t \<in> set (occluded_at E es order r)) \<longleftrightarrow>
    declared E origin ttl specs n t \<noteq> [] \<and> (\<exists>i. node_named Z n = Some i \<and> records_at Z (nodes Z ! i) t ow = [])"
  unfolding rec [symmetric] built_named [OF bu] using gone_iff_unserved [OF bu, of _ t ow] by (auto simp: image_iff)

lemma declared_named:
  assumes bu: "built E (lower_name origin) es order Z"
    and rec: "\<And>k t. run_records t (runs_at es k) = declared E origin ttl specs k t"
    and d: "declared E origin ttl specs n t \<noteq> []"
  shows "\<exists>i. node_named Z n = Some i"
proof -
  have "runs_at es n \<noteq> []" using d rec [of t n] by (auto simp: run_records_def)
  then have "map_of es n \<noteq> None" by (cases "map_of es n") (simp_all add: runs_at_def)
  then have "n \<in> fst ` set es" by (simp add: map_of_eq_None_iff)
  then show ?thesis using ranked_facts [OF built_facts(3,2) [OF bu]] built_named [OF bu] by (metis in_set_conv_nth)
qed

text \<open>The findings of a build say exactly what would not be served. A record set is reported as occluded
  just when the configuration declares records of that type at that name and the zone holds none, and
  a name server is reported as lacking glue just when a delegation names it, it lies at or below that
  delegation, and the zone has no address for it.\<close>

lemma findings_cases:
  assumes "hickory_ok E" and "iter_ok iter" and "from_config E iter seed cfg = Inr Z"
    and "name_from_str E (zc_origin cfg) = Some origin"
  shows "(Occluded n t \<in> set (diagnostics Z) \<longleftrightarrow>
       declared E origin (zc_default_ttl cfg) (zc_records cfg) n t \<noteq> [] \<and>
       (\<exists>i. node_named Z n = Some i \<and> records_at Z (nodes Z ! i) t ow = [])) \<and>
     (MissingGlue c m \<in> set (diagnostics Z) \<longleftrightarrow>
       (\<exists>i < length (nodes Z). flags_contains (node_flags (nodes Z ! i)) DELEGATION \<and> c = owner_names Z ! i \<and>
          m \<in> set (ns_names (map rec_data (records_at Z (nodes Z ! i) RT_NS ow))) \<and> suffix c m \<and> glue_of Z m = []))"
proof (rule from_config_findings [OF assms])
  fix es order
  assume bu: "built E (lower_name origin) es order Z"
    and rec: "\<And>k t. run_records t (runs_at es k) = declared E origin (zc_default_ttl cfg) (zc_records cfg) k t"
    and d: "set (diagnostics Z) = (\<Union>r < length es. set (occluded_at E es order r)) \<union>
      (\<Union>nd \<in> {nd \<in> set (nodes Z). flags_contains (node_flags nd) DELEGATION}.
         set (missing_glue Z (lower_name (node_name nd)) (concat (map (values_of Z) (sets_at Z nd RT_NS)))))"
  have "Occluded n t \<in> set (diagnostics Z) \<longleftrightarrow> (\<exists>r < length es. Occluded n t \<in> set (occluded_at E es order r))"
    unfolding d by (auto simp: missing_glue_def)
  moreover have "MissingGlue c m \<in> set (diagnostics Z) \<longleftrightarrow>
      (\<exists>i < length es. flags_contains (node_flags (nodes Z ! i)) DELEGATION \<and>
         MissingGlue c m \<in> set (missing_glue Z (lower_name (node_name (nodes Z ! i))) (concat (map (values_of Z) (sets_at Z (nodes Z ! i) RT_NS)))))"
    unfolding d built_facts(6) [OF bu, symmetric] by (auto simp: in_set_conv_nth simp del: flags_contains_bit)
  ultimately show ?thesis
    unfolding occluded_iff [OF bu rec, of n t ow] built_facts(6) [OF bu] using missing_glue_iff [OF bu, of _ c m ow] by blast
qed

text \<open>With no finding, everything the configuration declares is held by the zone.\<close>

lemma no_finding_serves_all:
  assumes "hickory_ok E" and "iter_ok iter" and "from_config E iter seed cfg = Inr Z"
    and "name_from_str E (zc_origin cfg) = Some origin" and "diagnostics Z = []" and "node_named Z n = Some i"
  shows "records_at Z (nodes Z ! i) t ow = map (\<lambda>(ttl, v). from_rdata ow ttl v)
    (declared E origin (zc_default_ttl cfg) (zc_records cfg) n t)"
proof (rule from_config_findings [OF assms(1-4)])
  fix es order
  assume bu: "built E (lower_name origin) es order Z"
    and rec: "\<And>k t. run_records t (runs_at es k) = declared E origin (zc_default_ttl cfg) (zc_records cfg) k t"
    and d: "set (diagnostics Z) = (\<Union>r < length es. set (occluded_at E es order r)) \<union>
      (\<Union>nd \<in> {nd \<in> set (nodes Z). flags_contains (node_flags nd) DELEGATION}.
         set (missing_glue Z (lower_name (node_name nd)) (concat (map (values_of Z) (sets_at Z nd RT_NS)))))"
  have i: "i < length es" "ranked es order ! i = n" using assms(6) built_named [OF bu] by simp_all
  have "set (occluded_at E es order i) \<subseteq> set (diagnostics Z)" unfolding d using i(1) by blast
  then have "gone_runs E es order i = []" using assms(5) by simp
  then show ?thesis
    using built_kept_records [OF bu i(1)] gone_Nil rank_runs_at [OF built_facts(3,2) [OF bu] i(1)] rec [of t n] i(2)
    by (simp add: run_records_sort)
qed

end
