(* ===== verification/Commands.thy ===== *)
theory Commands
  imports Editor_Write Serial Tomlparse Editor Zone_Findings "HOL-Library.Char_ord"
begin

text \<open>
  The subcommands of \<^verbatim>\<open>src/commands/\<close> that work on the config file: \<^verbatim>\<open>record list\<close>, \<^verbatim>\<open>get\<close>, \<^verbatim>\<open>add\<close> and
  \<^verbatim>\<open>delete\<close>, \<^verbatim>\<open>zone show\<close>, \<^verbatim>\<open>export\<close> and \<^verbatim>\<open>bump-serial\<close>, \<^verbatim>\<open>init\<close> and \<^verbatim>\<open>check\<close>. A command takes the files and
  gives its result or its error, with the files as they are at that point; what it prints is the value it
  returns. The TOML crate, which parses a text and renders the edited document into it, is an argument, as are
  the clock and what the operating system answers to the calls of a save. File contents are text.
\<close>

section \<open>The config file\<close>

record toml_edit =
  te_parse :: "u8 list \<Rightarrow> ((nat \<times> nat) option \<times> string) + document"
  te_render :: "string \<Rightarrow> document \<Rightarrow> string"

record cmd_env =
  ce_toml :: toml_edit
  ce_hickory :: hickory
  ce_display :: "rtype \<Rightarrow> string"
  ce_clock :: "u64 option"
  ce_save :: save_env

datatype cmd_error =
    NoConfigFile
  | Reading string
  | Parsing string parse_error
  | Editing edit_error
  | NotSaved string save_error
  | NoDirectory string
  | BadClock clock_error
  | NoZone zone_error
  | ZoneFindings nat

record config_editor =
  ed_path :: string
  ed_text :: string
  ed_doc :: document

definition require_config :: "string option \<Rightarrow> cmd_error + string" where
  "require_config path = ok_or NoConfigFile path"

definition open_editor :: "cmd_env \<Rightarrow> disk \<Rightarrow> string \<Rightarrow> cmd_error + config_editor" where
  "open_editor env fs path =
     (case fs path of
        None \<Rightarrow> Inl (Reading path)
      | Some f \<Rightarrow>
          (case parse_document (te_parse (ce_toml env)) (octets (f_content f)) of
             Inl e \<Rightarrow> Inl (Parsing path e)
           | Inr d \<Rightarrow> Inr \<lparr>ed_path = path, ed_text = f_content f, ed_doc = d\<rparr>))"

definition open_config :: "cmd_env \<Rightarrow> disk \<Rightarrow> string option \<Rightarrow> cmd_error + config_editor" where
  "open_config env fs path = rbind (require_config path) (open_editor env fs)"

text \<open>A result or an error, with the files it leaves: the question mark operator of a function that works on them.\<close>

type_synonym 'a io_result = "(cmd_error + 'a) \<times> disk"

definition io_bind :: "'a io_result \<Rightarrow> ('a \<Rightarrow> disk \<Rightarrow> 'b io_result) \<Rightarrow> 'b io_result" where
  "io_bind r f = (case r of (Inl e, fs) \<Rightarrow> (Inl e, fs) | (Inr a, fs) \<Rightarrow> f a fs)"

definition save_editor :: "cmd_env \<Rightarrow> config_editor \<Rightarrow> disk \<Rightarrow> unit io_result" where
  "save_editor env ed fs =
     (case write_atomically (ce_save env) (ed_path ed) (te_render (ce_toml env) (ed_text ed) (ed_doc ed)) fs of
        (r, fs) \<Rightarrow> (map_sum (NotSaved (ed_path ed)) id r, fs))"

section \<open>Record sets\<close>

record edit_result =
  er_change :: change
  er_entry :: "record_entry option"
  er_serial :: "u32 option"

definition trim_end_dots :: "string \<Rightarrow> string" where
  "trim_end_dots s = rev (dropWhile (\<lambda>c. c = CHR ''.'') (rev s))"

definition normalise :: "string \<Rightarrow> string" where
  "normalise n = (let trimmed = trim_end_dots (trim n) in if trimmed = [] then ''@'' else to_lowercase trimmed)"

definition fqdn :: "string \<Rightarrow> string \<Rightarrow> string" where
  "fqdn n origin = (if n = ''@'' then origin @ ''.'' else n @ ''.'' @ origin @ ''.'')"

definition is_none_or :: "'a option \<Rightarrow> ('a \<Rightarrow> bool) \<Rightarrow> bool" where
  "is_none_or x p = (case x of None \<Rightarrow> True | Some a \<Rightarrow> p a)"

definition record_list :: "cmd_env \<Rightarrow> disk \<Rightarrow> string option \<Rightarrow> string option \<Rightarrow> string option \<Rightarrow> cmd_error + record_entry list" where
  "record_list env fs config name_filter type_filter =
     rbind (open_config env fs config) (\<lambda>ed.
     let wanted_type = map_option to_uppercase type_filter; wanted_name = map_option normalise name_filter
     in Inr (filter (\<lambda>r. is_none_or wanted_name (\<lambda>n. normalise (en_name r) = n))
          (filter (\<lambda>r. is_none_or wanted_type (\<lambda>t. en_type r = t)) (records (ed_doc ed)))))"

definition record_get :: "cmd_env \<Rightarrow> disk \<Rightarrow> string option \<Rightarrow> string \<Rightarrow> string option \<Rightarrow> cmd_error + (bool \<times> record_entry list)" where
  "record_get env fs config n record_type =
     rbind (open_config env fs config) (\<lambda>ed.
     let wanted_name = normalise n; wanted_type = map_option to_uppercase record_type;
         found = filter (\<lambda>r. is_none_or wanted_type (\<lambda>t. en_type r = t))
           (filter (\<lambda>r. normalise (en_name r) = wanted_name) (records (ed_doc ed)))
     in Inr (found \<noteq> [], found))"

definition find_entry :: "config_editor \<Rightarrow> string \<Rightarrow> string option \<Rightarrow> record_entry option" where
  "find_entry ed n record_type =
     (let wanted_name = normalise n; wanted_type = map_option to_uppercase record_type
      in List.find (\<lambda>r. normalise (en_name r) = wanted_name \<and> is_none_or wanted_type (\<lambda>t. en_type r = t)) (records (ed_doc ed)))"

definition maybe_bump :: "cmd_env \<Rightarrow> config_editor \<Rightarrow> bool \<Rightarrow> change \<Rightarrow> cmd_error + (u32 option \<times> config_editor)" where
  "maybe_bump env ed requested change =
     (if \<not> requested \<or> change = Unchanged then Inr (None, ed)
      else
        rbind (map_sum BadClock id (today_utc (ce_clock env))) (\<lambda>today.
        let serial = next_serial (serial_of (ed_doc ed)) today in
        rbind (map_sum Editing id (set_serial serial (ed_doc ed))) (\<lambda>d. Inr (Some serial, ed\<lparr>ed_doc := d\<rparr>))))"

text \<open>What \<^verbatim>\<open>add\<close> and \<^verbatim>\<open>delete\<close> do alike after the edit.\<close>

definition conclude_edit :: "cmd_env \<Rightarrow> disk \<Rightarrow> config_editor \<Rightarrow> change \<Rightarrow> string \<Rightarrow> string option \<Rightarrow> bool \<Rightarrow> edit_result io_result" where
  "conclude_edit env fs ed change n record_type bump_serial =
     io_bind (maybe_bump env ed bump_serial change, fs) (\<lambda>(serial, ed) fs.
     io_bind (if change \<noteq> Unchanged \<or> serial \<noteq> None then save_editor env ed fs else (Inr (), fs)) (\<lambda>_ fs.
     (Inr \<lparr>er_change = change, er_entry = find_entry ed n record_type, er_serial = serial\<rparr>, fs)))"

definition record_add :: "cmd_env \<Rightarrow> disk \<Rightarrow> string option \<Rightarrow> string \<Rightarrow> string \<Rightarrow> string list \<Rightarrow> u32 option \<Rightarrow> bool \<Rightarrow> bool
    \<Rightarrow> edit_result io_result" where
  "record_add env fs config n record_type vals ttl replace bump_serial =
     io_bind (open_config env fs config, fs) (\<lambda>ed fs.
     io_bind (map_sum Editing id (add (ce_hickory env) (ce_display env) n record_type vals ttl replace (ed_doc ed)), fs) (\<lambda>(change, d) fs.
     conclude_edit env fs (ed\<lparr>ed_doc := d\<rparr>) change n (Some record_type) bump_serial))"

definition record_delete :: "cmd_env \<Rightarrow> disk \<Rightarrow> string option \<Rightarrow> string \<Rightarrow> string option \<Rightarrow> string list \<Rightarrow> bool
    \<Rightarrow> edit_result io_result" where
  "record_delete env fs config n record_type vals bump_serial =
     io_bind (open_config env fs config, fs) (\<lambda>ed fs.
     io_bind (map_sum Editing id (remove (ce_hickory env) (ce_display env) n record_type vals (ed_doc ed)), fs) (\<lambda>(change, d) fs.
     conclude_edit env fs (ed\<lparr>ed_doc := d\<rparr>) change n record_type bump_serial))"

section \<open>The zone as a whole\<close>

record zone_summary =
  zs_origin :: string
  zs_serial :: "u32 option"
  zs_record_sets :: nat
  zs_records :: nat
  zs_names :: nat
  zs_by_type :: "(string \<times> nat) list"

fun count_type :: "string \<Rightarrow> nat \<Rightarrow> (string \<times> nat) list \<Rightarrow> (string \<times> nat) list" where
  "count_type t n [] = [(t, n)]"
| "count_type t n ((u, k) # m) =
     (if t = u then (u, k + n) # m else if t < u then (t, n) # (u, k) # m else (u, k) # count_type t n m)"

definition zone_show :: "cmd_env \<Rightarrow> disk \<Rightarrow> string option \<Rightarrow> cmd_error + zone_summary" where
  "zone_show env fs config =
     rbind (open_config env fs config) (\<lambda>ed.
     let rs = records (ed_doc ed);
         by_type = fold (\<lambda>r. count_type (en_type r) (length (en_values r))) rs [];
         names = remdups (map en_name rs);
         vals = sum_list (map (\<lambda>r. length (en_values r)) rs)
     in Inr \<lparr>zs_origin = unwrap_or ''<unset>'' (origin_of (ed_doc ed)), zs_serial = serial_of (ed_doc ed),
          zs_record_sets = length rs, zs_records = vals, zs_names = length names, zs_by_type = by_type\<rparr>)"

definition TAB :: char where "TAB = CHR 0x09"

definition export_line :: "(nat \<Rightarrow> string) \<Rightarrow> record_entry \<Rightarrow> string \<Rightarrow> string" where
  "export_line digits r v =
     en_name r @ [TAB] @ (case en_ttl r of None \<Rightarrow> [] | Some t \<Rightarrow> digits (unat t) @ [TAB]) @ ''IN'' @ [TAB] @ en_type r @ [TAB] @ v"

definition zone_export :: "cmd_env \<Rightarrow> string \<Rightarrow> (nat \<Rightarrow> string) \<Rightarrow> disk \<Rightarrow> string option \<Rightarrow> cmd_error + string list" where
  "zone_export env banner digits fs config =
     rbind (open_config env fs config) (\<lambda>ed.
     Inr ([''; exported by '' @ banner, ''; source: '' @ ed_path ed, ''$ORIGIN '' @ unwrap_or ''example.invalid'' (origin_of (ed_doc ed)) @ ''.''] @
          (case serial_of (ed_doc ed) of None \<Rightarrow> [] | Some s \<Rightarrow> [''; SOA serial '' @ digits (unat s)]) @ [[]] @
          concat (map (\<lambda>r. map (export_line digits r) (en_values r)) (records (ed_doc ed)))))"

definition zone_bump_serial :: "cmd_env \<Rightarrow> disk \<Rightarrow> string option \<Rightarrow> u32 io_result" where
  "zone_bump_serial env fs config =
     io_bind (open_config env fs config, fs) (\<lambda>ed fs.
     io_bind (map_sum BadClock id (today_utc (ce_clock env)), fs) (\<lambda>today fs.
     let serial = next_serial (serial_of (ed_doc ed)) today in
     io_bind (map_sum Editing id (set_serial serial (ed_doc ed)), fs) (\<lambda>d fs.
     io_bind (save_editor env (ed\<lparr>ed_doc := d\<rparr>) fs) (\<lambda>_ fs. (Inr serial, fs)))))"

text \<open>The lines of the starter file. The section sign is two octets of UTF-8.\<close>

definition SECTION_SIGN :: string where "SECTION_SIGN = [CHR 0xC2, CHR 0xA7]"
definition APOSTROPHE :: string where "APOSTROPHE = [CHR 0x27]"
definition NEWLINE :: char where "NEWLINE = CHR 0x0A"

definition init_lines :: "string \<Rightarrow> string list" where
  \<open>init_lines origin =
     [''# vega configuration. See vega.example.toml for every option.'',
      [],
      ''[server]'',
      ''udp = ["0.0.0.0:53"]'',
      ''tcp = ["0.0.0.0:53"]'',
      ''admin_listen = "127.0.0.1:9100"'',
      ''log_format = "json"'',
      [],
      ''[zone]'',
      ''origin = "'' @ origin @ ''"'',
      ''default_ttl = 300'',
      ''builtins = true'',
      [],
      ''[zone.soa]'',
      ''mname = "ns1.'' @ origin @ ''."'',
      ''rname = "hostmaster.'' @ origin @ ''."'',
      ''serial = 1'',
      ''minimum = 60'',
      [],
      ''# RFC 1034 '' @ SECTION_SIGN @ ''4.2.1 requires an NS record set at the apex, and the server refuses'',
      ''# to start without one: it names the servers authoritative for this zone, and'',
      ''# every delegation checker and every secondary reads it. Point it at this host.'',
      ''[[zone.records]]'',
      ''name = "@"'',
      ''type = "NS"'',
      ''values = ["ns1.'' @ origin @ ''."]'',
      [],
      ''[[zone.records]]'',
      ''name = "ns1"'',
      ''type = "A"'',
      ''values = ["127.0.0.1"]        # replace with this server'' @ APOSTROPHE @ ''s public address'']\<close>

text \<open>The directories a file is created in are not part of the files; the ones missing are made first.\<close>

definition zone_init :: "cmd_env \<Rightarrow> disk \<Rightarrow> string option \<Rightarrow> string \<Rightarrow> bool io_result" where
  "zone_init env fs output origin =
     (let path = unwrap_or ''vega.toml'' output in
      if fs path \<noteq> None then (Inr False, fs)
      else if path_dir path \<noteq> [] \<and> \<not> sv_dirs (ce_save env) then (Inl (NoDirectory (path_dir path)), fs)
      else case write_atomically (ce_save env) path (concat (map (\<lambda>l. l @ [NEWLINE]) (init_lines origin))) fs of
             (r, fs) \<Rightarrow> (map_sum (NotSaved path) (\<lambda>_. True) r, fs))"

definition report_findings :: "zone \<Rightarrow> cmd_error + unit" where
  "report_findings Z = (if diagnostics Z = [] then Inr () else Inl (ZoneFindings (length (diagnostics Z))))"

definition zone_check :: "cmd_env \<Rightarrow> (entry list \<Rightarrow> entry list) \<Rightarrow> u64 \<Rightarrow> zone_config \<Rightarrow> cmd_error + unit" where
  "zone_check env iter seed cfg =
     rbind (map_sum NoZone id (from_config (ce_hickory env) iter seed cfg)) report_findings"

section \<open>Results of the commands\<close>

lemma open_config_Inr:
  "open_config env fs config = Inr ed \<longleftrightarrow> (\<exists>path f d. config = Some path \<and> fs path = Some f \<and>
     parse_document (te_parse (ce_toml env)) (octets (f_content f)) = Inr d \<and>
     ed = \<lparr>ed_path = path, ed_text = f_content f, ed_doc = d\<rparr>)"
  by (cases config) (auto simp: open_config_def require_config_def ok_or_def open_editor_def split: option.splits sum.splits)

lemma io_bind_Inr: "io_bind r f = (Inr b, fs') \<longleftrightarrow> (\<exists>a fs. r = (Inr a, fs) \<and> f a fs = (Inr b, fs'))"
  by (auto simp: io_bind_def split: prod.splits sum.splits)

lemma io_bind_Inl: "io_bind r f = (Inl e, fs') \<longleftrightarrow> r = (Inl e, fs') \<or> (\<exists>a fs. r = (Inr a, fs) \<and> f a fs = (Inl e, fs'))"
  by (auto simp: io_bind_def split: prod.splits sum.splits)

text \<open>A save that succeeds, and one that does not.\<close>

lemma save_Inr:
  assumes "save_editor env ed fs = (Inr u, fs')" and "fs (ed_path ed) = Some f"
  shows "fs' = fs(ed_path ed \<mapsto> f\<lparr>f_content := te_render (ce_toml env) (ed_text ed) (ed_doc ed)\<rparr>)"
proof -
  obtain r where w: "write_atomically (ce_save env) (ed_path ed) (te_render (ce_toml env) (ed_text ed) (ed_doc ed)) fs = (r, fs')" "\<not> isl r"
    using assms(1) by (auto simp: save_editor_def split: prod.splits sum.splits) (metis isl_map_sum sum.disc(2))
  from write_atomically_result [OF w(1)] w(2) show ?thesis
    using assms(2) by (cases r; cases f) (simp_all add: saved_file_def)
qed

lemma save_Inl:
  assumes "save_editor env ed fs = (Inl e, fs')"
  shows "fs' = fs \<or> left_behind (ce_save env) (ed_path ed) fs fs'"
proof -
  obtain r where w: "write_atomically (ce_save env) (ed_path ed) (te_render (ce_toml env) (ed_text ed) (ed_doc ed)) fs = (r, fs')" "isl r"
    using assms(1) by (auto simp: save_editor_def split: prod.splits sum.splits) (metis isl_map_sum sum.disc(1))
  from write_atomically_result [OF w(1)] w(2) show ?thesis by (cases r) simp_all
qed

lemma map_sum_Inr: "map_sum f id r = Inr x \<longleftrightarrow> r = Inr x"
  by (cases r) auto

lemma today_utc_Inr: "today_utc c = Inr today \<longleftrightarrow> (\<exists>secs. c = Some secs \<and> today = ymd_from_unix_days (secs div 86400))"
  by (cases c) (auto simp: today_utc_def ok_or_def)

lemma maybe_bump_Inr:
  assumes "maybe_bump env ed requested change = Inr (sn, ed')"
  shows "ed_path ed' = ed_path ed \<and> ed_text ed' = ed_text ed \<and> records (ed_doc ed') = records (ed_doc ed) \<and>
    origin_of (ed_doc ed') = origin_of (ed_doc ed) \<and>
    (if requested \<and> change \<noteq> Unchanged
     then \<exists>secs. ce_clock env = Some secs \<and> serial_of (ed_doc ed') = sn \<and>
       sn = Some (next_serial (serial_of (ed_doc ed)) (ymd_from_unix_days (secs div 86400)))
     else sn = None \<and> ed' = ed)"
  using assms set_serial_read
  by (fastforce simp: maybe_bump_def rbind_eq_Inr map_sum_Inr today_utc_Inr Let_def split: if_splits)

lemma conclude_edit_Inr:
  assumes "conclude_edit env fs ed change n ty bump = (Inr r, fs')" and f: "fs (ed_path ed) = Some f"
  shows "er_change r = change \<and>
    (if change = Unchanged then fs' = fs \<and> er_serial r = None \<and> er_entry r = find_entry ed n ty
     else \<exists>d. fs' = fs(ed_path ed \<mapsto> f\<lparr>f_content := te_render (ce_toml env) (ed_text ed) d\<rparr>) \<and>
       records d = records (ed_doc ed) \<and> origin_of d = origin_of (ed_doc ed) \<and> er_entry r = find_entry ed n ty \<and>
       (if bump then \<exists>secs. ce_clock env = Some secs \<and> serial_of d = er_serial r \<and>
          er_serial r = Some (next_serial (serial_of (ed_doc ed)) (ymd_from_unix_days (secs div 86400)))
        else er_serial r = None \<and> d = ed_doc ed))"
proof -
  from assms obtain sn ed' where mb: "maybe_bump env ed bump change = Inr (sn, ed')"
    and sv: "(if change \<noteq> Unchanged \<or> sn \<noteq> None then save_editor env ed' fs else (Inr (), fs)) = (Inr (), fs')"
    and r: "r = \<lparr>er_change = change, er_entry = find_entry ed' n ty, er_serial = sn\<rparr>"
    by (auto simp: conclude_edit_def io_bind_Inr)
  note m = maybe_bump_Inr [OF mb]
  have fe: "find_entry ed' n ty = find_entry ed n ty" using m by (simp add: find_entry_def)
  show ?thesis
  proof (cases "change = Unchanged")
    case True
    then show ?thesis using m sv r by simp
  next
    case False
    then have "fs' = fs(ed_path ed \<mapsto> f\<lparr>f_content := te_render (ce_toml env) (ed_text ed) (ed_doc ed')\<rparr>)"
      using sv m f save_Inr [of env ed' fs "()" fs' f] by simp
    then show ?thesis using False m r fe by (auto intro!: exI [of _ "ed_doc ed'"] split: if_splits)
  qed
qed

text \<open>What a command that changed the file leaves in it: the records of the edited document, and with a bump a
  serial that secondaries will notice.\<close>

definition published :: "cmd_env \<Rightarrow> document \<Rightarrow> document \<Rightarrow> bool \<Rightarrow> edit_result \<Rightarrow> document \<Rightarrow> bool" where
  "published env before edited bump r d \<longleftrightarrow>
     records d = records edited \<and> origin_of d = origin_of before \<and>
     (if bump then \<exists>secs s. ce_clock env = Some secs \<and> er_serial r = Some s \<and> serial_of d = Some s \<and>
        (unat (secs div 86400) \<le> 848000 \<longrightarrow> (\<forall>p. serial_of before = Some p \<longrightarrow> p \<le> s \<and>
           (unat p < day_base (secs div 86400) + 99 \<longrightarrow> p < s)))
      else er_serial r = None \<and> serial_of d = serial_of before)"

lemma conclude_published:
  assumes "conclude_edit env fs \<lparr>ed_path = path, ed_text = f_content f, ed_doc = edited\<rparr> change n ty bump = (Inr r, fs')"
    and "fs path = Some f" and "origin_of edited = origin_of before" "serial_of edited = serial_of before"
  shows "er_change r = change \<and>
    (if change = Unchanged then fs' = fs \<and> er_serial r = None
     else \<exists>d. fs' = fs(path \<mapsto> f\<lparr>f_content := te_render (ce_toml env) (f_content f) d\<rparr>) \<and> published env before edited bump r d)"
proof -
  have up: "p \<le> next_serial (Some p) (ymd_from_unix_days days) \<and>
      (unat p < day_base days + 99 \<longrightarrow> p < next_serial (Some p) (ymd_from_unix_days days))" if "unat days \<le> 848000" for days p
    using next_serial_nat [OF that, of "Some p"] by (simp add: word_le_nat_alt word_less_nat_alt)
  show ?thesis
    using conclude_edit_Inr [OF assms(1)] assms(2-4) up by (auto simp: published_def split: if_splits)
qed

lemma add_keeps:
  assumes "add E disp n ty vals ttl replace d = Inr (c, d')"
  shows "origin_of d' = origin_of d \<and> serial_of d' = serial_of d"
proof (rule add_Inr [OF assms])
  fix rt z ts
  assume "records_mut d = Inr (z, ts)"
    and e: "(case split_first (\<lambda>t. matches t (normalise_name n) (disp rt)) ts of
        Some (pre, t, post) \<Rightarrow> rbind (edit_table vals ttl replace t) (\<lambda>(c, t). Inr (c, put_records z (pre @ t # post)))
      | None \<Rightarrow> Inr (Created, put_records z (ts @ [new_table (normalise_name n) (disp rt) vals ttl]))) = Inr (c, d')"
  then have z: "zone_mut d = Inr z" by (simp add: records_mut_Inr)
  from e obtain us where "d' = put_records z us" by (auto simp: rbind_eq_Inr split: option.splits)
  then show ?thesis using put_keeps [OF z] by simp
qed

lemma remove_keeps:
  assumes "remove E disp n ty vals d = Inr (c, d')"
  shows "origin_of d' = origin_of d \<and> serial_of d' = serial_of d"
proof -
  from assms have "d' = d \<or> (\<exists>z us. zone_mut d = Inr z \<and> d' = put_records z us)"
    by (auto simp: remove_def rbind_eq_Inr Let_def split: option.splits)
  then show ?thesis using put_keeps [of d] by blast
qed

text \<open>C38: a record command does one whole thing or nothing. When \<^verbatim>\<open>record add\<close> succeeds on a config file, either it
  reports no change and no file and no serial moved, or exactly that file is replaced, under the permission
  bits it had, by a rendering of the document with the edit in it: the record sets are those of the
  edit, the origin is the old one, and with a bump the serial reported is the one written, never
  below the old one and above it while the counter of the day lasts.\<close>

theorem record_add_publishes:
  assumes "record_add env fs config n ty vals ttl replace bump = (Inr r, fs')"
  shows "\<exists>path f before edited. config = Some path \<and> fs path = Some f \<and>
     parse_document (te_parse (ce_toml env)) (octets (f_content f)) = Inr before \<and>
     add (ce_hickory env) (ce_display env) n ty vals ttl replace before = Inr (er_change r, edited) \<and>
     (if er_change r = Unchanged then fs' = fs \<and> er_serial r = None
      else \<exists>d. fs' = fs(path \<mapsto> f\<lparr>f_content := te_render (ce_toml env) (f_content f) d\<rparr>) \<and> published env before edited bump r d)"
proof -
  from assms obtain path f before change edited where
    p: "config = Some path" "fs path = Some f" "parse_document (te_parse (ce_toml env)) (octets (f_content f)) = Inr before"
    and a: "add (ce_hickory env) (ce_display env) n ty vals ttl replace before = Inr (change, edited)"
    and c: "conclude_edit env fs \<lparr>ed_path = path, ed_text = f_content f, ed_doc = edited\<rparr> change n (Some ty) bump = (Inr r, fs')"
    by (auto simp: record_add_def io_bind_Inr open_config_Inr map_sum_Inr)
  have "origin_of edited = origin_of before" "serial_of edited = serial_of before" using add_keeps [OF a] by simp_all
  from conclude_published [OF c p(2) this] show ?thesis using p a by metis
qed

definition demo_save :: save_env where
  "demo_save = \<lparr>sv_umask = 0x1A4, sv_stamp = ''1.0'', sv_creates = (\<lambda>_. True), sv_mode = True, sv_stops = None, sv_syncs = True,
     sv_renames = True, sv_removes = True, sv_dirs = True\<rparr>"

lemma demo_write: "write_atomically demo_save path contents demo_disk = (Inr (), demo_disk(path \<mapsto> saved_file demo_save demo_disk path contents))"
proof (rule write_goes_through)
  have "temp_path demo_save path 0 \<noteq> ''c''" by (auto simp: temp_path_def temp_name_def Cons_eq_append_conv)
  then show "demo_disk (temp_path demo_save path 0) = None" by (simp add: demo_disk_def)
qed (simp_all add: demo_save_def)

definition demo_env :: cmd_env where
  "demo_env = \<lparr>ce_toml = \<lparr>te_parse = (\<lambda>_. Inr demo_document), te_render = (\<lambda>_ _. ''new'')\<rparr>, ce_hickory = demo_hickory,
     ce_display = demo_display, ce_clock = Some 1785400000, ce_save = demo_save\<rparr>"

theorem record_add_publishes_witness:
  "\<exists>r fs' f. record_add demo_env demo_disk (Some ''c'') ''www'' ''a'' [''192.0.2.1''] (Some 60) False True = (Inr r, fs') \<and>
     fs' ''c'' = Some f \<and> f_content f = ''new'' \<and> f_mode f = 0x1A0"
proof -
  let ?cmd = "record_add demo_env demo_disk (Some ''c'') ''www'' ''a'' [''192.0.2.1''] (Some 60) False True"
  note d = demo_add
  have "\<not> isl (fst ?cmd)" using d demo_write
    by (simp add: record_add_def open_config_def require_config_def ok_or_def open_editor_def demo_disk_def parse_document_def
        demo_env_def conclude_edit_def maybe_bump_def today_utc_def save_editor_def set_serial_def io_bind_def
        zone_mut_def put_records_def empty_zone_def Let_def)
  then obtain r fs' where c: "?cmd = (Inr r, fs')" by (cases "fst ?cmd"; cases ?cmd) auto
  have "er_change r = Created" using record_add_publishes [OF c] d by (auto simp: demo_env_def parse_document_def)
  then show ?thesis using record_add_publishes [OF c] c by (auto simp: demo_env_def demo_disk_def)
qed

text \<open>The same of \<^verbatim>\<open>record delete\<close>.\<close>

lemma record_delete_publishes:
  assumes "record_delete env fs config n ty vals bump = (Inr r, fs')"
  shows "\<exists>path f before edited. config = Some path \<and> fs path = Some f \<and>
     parse_document (te_parse (ce_toml env)) (octets (f_content f)) = Inr before \<and>
     remove (ce_hickory env) (ce_display env) n ty vals before = Inr (er_change r, edited) \<and>
     (if er_change r = Unchanged then fs' = fs \<and> er_serial r = None
      else \<exists>d. fs' = fs(path \<mapsto> f\<lparr>f_content := te_render (ce_toml env) (f_content f) d\<rparr>) \<and> published env before edited bump r d)"
proof -
  from assms obtain path f before change edited where
    p: "config = Some path" "fs path = Some f" "parse_document (te_parse (ce_toml env)) (octets (f_content f)) = Inr before"
    and a: "remove (ce_hickory env) (ce_display env) n ty vals before = Inr (change, edited)"
    and c: "conclude_edit env fs \<lparr>ed_path = path, ed_text = f_content f, ed_doc = edited\<rparr> change n ty bump = (Inr r, fs')"
    by (auto simp: record_delete_def io_bind_Inr open_config_Inr map_sum_Inr)
  have "origin_of edited = origin_of before" "serial_of edited = serial_of before" using remove_keeps [OF a] by simp_all
  from conclude_published [OF c p(2) this] show ?thesis using p a by metis
qed

lemma init_result:
  assumes "zone_init env fs output origin = (r, fs')"
  shows "let path = unwrap_or ''vega.toml'' output in
    (case r of
       Inr created \<Rightarrow> if created then fs path = None \<and> fs' = fs(path \<mapsto> saved_file (ce_save env) fs path
           (concat (map (\<lambda>l. l @ [NEWLINE]) (init_lines origin)))) else fs path \<noteq> None \<and> fs' = fs
     | Inl _ \<Rightarrow> fs' = fs \<or> left_behind (ce_save env) path fs fs')"
proof -
  define path where "path = unwrap_or ''vega.toml'' output"
  obtain w fs1 where w: "write_atomically (ce_save env) path (concat (map (\<lambda>l. l @ [NEWLINE]) (init_lines origin))) fs = (w, fs1)" by fastforce
  show ?thesis
    using assms write_atomically_result [OF w] w
    by (cases w) (auto simp: zone_init_def Let_def path_def [symmetric] split: if_splits)
qed

lemma bump_serial_Inr:
  assumes "zone_bump_serial env fs config = (Inr s, fs')" and "ce_clock env = Some secs" and "unat (secs div 86400) \<le> 848000"
  shows "\<exists>path f before d. config = Some path \<and> fs path = Some f \<and>
     fs' = fs(path \<mapsto> f\<lparr>f_content := te_render (ce_toml env) (f_content f) d\<rparr>) \<and>
     parse_document (te_parse (ce_toml env)) (octets (f_content f)) = Inr before \<and>
     records d = records before \<and> serial_of d = Some s \<and> (\<forall>p. serial_of before = Some p \<longrightarrow> p \<le> s)"
proof -
  from assms obtain path f before d where p: "config = Some path" "fs path = Some f"
    "parse_document (te_parse (ce_toml env)) (octets (f_content f)) = Inr before"
    and s: "s = next_serial (serial_of before) (ymd_from_unix_days (secs div 86400))" and d: "set_serial s before = Inr d"
    and w: "save_editor env \<lparr>ed_path = path, ed_text = f_content f, ed_doc = d\<rparr> fs = (Inr (), fs')"
    by (auto simp: zone_bump_serial_def io_bind_Inr open_config_Inr map_sum_Inr today_utc_Inr Let_def)
  have "fs' = fs(path \<mapsto> f\<lparr>f_content := te_render (ce_toml env) (f_content f) d\<rparr>)"
    using save_Inr [OF w, of f] p(2) by simp
  moreover have "\<forall>p. serial_of before = Some p \<longrightarrow> p \<le> s" using serial_never_back [OF assms(3)] s by simp
  ultimately show ?thesis using p set_serial_read [OF d]
    by (intro exI [of _ path] exI [of _ f] exI [of _ before] exI [of _ d]) simp
qed

section \<open>The check before a restart\<close>

text \<open>C13: \<^verbatim>\<open>vega check\<close> passes exactly the configurations that are served as written. It succeeds just when the
  zone builds, holds at every name and for every type the records declared there, delegated subtrees
  included, and has an address for every name server at or below the delegation that names it.\<close>

theorem check_passes_iff:
  assumes "hickory_ok (ce_hickory env)" and "iter_ok iter" and "name_from_str (ce_hickory env) (zc_origin cfg) = Some origin"
  shows "zone_check env iter seed cfg = Inr () \<longleftrightarrow> (\<exists>Z. from_config (ce_hickory env) iter seed cfg = Inr Z \<and>
     (\<forall>n t i. node_named Z n = Some i \<longrightarrow> records_at Z (nodes Z ! i) t n = map (\<lambda>(ttl, v). from_rdata n ttl v)
        (declared (ce_hickory env) origin (zc_default_ttl cfg) (zc_records cfg) n t)) \<and>
     (\<forall>i < length (nodes Z). flags_contains (node_flags (nodes Z ! i)) DELEGATION \<longrightarrow>
        (\<forall>m \<in> set (ns_names (map rec_data (records_at Z (nodes Z ! i) RT_NS (owner_names Z ! i)))).
           suffix (owner_names Z ! i) m \<longrightarrow> glue_of Z m \<noteq> [])))"
proof (cases "from_config (ce_hickory env) iter seed cfg")
  case (Inl e)
  then show ?thesis by (simp add: zone_check_def)
next
  case (Inr Z)
  note exact = findings_cases [OF assms(1,2) Inr assms(3)] and all = no_finding_serves_all [OF assms(1,2) Inr assms(3)]
  let ?all = "\<forall>n t i. node_named Z n = Some i \<longrightarrow> records_at Z (nodes Z ! i) t n = map (\<lambda>(ttl, v). from_rdata n ttl v)
        (declared (ce_hickory env) origin (zc_default_ttl cfg) (zc_records cfg) n t)"
  let ?glue = "\<forall>i < length (nodes Z). flags_contains (node_flags (nodes Z ! i)) DELEGATION \<longrightarrow>
        (\<forall>m \<in> set (ns_names (map rec_data (records_at Z (nodes Z ! i) RT_NS (owner_names Z ! i)))).
           suffix (owner_names Z ! i) m \<longrightarrow> glue_of Z m \<noteq> [])"
  have check: "zone_check env iter seed cfg = Inr () \<longleftrightarrow> diagnostics Z = []"
    by (simp add: zone_check_def Inr report_findings_def)
  have none: "diagnostics Z = [] \<longleftrightarrow> (\<forall>n t. Occluded n t \<notin> set (diagnostics Z)) \<and> (\<forall>c m. MissingGlue c m \<notin> set (diagnostics Z))"
  proof (cases "diagnostics Z")
    case (Cons d ds)
    then show ?thesis by (cases d) auto
  qed simp
  have occluded: "Occluded n t \<notin> set (diagnostics Z)" if ?all for n t
  proof
    assume "Occluded n t \<in> set (diagnostics Z)"
    then obtain i where "declared (ce_hickory env) origin (zc_default_ttl cfg) (zc_records cfg) n t \<noteq> []"
      "node_named Z n = Some i" "records_at Z (nodes Z ! i) t n = []" using exact [of n t n] by blast
    then show False using that by fastforce
  qed
  have missing: "MissingGlue c m \<in> set (diagnostics Z) \<longleftrightarrow>
      (\<exists>i < length (nodes Z). flags_contains (node_flags (nodes Z ! i)) DELEGATION \<and> c = owner_names Z ! i \<and>
        m \<in> set (ns_names (map rec_data (records_at Z (nodes Z ! i) RT_NS c))) \<and> suffix c m \<and> glue_of Z m = [])" for c m
    by (rule exact [THEN conjunct2])
  have "(\<forall>c m. MissingGlue c m \<notin> set (diagnostics Z)) \<longleftrightarrow> ?glue" unfolding missing by blast
  then have "diagnostics Z = [] \<longleftrightarrow> ?all \<and> ?glue" using none occluded all by blast
  then show ?thesis unfolding check Inr sum.inject by blast
qed

definition tiny_config :: zone_config where
  "tiny_config = demo_zone_config\<lparr>zc_records := [demo_spec ''@'' ''NS'' ''ns.ex'']\<rparr>"

lemma tiny_checked: "zone_check demo_env (\<lambda>es. es) 7 tiny_config = Inr ()"
  by code_simp

theorem check_passes_iff_witness:
  "\<exists>Z. from_config demo_hickory (\<lambda>es. es) 7 tiny_config = Inr Z \<and>
     records_at Z (nodes Z ! 0) RT_NS [octets ''ex''] = [from_rdata [octets ''ex''] 60 (RD_NS [octets ''ns'', octets ''ex''])]"
proof -
  have E: "ce_hickory demo_env = demo_hickory" by (simp add: demo_env_def)
  have o: "name_from_str demo_hickory (zc_origin tiny_config) = Some [octets ''ex'']"
    using demo_origin by (simp add: tiny_config_def)
  from check_passes_iff [of demo_env "\<lambda>es. es" tiny_config "[octets ''ex'']" 7, unfolded E, OF demo_hickory_ok iter_id o] tiny_checked
  obtain Z where Z: "from_config demo_hickory (\<lambda>es. es) 7 tiny_config = Inr Z"
    and all: "\<And>n t i. node_named Z n = Some i \<Longrightarrow> records_at Z (nodes Z ! i) t n = map (\<lambda>(ttl, v). from_rdata n ttl v)
        (declared demo_hickory [octets ''ex''] (zc_default_ttl tiny_config) (zc_records tiny_config) n t)" by blast
  obtain es order where bu: "built demo_hickory [octets ''ex''] es order Z"
    by (rule from_config_view [OF demo_hickory_ok iter_id Z o]) (use demo_lower in simp)
  then have "node_named Z [octets ''ex''] = Some 0" using origin_named [OF built_names_ok] built_facts(5) by metis
  moreover have "map (\<lambda>(ttl, v). from_rdata [octets ''ex''] ttl v) (declared demo_hickory [octets ''ex'']
      (zc_default_ttl tiny_config) (zc_records tiny_config) [octets ''ex''] RT_NS) =
      [from_rdata [octets ''ex''] 60 (RD_NS [octets ''ns'', octets ''ex''])]" by code_simp
  ultimately show ?thesis using Z all by auto
qed

section \<open>What is reported\<close>

text \<open>The command looks the edited set up under a name without its trailing dots, the edit files it under the name
  with them: a name given with a dot is added as a set of its own, and another set is reported.\<close>

lemma reported_set_differs:
  assumes "existing_records d = Some [new_table ''www'' ''A'' [''192.0.2.9''] None, new_table ''www.'' ''A'' [''192.0.2.1''] None]"
  shows "find_entry \<lparr>ed_path = p, ed_text = x, ed_doc = d\<rparr> ''www.'' (Some ''A'') =
      Some (entry_of (new_table ''www'' ''A'' [''192.0.2.9''] None)) \<and>
    \<not> matches (new_table ''www'' ''A'' [''192.0.2.9''] None) (normalise_name ''www.'') ''A''"
proof -
  have n: "normalise ''www.'' = ''www''" "normalise ''www'' = ''www''" by code_simp+
  have "en_name (entry_of (new_table ''www'' ''A'' [''192.0.2.9''] None)) = ''www''"
    "en_type (entry_of (new_table ''www'' ''A'' [''192.0.2.9''] None)) = ''A''"
    by (simp_all add: entry_of_def new_table_def unwrap_or_def demo_upper)
  then have "find_entry \<lparr>ed_path = p, ed_text = x, ed_doc = d\<rparr> ''www.'' (Some ''A'') =
      Some (entry_of (new_table ''www'' ''A'' [''192.0.2.9''] None))"
    using assms n by (simp add: find_entry_def records_def is_none_or_def demo_upper)
  moreover have "\<not> matches (new_table ''www'' ''A'' [''192.0.2.9''] None) (normalise_name ''www.'') ''A''" by code_simp
  ultimately show ?thesis by blast
qed

lemma by_type_total:
  "sum_list (map snd (fold (\<lambda>r. count_type (en_type r) (length (en_values r))) rs m)) =
     sum_list (map snd m) + sum_list (map (\<lambda>r. length (en_values r)) rs)"
proof (induction rs arbitrary: m)
  case (Cons r rs)
  have "sum_list (map snd (count_type t n m)) = sum_list (map snd m) + n" for t n
    by (induction t n m rule: count_type.induct) simp_all
  with Cons show ?case by simp
qed simp

lemma zone_show_consistent:
  "zone_show env fs config = Inr z \<Longrightarrow> sum_list (map snd (zs_by_type z)) = zs_records z \<and> zs_names z \<le> zs_record_sets z"
  by (auto simp: zone_show_def rbind_eq_Inr Let_def by_type_total) (metis length_map length_remdups_leq)

end
