(* ===== verification/Cli.thy ===== *)
theory Cli
  imports Commands Client
begin

text \<open>
  The entry point: the migration of renamed environment variables, the search for a config file, the routing
  of a subcommand and the exit code it gives (\<^verbatim>\<open>src/main.rs\<close>, \<^verbatim>\<open>src/cli.rs\<close>). The parsed command line is the
  input; the command-line parser, the running server and the network are arguments.
\<close>

section \<open>The environment\<close>

definition RENAMED_ENV :: "(string \<times> string) list" where
  "RENAMED_ENV =
     [(''DNS_CONFIG'', ''VEGA_CONFIG''), (''DNS_UDP'', ''VEGA_UDP''), (''DNS_TCP'', ''VEGA_TCP''),
      (''DNS_ADMIN_LISTEN'', ''VEGA_ADMIN_LISTEN''), (''DNS_ADMIN_TOKEN'', ''VEGA_ADMIN_TOKEN''), (''DNS_DOMAIN'', ''VEGA_DOMAIN''),
      (''DNS_RATE_LIMIT_QPS'', ''VEGA_RATE_LIMIT_QPS''), (''DNS_RATE_LIMIT_BURST'', ''VEGA_RATE_LIMIT_BURST''),
      (''DNS_TCP_TIMEOUT_SECS'', ''VEGA_TCP_TIMEOUT_SECS''), (''DNS_NO_BUILTINS'', ''VEGA_NO_BUILTINS''),
      (''DNS_LOG_FORMAT'', ''VEGA_LOG_FORMAT''), (''DNS_LOG_LEVEL'', ''VEGA_LOG_LEVEL'')]"

type_synonym environment = "string \<Rightarrow> string option"

fun migrate_from :: "(string \<times> string) list \<Rightarrow> environment \<Rightarrow> environment" where
  "migrate_from [] vars = vars"
| "migrate_from ((old, new) # rest) vars =
     migrate_from rest
       (if vars new \<noteq> None then vars
        else case vars old of None \<Rightarrow> vars | Some v \<Rightarrow> vars(new \<mapsto> v))"

definition migrate_legacy_env :: "environment \<Rightarrow> environment" where
  "migrate_legacy_env vars = migrate_from RENAMED_ENV vars"

definition CONFIG_SEARCH_PATH :: "string list" where
  "CONFIG_SEARCH_PATH =
     [''vega.toml'', ''/etc/vega/vega.toml'', ''/usr/local/etc/vega/vega.toml'', ''dns-server.toml'',
      ''/etc/dns-server/dns-server.toml'', ''/usr/local/etc/dns-server/dns-server.toml'']"

definition config_path :: "disk \<Rightarrow> global_args \<Rightarrow> string option" where
  "config_path fs global = (case cli_config global of
       Some path \<Rightarrow> Some path
     | None \<Rightarrow> List.find (\<lambda>path. fs path \<noteq> None) CONFIG_SEARCH_PATH)"

section \<open>The commands\<close>

datatype record_action =
    R_List "string option" "string option"
  | R_Get string "string option"
  | R_Add string string "string list" "u32 option" bool bool bool
  | R_Delete string "string option" "string list" bool bool

datatype zone_action = Z_Show | Z_Export | Z_Bump_Serial

datatype command =
    Serve
  | Check
  | Init string "string option"
  | Record record_action
  | Zone zone_action
  | Query string string "string option" bool
  | Status
  | Reload
  | Healthcheck
  | Completions

datatype cli_error =
    Command_Failed cmd_error
  | Not_Loaded "load_stage \<times> config_error"
  | Http_Failed http_error
  | Dns_Failed client_error

record dns_reply =
  dr_truncation :: bool
  dr_noerror :: bool

record cli_env =
  cx_cmd :: cmd_env
  cx_deserialize :: "string \<Rightarrow> file_config option"
  cx_iter :: "entry list \<Rightarrow> entry list"
  cx_seed :: u64
  cx_serve :: "config \<Rightarrow> global_args \<Rightarrow> nat option"
  cx_get :: "sock_addr \<Rightarrow> string option \<Rightarrow> string \<Rightarrow> string option"
  cx_post :: "sock_addr \<Rightarrow> string option \<Rightarrow> string \<Rightarrow> string option"
  cx_encode :: "string \<Rightarrow> rtype \<Rightarrow> client_error + u8 list"
  cx_from_vec :: "u8 list \<Rightarrow> dns_reply option"
  cx_udp :: "sock_addr \<Rightarrow> u8 list \<Rightarrow> u8 list option"
  cx_tcp :: "sock_addr \<Rightarrow> u8 list \<Rightarrow> u8 list option"
  cx_parse_sock :: "string \<Rightarrow> sock_addr option"
  cx_parse_ip :: "string \<Rightarrow> ip_addr option"
  cx_json :: "string \<Rightarrow> unit option"
  cx_f64 :: "string \<Rightarrow> int option"
  cx_banner :: string
  cx_digits :: "nat \<Rightarrow> string"

definition exit_code :: "bool \<Rightarrow> nat" where
  "exit_code ok = (if ok then 0 else 1)"

definition load :: "cli_env \<Rightarrow> disk \<Rightarrow> global_args \<Rightarrow> cli_error + config" where
  "load env fs global =
     map_sum Not_Loaded fst (resolve_config (\<lambda>p. map_option f_content (fs p)) (cx_deserialize env) global)"

definition DEFAULT_ADMIN_ADDR :: sock_addr where
  "DEFAULT_ADMIN_ADDR = (V4 0x7F000001, 9100)"

definition admin_addr :: "global_args \<Rightarrow> sock_addr" where
  "admin_addr global = unwrap_or DEFAULT_ADMIN_ADDR (cli_admin_listen global)"

definition is_unspecified :: "ip_addr \<Rightarrow> bool" where
  "is_unspecified ip \<longleftrightarrow> ip = V4 0 \<or> ip = V6 0"

definition first_of :: "'a list \<Rightarrow> 'a option" where
  "first_of xs = (case xs of [] \<Rightarrow> None | x # _ \<Rightarrow> Some x)"

definition query_target :: "cli_env \<Rightarrow> disk \<Rightarrow> global_args \<Rightarrow> string option \<Rightarrow> cli_error + sock_addr" where
  "query_target env fs global server =
     (let parsed = (\<lambda>s. map_sum Dns_Failed id (parse_server (cx_parse_sock env) (cx_parse_ip env) s)) in
      case server of
        Some s \<Rightarrow> parsed s
      | None \<Rightarrow>
          (case load env fs global of
             Inr config \<Rightarrow>
               (case opt_or (first_of (cfg_udp config)) (first_of (cfg_tcp config)) of
                  Some (ip, port) \<Rightarrow> Inr (if is_unspecified ip then (V4 0x7F000001, port) else (ip, port))
                | None \<Rightarrow> parsed ''127.0.0.1:53'')
           | Inl _ \<Rightarrow> parsed ''127.0.0.1:53''))"

definition query_command :: "cli_env \<Rightarrow> sock_addr \<Rightarrow> string \<Rightarrow> string \<Rightarrow> bool \<Rightarrow> client_error + bool" where
  "query_command env addr n ty use_tcp =
     rbind (ok_or (NotAType ty) (rtype_from_str (ce_hickory (cx_cmd env)) (to_uppercase (trim ty)))) (\<lambda>rt.
     rbind (cx_encode env n rt) (\<lambda>wire.
     rbind (dns_query (cx_from_vec env) dr_truncation (cx_udp env addr) (cx_tcp env addr) wire use_tcp) (\<lambda>oc.
     Inr (dr_noerror (oc_message oc)))))"

definition reload_exit :: "cli_env \<Rightarrow> global_args \<Rightarrow> cli_error + nat" where
  "reload_exit env global =
     rbind (map_sum Http_Failed id (reload_server (cx_post env (admin_addr global) (cli_admin_token global) ''/reload'')))
       (\<lambda>ok. Inr (exit_code ok))"

definition finish_edit :: "cli_env \<Rightarrow> global_args \<Rightarrow> bool \<Rightarrow> cli_error + nat" where
  "finish_edit env global reload = (if \<not> reload then Inr 0 else reload_exit env global)"

definition serve_command :: "cli_env \<Rightarrow> disk \<Rightarrow> global_args \<Rightarrow> cli_error + nat" where
  "serve_command env fs global =
     rbind (load env fs global) (\<lambda>config. Inr (case cx_serve env config global of Some code \<Rightarrow> code | None \<Rightarrow> 1))"

text \<open>A subcommand gives its exit code or an error, and the files after it, which are those at the point where it
  returned: an edit stays when the reload after it is refused.\<close>

definition run_edit :: "cli_env \<Rightarrow> global_args \<Rightarrow> bool \<Rightarrow> edit_result io_result \<Rightarrow> (cli_error + nat) \<times> disk" where
  "run_edit env global reload r = (case r of
       (Inl e, fs) \<Rightarrow> (Inl (Command_Failed e), fs)
     | (Inr _, fs) \<Rightarrow> (finish_edit env global reload, fs))"

definition record_command :: "cli_env \<Rightarrow> disk \<Rightarrow> global_args \<Rightarrow> string option \<Rightarrow> record_action \<Rightarrow> (cli_error + nat) \<times> disk" where
  "record_command env fs global path action = (case action of
       R_List n ty \<Rightarrow> (rbind (map_sum Command_Failed id (record_list (cx_cmd env) fs path n ty)) (\<lambda>_. Inr 0), fs)
     | R_Get n ty \<Rightarrow> (rbind (map_sum Command_Failed id (record_get (cx_cmd env) fs path n ty)) (\<lambda>(found, _). Inr (exit_code found)), fs)
     | R_Add n ty vals ttl replace bump reload \<Rightarrow>
         run_edit env global reload (record_add (cx_cmd env) fs path n ty vals ttl replace bump)
     | R_Delete n ty vals bump reload \<Rightarrow>
         run_edit env global reload (record_delete (cx_cmd env) fs path n ty vals bump))"

definition dispatch :: "cli_env \<Rightarrow> disk \<Rightarrow> global_args \<Rightarrow> command option \<Rightarrow> (cli_error + nat) \<times> disk" where
  "dispatch env fs cli cmd =
     (let path = config_path fs cli;
          global = cli\<lparr>cli_config := path\<rparr>;
          quiet = (\<lambda>r. (map_sum Command_Failed (\<lambda>_. 0) r, fs))
      in case unwrap_or Serve cmd of
        Serve \<Rightarrow> (serve_command env fs global, fs)
      | Check \<Rightarrow>
          (rbind (load env fs global) (\<lambda>config.
           map_sum Command_Failed (\<lambda>_. 0) (zone_check (cx_cmd env) (cx_iter env) (cx_seed env) (cfg_zone config))), fs)
      | Init origin output \<Rightarrow>
          (case zone_init (cx_cmd env) fs output origin of (r, fs) \<Rightarrow> (map_sum Command_Failed (\<lambda>_. 0) r, fs))
      | Record action \<Rightarrow> record_command env fs cli path action
      | Zone Z_Show \<Rightarrow> quiet (map_sum id (\<lambda>_. ()) (zone_show (cx_cmd env) fs path))
      | Zone Z_Export \<Rightarrow> quiet (map_sum id (\<lambda>_. ()) (zone_export (cx_cmd env) (cx_banner env) (cx_digits env) fs path))
      | Zone Z_Bump_Serial \<Rightarrow>
          (case zone_bump_serial (cx_cmd env) fs path of (r, fs) \<Rightarrow> (map_sum Command_Failed (\<lambda>_. 0) r, fs))
      | Query n ty server use_tcp \<Rightarrow>
          (rbind (query_target env fs global server) (\<lambda>addr.
           rbind (map_sum Dns_Failed id (query_command env addr n ty use_tcp)) (\<lambda>ok. Inr (exit_code ok))), fs)
      | Status \<Rightarrow> (Inr (exit_code (status_command (cx_json env) () (cx_f64 env) (cx_get env (admin_addr cli) (cli_admin_token cli)))), fs)
      | Reload \<Rightarrow> (reload_exit env cli, fs)
      | Healthcheck \<Rightarrow> (Inr (case Client.probe (cx_get env (admin_addr cli) None ''/healthz'') of Inr _ \<Rightarrow> 0 | Inl _ \<Rightarrow> 1), fs)
      | Completions \<Rightarrow> (Inr 0, fs))"

definition main :: "cli_env \<Rightarrow> disk \<Rightarrow> global_args \<Rightarrow> command option \<Rightarrow> nat \<times> disk" where
  "main env fs cli cmd = (case dispatch env fs cli cmd of (Inr code, fs') \<Rightarrow> (code, fs') | (Inl _, fs') \<Rightarrow> (1, fs'))"

section \<open>Renamed variables\<close>

lemma migrate_from_at:
  assumes "distinct (map snd rs)" and "fst ` set rs \<inter> snd ` set rs = {}"
  shows "migrate_from rs vars x = (case map_of (map prod.swap rs) x of
     None \<Rightarrow> vars x | Some old \<Rightarrow> (case vars x of None \<Rightarrow> vars old | Some v \<Rightarrow> Some v))"
  using assms
proof (induction rs arbitrary: vars)
  case (Cons r rs)
  obtain old new where r: "r = (old, new)" by (cases r)
  let ?vars = "if vars new \<noteq> None then vars else case vars old of None \<Rightarrow> vars | Some v \<Rightarrow> vars(new \<mapsto> v)"
  have fresh: "new \<notin> snd ` set rs" "new \<notin> fst ` set rs" "old \<noteq> new" using Cons.prems r by auto
  then have none: "map_of (map prod.swap rs) new = None" by (auto simp: map_of_eq_None_iff image_iff)
  have other: "?vars y = vars y" if "y \<noteq> new" for y using that by (auto split: option.splits)
  have src: "o' \<noteq> new" if "map_of (map prod.swap rs) x = Some o'" for o'
    using map_of_SomeD [OF that] fresh(2) by force
  have "migrate_from (r # rs) vars x = migrate_from rs ?vars x" by (simp add: r)
  also have "\<dots> = (case map_of (map prod.swap rs) x of
      None \<Rightarrow> ?vars x | Some o' \<Rightarrow> (case ?vars x of None \<Rightarrow> ?vars o' | Some v \<Rightarrow> Some v))"
    by (rule Cons.IH) (use Cons.prems in auto)
  finally show ?case
    using none other src by (cases "x = new") (auto simp: r split: option.splits)
qed simp

lemma renamed_distinct:
  "distinct (map snd RENAMED_ENV)" "fst ` set RENAMED_ENV \<inter> snd ` set RENAMED_ENV = {}"
  by code_simp+

text \<open>An upgrade changes nothing: every renamed variable that is unset takes the value of its old name, one that
  is set keeps its own, no other variable is touched, and running again changes nothing more.\<close>

lemma legacy_env_migrated:
  "(\<forall>(old, new) \<in> set RENAMED_ENV. migrate_legacy_env vars new = (case vars new of None \<Rightarrow> vars old | Some v \<Rightarrow> Some v)) \<and>
   (\<forall>x. x \<notin> snd ` set RENAMED_ENV \<longrightarrow> migrate_legacy_env vars x = vars x) \<and>
   migrate_legacy_env (migrate_legacy_env vars) = migrate_legacy_env vars"
proof -
  note at = migrate_from_at [OF renamed_distinct, folded migrate_legacy_env_def]
  have sw: "map_of (map prod.swap RENAMED_ENV) new = Some old" if "(old, new) \<in> set RENAMED_ENV" for old new
    using that renamed_distinct(1) by (intro map_of_is_SomeI) (auto simp: comp_def image_iff intro!: bexI [of _ "(old, new)"])
  have out: "map_of (map prod.swap RENAMED_ENV) x = None" if "x \<notin> snd ` set RENAMED_ENV" for x
    using that by (auto simp: map_of_eq_None_iff image_iff)
  have "migrate_legacy_env vars new = (case vars new of None \<Rightarrow> vars old | Some v \<Rightarrow> Some v)" if "(old, new) \<in> set RENAMED_ENV" for old new
    using at [of vars new] sw [OF that] by simp
  moreover have keep: "migrate_legacy_env vars x = vars x" if "x \<notin> snd ` set RENAMED_ENV" for vars x
    using at [of vars x] out [OF that] by simp
  moreover have "migrate_legacy_env (migrate_legacy_env vars) x = migrate_legacy_env vars x" for x
  proof (cases "map_of (map prod.swap RENAMED_ENV) x")
    case (Some old)
    then have "old \<in> fst ` set RENAMED_ENV" by (force dest: map_of_SomeD)
    then have "migrate_legacy_env vars old = vars old" using renamed_distinct(2) by (intro keep) auto
    then show ?thesis using at [of "migrate_legacy_env vars" x] at [of vars x] Some by (auto split: option.splits)
  qed (simp add: at)
  ultimately show ?thesis by auto
qed

section \<open>What a command may change\<close>

definition rewritten :: "disk \<Rightarrow> string option \<Rightarrow> disk \<Rightarrow> bool" where
  "rewritten fs config fs' \<longleftrightarrow> (\<exists>path f c. config = Some path \<and> fs path = Some f \<and> fs' = fs(path \<mapsto> f\<lparr>f_content := c\<rparr>))"

text \<open>The files after a command on the config file: rewritten or as they were when it succeeds, and when it fails as they
  were, but for a temporary file next to the config file that could not be removed.\<close>

definition edit_effect :: "cmd_env \<Rightarrow> disk \<Rightarrow> string option \<Rightarrow> 'a io_result \<Rightarrow> bool" where
  "edit_effect env fs config r \<longleftrightarrow> (case r of
       (Inr _, fs') \<Rightarrow> fs' = fs \<or> rewritten fs config fs'
     | (Inl _, fs') \<Rightarrow> fs' = fs \<or> (\<exists>path. config = Some path \<and> fs path \<noteq> None \<and> left_behind (ce_save env) path fs fs'))"

lemma edit_effect_same: "edit_effect env fs config (r, fs)"
  by (cases r) (simp_all add: edit_effect_def)

lemma edit_effect_bind:
  assumes "\<And>a. r = Inr a \<Longrightarrow> edit_effect env fs config (f a fs)"
  shows "edit_effect env fs config (io_bind (r, fs) f)"
  using assms by (cases r) (simp_all add: io_bind_def edit_effect_def)

lemma save_effect:
  assumes "fs (ed_path ed) = Some f"
  shows "edit_effect env fs (Some (ed_path ed)) (io_bind (save_editor env ed fs) (\<lambda>_ fs. (Inr x, fs)))"
proof -
  obtain r fs' where s: "save_editor env ed fs = (r, fs')" by fastforce
  show ?thesis
  proof (cases r)
    case (Inl e)
    then show ?thesis using s assms save_Inl [of env ed fs e fs'] by (auto simp: edit_effect_def io_bind_def)
  next
    case (Inr u)
    then show ?thesis using s save_Inr [of env ed fs u fs', OF _ assms] assms by (auto simp: edit_effect_def io_bind_def rewritten_def)
  qed
qed

lemma conclude_effect:
  assumes "fs (ed_path ed) = Some f"
  shows "edit_effect env fs (Some (ed_path ed)) (conclude_edit env fs ed change n ty bump)"
  unfolding conclude_edit_def
proof (rule edit_effect_bind)
  fix x
  assume m: "maybe_bump env ed bump change = Inr x"
  obtain sn ed' where x: "x = (sn, ed')" by fastforce
  have "ed_path ed' = ed_path ed" using maybe_bump_Inr m x by blast
  then show "edit_effect env fs (Some (ed_path ed)) ((\<lambda>(serial, ed) fs.
      io_bind (if change \<noteq> change.Unchanged \<or> serial \<noteq> None then save_editor env ed fs else (Inr (), fs)) (\<lambda>_ fs.
      (Inr \<lparr>er_change = change, er_entry = find_entry ed n ty, er_serial = serial\<rparr>, fs))) x fs)"
    using save_effect [of fs ed' f] assms x by (auto simp: io_bind_def edit_effect_same)
qed

lemma edits_effect:
  "edit_effect env fs config (record_add env fs config n ty vals ttl replace bump)"
  "edit_effect env fs config (record_delete env fs config n ty' vals bump)"
  by (auto simp: record_add_def record_delete_def open_config_Inr intro!: edit_effect_bind conclude_effect [of _ "\<lparr>ed_path = _, ed_text = _, ed_doc = _\<rparr>", simplified])

lemma bump_effect: "edit_effect env fs config (zone_bump_serial env fs config)"
  unfolding zone_bump_serial_def Let_def
proof (intro edit_effect_bind)
  fix ed today d
  assume "open_config env fs config = Inr ed"
  then obtain path f where "config = Some path" "fs path = Some f" "ed_path ed = path" by (auto simp: open_config_Inr)
  then show "edit_effect env fs config (io_bind (save_editor env (ed\<lparr>ed_doc := d\<rparr>) fs)
      (\<lambda>_ fs. (Inr (next_serial (serial_of (ed_doc ed)) today), fs)))"
    using save_effect [of fs "ed\<lparr>ed_doc := d\<rparr>" f env] by simp
qed

text \<open>Which commands edit the config file, and which of these ask for a reload.\<close>

definition edits_config :: "command option \<Rightarrow> bool" where
  "edits_config cmd = (case cmd of
       Some (Record (R_Add _ _ _ _ _ _ _)) \<Rightarrow> True | Some (Record (R_Delete _ _ _ _ _)) \<Rightarrow> True
     | Some (Zone Z_Bump_Serial) \<Rightarrow> True | _ \<Rightarrow> False)"

definition reloads_after :: "command option \<Rightarrow> bool" where
  "reloads_after cmd = (case cmd of
       Some (Record (R_Add _ _ _ _ _ _ reload)) \<Rightarrow> reload | Some (Record (R_Delete _ _ _ _ reload)) \<Rightarrow> reload | _ \<Rightarrow> False)"

lemma run_edit_effect:
  assumes "run_edit env global reload e = (res, fs')" and "edit_effect cenv fs config e"
  shows "fs' = fs \<or> rewritten fs config fs' \<and> (reload \<or> res = Inr 0) \<or>
    isl res \<and> (\<exists>path. config = Some path \<and> fs path \<noteq> None \<and> left_behind (ce_save cenv) path fs fs')"
  using assms by (auto simp: run_edit_def edit_effect_def finish_edit_def split: prod.splits sum.splits if_splits)

text \<open>C37: whatever the command line says, a run touches at most one file. It leaves every file as it was; or
  rewrites the config file under the permission bits it had; or creates the starter file where none was; or, when it
  fails in a save and the operating system also refuses to remove the temporary file of that save, leaves that one file
  behind, under a name no file had. A run that exits with an error has changed neither the config file nor any other file
  there was, unless it is an edit that was saved and whose reload the server then refused.\<close>

theorem commands_touch_one_file:
  assumes "main env fs cli cmd = (code, fs')"
  shows "fs' = fs \<or>
     (edits_config cmd \<and> rewritten fs (config_path fs cli) fs' \<and> (code = 0 \<or> reloads_after cmd)) \<or>
     (\<exists>origin output f. cmd = Some (Init origin output) \<and> code = 0 \<and>
        fs (unwrap_or ''vega.toml'' output) = None \<and> fs' = fs(unwrap_or ''vega.toml'' output \<mapsto> f)) \<or>
     (code = 1 \<and> (\<exists>path. left_behind (ce_save (cx_cmd env)) path fs fs' \<and>
        (edits_config cmd \<and> config_path fs cli = Some path \<and> fs path \<noteq> None \<or>
         (\<exists>origin output. cmd = Some (Init origin output) \<and> path = unwrap_or ''vega.toml'' output \<and> fs path = None))))"
proof -
  obtain res where d: "dispatch env fs cli cmd = (res, fs')" and code: "res = Inr 0 \<Longrightarrow> code = 0" "isl res \<Longrightarrow> code = 1"
    using assms by (auto simp: main_def split: prod.splits sum.splits)
  show ?thesis
  proof (cases "unwrap_or Serve cmd")
    case (Record action)
    then have cmd: "cmd = Some (Record action)" by (cases cmd) (simp_all add: unwrap_or_def)
    have rc: "record_command env fs cli (config_path fs cli) action = (res, fs')" using d Record by (simp add: dispatch_def Let_def)
    show ?thesis
    proof (cases action)
      case (R_Add n ty vals ttl replace bump reload)
      then have "run_edit env cli reload (record_add (cx_cmd env) fs (config_path fs cli) n ty vals ttl replace bump) = (res, fs')"
        using rc by (simp add: record_command_def)
      from run_edit_effect [OF this edits_effect(1)] show ?thesis
        using cmd R_Add code by (auto simp: edits_config_def reloads_after_def)
    next
      case (R_Delete n ty vals bump reload)
      then have "run_edit env cli reload (record_delete (cx_cmd env) fs (config_path fs cli) n ty vals bump) = (res, fs')"
        using rc by (simp add: record_command_def)
      from run_edit_effect [OF this edits_effect(2)] show ?thesis
        using cmd R_Delete code by (auto simp: edits_config_def reloads_after_def)
    qed (use rc in \<open>simp_all add: record_command_def\<close>)
  next
    case (Zone action)
    then have "cmd = Some (Zone action)" by (cases cmd) (simp_all add: unwrap_or_def)
    then show ?thesis using d code Zone bump_effect [of "cx_cmd env" fs "config_path fs cli"]
      by (cases action) (auto simp: dispatch_def Let_def edit_effect_def edits_config_def split: prod.splits sum.splits)
  next
    case (Init origin out)
    then have cmd: "cmd = Some (Init origin out)" by (cases cmd) (simp_all add: unwrap_or_def)
    obtain r fs1 where z: "zone_init (cx_cmd env) fs out origin = (r, fs1)" by fastforce
    have e: "fs1 \<noteq> fs \<Longrightarrow> fs (unwrap_or ''vega.toml'' out) = None" using z by (auto simp: zone_init_def Let_def split: if_splits)
    from d Init z have "res = map_sum Command_Failed (\<lambda>_. 0) r" "fs' = fs1" by (simp_all add: dispatch_def Let_def)
    then show ?thesis using init_result [OF z] cmd code e
      by (cases r) (auto simp: Let_def split: if_splits)
  qed (use d in \<open>simp_all add: dispatch_def Let_def\<close>)
qed

definition cli_demo_args :: global_args where
  "cli_demo_args = \<lparr>cli_config = Some ''d'', cli_udp = [], cli_tcp = [], cli_admin_listen = None, cli_domain = None,
     cli_rate_limit_qps = None, cli_rate_limit_burst = None, cli_tcp_timeout_secs = None, cli_shutdown_drain_secs = None,
     cli_no_builtins = False, cli_log_format = None, cli_log_level = None, cli_admin_token = None\<rparr>"

definition demo_cli :: cli_env where
  "demo_cli = \<lparr>cx_cmd = demo_env, cx_deserialize = (\<lambda>_. None), cx_iter = (\<lambda>es. es), cx_seed = 7, cx_serve = (\<lambda>_ _. None),
     cx_get = (\<lambda>_ _ _. None), cx_post = (\<lambda>_ _ _. None), cx_encode = (\<lambda>_ _. Inl NoAnswer), cx_from_vec = (\<lambda>_. None),
     cx_udp = (\<lambda>_ _. None), cx_tcp = (\<lambda>_ _. None), cx_parse_sock = (\<lambda>_. None), cx_parse_ip = (\<lambda>_. None),
     cx_json = (\<lambda>_. None), cx_f64 = (\<lambda>_. None), cx_banner = [], cx_digits = (\<lambda>_. [])\<rparr>"

theorem commands_touch_one_file_witness:
  "\<exists>fs'. main demo_cli demo_disk cli_demo_args (Some (Init ''ex'' None)) = (0, fs') \<and> fs' ''c'' = demo_disk ''c'' \<and> fs' ''vega.toml'' \<noteq> None"
proof -
  have none: "demo_disk ''vega.toml'' = None" by (simp add: demo_disk_def)
  obtain fs' where r: "main demo_cli demo_disk cli_demo_args (Some (Init ''ex'' None)) = (0, fs')" "fs' ''vega.toml'' \<noteq> None"
    using none by (simp add: main_def dispatch_def Let_def zone_init_def demo_write path_dir_def demo_cli_def demo_env_def unwrap_or_def)
  have "config_path demo_disk cli_demo_args = Some ''d''" "demo_disk ''d'' = None" by (simp_all add: config_path_def cli_demo_args_def demo_disk_def)
  with commands_touch_one_file [OF r(1)] have "fs' ''c'' = demo_disk ''c''" by (auto simp: edits_config_def unwrap_or_def)
  with r show ?thesis by blast
qed

text \<open>A query goes to the address asked for, or to a listener of the configuration, and never to a wildcard
  address of one.\<close>

lemma query_target_specific:
  assumes "query_target env fs global None = Inr (ip, port)" and "\<And>s a. cx_parse_sock env s = Some a \<Longrightarrow> \<not> is_unspecified (fst a)"
    and "\<And>s a. cx_parse_ip env s = Some a \<Longrightarrow> \<not> is_unspecified a"
  shows "\<not> is_unspecified ip"
proof -
  have "\<not> is_unspecified ip'" if "parse_server (cx_parse_sock env) (cx_parse_ip env) s = Inr (ip', port')" for s ip' port'
    using that assms(2) [of "dropWhile (\<lambda>c. c = CHR ''@'') (trim s)"] assms(3) [of "dropWhile (\<lambda>c. c = CHR ''@'') (trim s)"]
    by (auto simp: parse_server_def Let_def split: if_splits option.splits)
  moreover have "\<not> is_unspecified (V4 0x7F000001)" by (simp add: is_unspecified_def)
  ultimately show ?thesis
    using assms(1) by (auto simp: query_target_def Let_def map_sum_Inr split: sum.splits option.splits if_splits)
qed

end
