(* ===== verification/Terminal.thy ===== *)
theory Terminal
  imports Client Complex_Main
begin

text \<open>
  Terminal output, \<^verbatim>\<open>src/ui.rs\<close>: the decision to colour, the styles, headings and fields, the table that
  pads styled cells by what a reader sees of them, durations and bars. A text is the list of its Unicode
  scalar values, so that counting characters is counting elements. The crate that paints a text is an
  argument; it is only known to put escape sequences that set graphics around it. What a helper prints is
  the list of lines it returns.
\<close>

section \<open>Styles\<close>

type_synonym utext = "nat list"

definition uc :: "string \<Rightarrow> utext" where
  "uc s = map of_char s"

abbreviation (input) SPACE :: nat where "SPACE \<equiv> 32"
abbreviation (input) ESC :: nat where "ESC \<equiv> 27"

record ui_state =
  ui_colour :: bool
  ui_verbose :: bool

record terminal =
  tm_vars :: "string \<rightharpoonup> string"
  tm_is_terminal :: bool

definition should_colour :: "terminal \<Rightarrow> bool \<Rightarrow> bool" where
  "should_colour term structured =
     (if structured then False
      else if tm_vars term ''CLICOLOR_FORCE'' \<noteq> None then True
      else if tm_vars term ''NO_COLOR'' \<noteq> None then False
      else if tm_vars term ''TERM'' = Some ''dumb'' then False
      else tm_is_terminal term)"

definition ui_init :: "terminal \<Rightarrow> bool \<Rightarrow> bool \<Rightarrow> ui_state" where
  "ui_init term structured verbose = \<lparr>ui_colour = should_colour term structured, ui_verbose = verbose\<rparr>"

datatype style = Bold | Dimmed | Green | Yellow | Red | Cyan | Magenta | Blue

type_synonym painter = "style \<Rightarrow> utext \<Rightarrow> utext"

text \<open>The settings of the process and the crate that paints, as every helper reads them.\<close>

type_synonym ui = "ui_state \<times> painter"

definition colour :: "ui \<Rightarrow> bool" where
  "colour u = ui_colour (fst u)"

definition verbose :: "ui \<Rightarrow> bool" where
  "verbose u = ui_verbose (fst u)"

definition styled :: "ui \<Rightarrow> style \<Rightarrow> utext \<Rightarrow> utext" where
  "styled u st t = (if colour u then snd u st t else t)"

definition heading :: "ui \<Rightarrow> utext \<Rightarrow> utext" where "heading u t = styled u Bold t"
definition label :: "ui \<Rightarrow> utext \<Rightarrow> utext" where "label u t = styled u Dimmed t"
definition good :: "ui \<Rightarrow> utext \<Rightarrow> utext" where "good u t = styled u Green t"
definition warn :: "ui \<Rightarrow> utext \<Rightarrow> utext" where "warn u t = styled u Yellow t"
definition bad :: "ui \<Rightarrow> utext \<Rightarrow> utext" where "bad u t = styled u Red t"
definition accent :: "ui \<Rightarrow> utext \<Rightarrow> utext" where "accent u t = styled u Cyan t"
definition muted :: "ui \<Rightarrow> utext \<Rightarrow> utext" where "muted u t = styled u Dimmed t"

definition ui_record_type :: "ui \<Rightarrow> utext \<Rightarrow> utext" where
  "ui_record_type u ty =
     (if \<not> colour u then ty
      else if ty \<in> {uc ''A'', uc ''AAAA''} then snd u Green ty
      else if ty \<in> {uc ''CNAME'', uc ''NS'', uc ''SOA'', uc ''DNAME''} then snd u Magenta ty
      else if ty \<in> {uc ''MX'', uc ''SRV'', uc ''SVCB'', uc ''HTTPS''} then snd u Blue ty
      else if ty \<in> {uc ''TXT'', uc ''CAA''} then snd u Yellow ty
      else snd u Cyan ty)"

definition ui_rcode :: "ui \<Rightarrow> utext \<Rightarrow> utext" where
  "ui_rcode u code =
     (if \<not> colour u then code
      else if code = uc ''NOERROR'' then snd u Bold (snd u Green code)
      else if code = uc ''NXDOMAIN'' then snd u Bold (snd u Yellow code)
      else snd u Bold (snd u Red code))"

definition tick :: "ui \<Rightarrow> utext" where
  "tick u = (if colour u then snd u Green [0x2714] else uc ''OK'')"

definition cross :: "ui \<Rightarrow> utext" where
  "cross u = (if colour u then snd u Red [0x2718] else uc ''FAIL'')"

definition bang :: "ui \<Rightarrow> utext" where
  "bang u = (if colour u then snd u Yellow (uc ''!'') else uc ''WARN'')"

section \<open>Lines and tables\<close>

definition ui_section :: "ui \<Rightarrow> utext \<Rightarrow> utext list" where
  "ui_section u title = [[], heading u title, muted u (replicate (max (length title) 8) 0x2500)]"

definition ui_field :: "ui \<Rightarrow> utext \<Rightarrow> utext \<Rightarrow> nat \<Rightarrow> utext" where
  "ui_field u name v width = label u name @ replicate (width - length name) SPACE @ [SPACE] @ v"

record table =
  tb_header :: "utext list"
  tb_rows :: "utext list list"
  tb_widths :: "nat list"

definition table_new :: "utext list \<Rightarrow> table" where
  "table_new header = \<lparr>tb_header = header, tb_rows = [], tb_widths = map length header\<rparr>"

definition widen :: "nat \<times> utext \<Rightarrow> nat list \<Rightarrow> nat list" where
  "widen p widths =
     (let (idx, text) = p; width = length text in
      if idx < length widths then widths[idx := max (widths ! idx) width] else widths @ [width])"

definition table_row :: "utext list \<Rightarrow> utext list \<Rightarrow> table \<Rightarrow> table" where
  "table_row cells plain t = t\<lparr>tb_widths := fold widen (enumerate 0 plain) (tb_widths t), tb_rows := tb_rows t @ [cells]\<rparr>"

definition table_len :: "table \<Rightarrow> nat" where
  "table_len t = length (tb_rows t)"

definition table_is_empty :: "table \<Rightarrow> bool" where
  "table_is_empty t = (tb_rows t = [])"

definition table_width :: "table \<Rightarrow> nat \<Rightarrow> nat" where
  "table_width t idx = (if idx < length (tb_widths t) then tb_widths t ! idx else 0)"

definition is_ascii_alphabetic :: "nat \<Rightarrow> bool" where
  "is_ascii_alphabetic c \<longleftrightarrow> 65 \<le> c \<and> c \<le> 90 \<or> 97 \<le> c \<and> c \<le> 122"

text \<open>What is left of the characters after the inner loop, which stops behind the letter it finds.\<close>

fun skip_escape :: "utext \<Rightarrow> utext" where
  "skip_escape [] = []"
| "skip_escape (esc # cs) = (if is_ascii_alphabetic esc then cs else skip_escape cs)"

lemma length_skip_escape: "length (skip_escape cs) \<le> length cs"
  by (induction cs) auto

function visible_width :: "utext \<Rightarrow> nat" where
  "visible_width [] = 0"
| "visible_width (ch # cs) = (if ch = ESC then visible_width (skip_escape cs) else visible_width cs + 1)"
  by pat_completeness auto

termination visible_width
  by (relation "measure length") (simp_all add: length_skip_escape less_Suc_eq_le)

definition pad :: "utext \<Rightarrow> nat \<Rightarrow> bool \<Rightarrow> utext" where
  "pad text width is_last = (if is_last then text else text @ replicate (width - length text) SPACE)"

definition pad_styled :: "utext \<Rightarrow> nat \<Rightarrow> bool \<Rightarrow> utext" where
  "pad_styled text width is_last =
     (if is_last then text
      else let visible = visible_width text in
        if visible < width then text @ replicate (width - visible) SPACE else text)"

fun join_with :: "utext \<Rightarrow> utext list \<Rightarrow> utext" where
  "join_with sep [] = []"
| "join_with sep [t] = t"
| "join_with sep (t # ts) = t @ sep @ join_with sep ts"

definition table_print :: "ui \<Rightarrow> table \<Rightarrow> utext list" where
  "table_print u t =
     (let last = length (tb_header t) - 1;
          header = map (\<lambda>(idx, cell). pad cell (table_width t idx) (idx = last)) (enumerate 0 (tb_header t));
          line = (\<lambda>row. join_with [SPACE, SPACE] (map (\<lambda>(idx, cell). pad_styled cell (table_width t idx) (idx = last)) (enumerate 0 row)))
      in label u (join_with [SPACE, SPACE] header) # map line (tb_rows t))"

section \<open>Durations and bars\<close>

text \<open>A double is a rational number, an infinity or not a number. Its product and the printing of it are
  arguments; truncation, clamping and the saturating conversion are exact.\<close>

datatype f64 = Finite rat | Infinite bool | NaN

definition count_u64 :: "f64 \<Rightarrow> nat" where
  "count_u64 x = (case x of
       NaN \<Rightarrow> 0
     | Infinite negative \<Rightarrow> if negative then 0 else 2 ^ 64 - 1
     | Finite q \<Rightarrow> if q < 0 then 0 else min (nat \<lfloor>q\<rfloor>) (2 ^ 64 - 1))"

definition below_one :: "f64 \<Rightarrow> bool" where
  "below_one x = (case x of NaN \<Rightarrow> False | Infinite negative \<Rightarrow> negative | Finite q \<Rightarrow> q < 1)"

definition duration :: "(f64 \<Rightarrow> string) \<Rightarrow> f64 \<Rightarrow> string" where
  "duration millis secs =
     (if below_one secs then millis secs @ ''ms''
      else
        let total = count_u64 secs;
            days = total div 86400; rest = total mod 86400;
            hours = rest div 3600; rest = rest mod 3600;
            minutes = rest div 60; seconds = rest mod 60
        in if days > 0 then show_nat days @ ''d '' @ show_nat hours @ ''h '' @ show_nat minutes @ ''m''
           else if hours > 0 then show_nat hours @ ''h '' @ show_nat minutes @ ''m '' @ show_nat seconds @ ''s''
           else if minutes > 0 then show_nat minutes @ ''m '' @ show_nat seconds @ ''s''
           else show_nat seconds @ ''s'')"

text \<open>The product of the clamped ratio and the width, rounded, is an argument.\<close>

definition bar :: "ui \<Rightarrow> ('r \<Rightarrow> nat \<Rightarrow> nat) \<Rightarrow> 'r \<Rightarrow> nat \<Rightarrow> utext" where
  "bar u scaled ratio width =
     (let filled = min (scaled ratio width) width;
          glyphs = replicate filled 0x2588 @ replicate (width - filled) 0x2591
      in if colour u then snd u Cyan glyphs else glyphs)"

section \<open>What a reader sees\<close>

text \<open>The text without its escape sequences.\<close>

function visible :: "utext \<Rightarrow> utext" where
  "visible [] = []"
| "visible (ch # cs) = (if ch = ESC then visible (skip_escape cs) else ch # visible cs)"
  by pat_completeness auto

termination visible
  by (relation "measure length") (simp_all add: length_skip_escape less_Suc_eq_le)

lemma visible_width_length: "visible_width t = length (visible t)"
  by (induction t rule: visible.induct) auto

text \<open>A text that shows another, wherever it is printed: it leaves no escape sequence open.\<close>

definition shows_as :: "utext \<Rightarrow> utext \<Rightarrow> bool" where
  "shows_as t p \<longleftrightarrow> (\<forall>s. visible (t @ s) = p @ visible s)"

named_theorems shown "texts and what they show"

lemma shows_visible: "shows_as t p \<Longrightarrow> visible t = p"
  using append_Nil2 unfolding shows_as_def by (metis visible.simps(1))

lemma shows_width: "shows_as t p \<Longrightarrow> visible_width t = length p"
  by (simp add: visible_width_length shows_visible)

lemma shows_Nil [shown]: "shows_as [] []"
  by (simp add: shows_as_def)

lemma shows_append [shown]: "shows_as a p \<Longrightarrow> shows_as b q \<Longrightarrow> shows_as (a @ b) (p @ q)"
  by (simp add: shows_as_def)

lemma shows_plain [shown]: "ESC \<notin> set t \<Longrightarrow> shows_as t t"
  by (induction t) (auto simp: shows_as_def)

text \<open>The form of a sequence that sets graphics: escape, bracket, numbers, \<^verbatim>\<open>m\<close>.\<close>

definition sgr :: "utext \<Rightarrow> bool" where
  "sgr t \<longleftrightarrow> (\<exists>ps. t = [ESC, 91] @ ps @ [109] \<and> (\<forall>c \<in> set ps. 48 \<le> c \<and> c \<le> 59))"

text \<open>What is known of the crate that paints: it writes one such sequence before a text and one after it.\<close>

definition paints :: "painter \<Rightarrow> bool" where
  "paints paint \<longleftrightarrow> (\<forall>st t. \<exists>before after. sgr before \<and> sgr after \<and> paint st t = before @ t @ after)"

lemma skip_escape_params: "\<forall>c \<in> set ps. 48 \<le> c \<and> c \<le> 59 \<Longrightarrow> skip_escape (ps @ 109 # s) = s"
  by (induction ps) (auto simp: is_ascii_alphabetic_def)

lemma shows_sgr: "sgr t \<Longrightarrow> shows_as t []"
  by (auto simp: sgr_def shows_as_def is_ascii_alphabetic_def skip_escape_params)

lemma shows_paint: "paints paint \<Longrightarrow> shows_as t p \<Longrightarrow> shows_as (paint st t) p"
  using shows_append [OF shows_sgr shows_append [OF _ shows_sgr]] unfolding paints_def by (metis append_Nil append_Nil2)

lemma shows_styled [shown]: "paints (snd u) \<Longrightarrow> shows_as t p \<Longrightarrow> shows_as (styled u st t) p"
  by (simp add: styled_def shows_paint)

lemma shows_record_type [shown]: "paints (snd u) \<Longrightarrow> shows_as t p \<Longrightarrow> shows_as (ui_record_type u t) p"
  by (simp add: ui_record_type_def shows_paint)

lemma shows_rcode [shown]: "paints (snd u) \<Longrightarrow> shows_as t p \<Longrightarrow> shows_as (ui_rcode u t) p"
proof -
  have "ui_rcode u t = t \<or> (\<exists>st. ui_rcode u t = snd u Bold (snd u st t))" by (auto simp: ui_rcode_def)
  then show "paints (snd u) \<Longrightarrow> shows_as t p \<Longrightarrow> shows_as (ui_rcode u t) p" by (auto simp: shows_paint)
qed

lemmas style_defs = heading_def label_def good_def warn_def bad_def accent_def muted_def

lemma shows_join: "list_all2 shows_as ts ps \<Longrightarrow> ESC \<notin> set sep \<Longrightarrow> shows_as (join_with sep ts) (join_with sep ps)"
proof (induction sep ts arbitrary: ps rule: join_with.induct)
  case (3 sep t t' ts)
  then obtain p p' qs where ps: "ps = p # p' # qs" by (auto simp: list_all2_Cons1)
  then show ?case using 3 by (auto intro!: shows_append shows_plain)
qed (auto simp: list_all2_Cons1 shows_Nil)

section \<open>The layout of a table\<close>

fun columns :: "nat list \<Rightarrow> nat list \<Rightarrow> nat list" where
  "columns [] ps = ps"
| "columns ws [] = ws"
| "columns (w # ws) (p # ps) = max w p # columns ws ps"

lemma columns_Nil [simp]: "columns ws [] = ws"
  by (cases ws) simp_all

lemma fold_widen_from:
  "n \<le> length ws \<Longrightarrow> fold widen (enumerate n plain) (take n ws @ ys) = take n ws @ columns ys (map length plain)"
proof (induction plain arbitrary: n ws ys)
  case (Cons t plain)
  show ?case
  proof (cases ys)
    case Nil
    let ?ws = "take n ws @ [length t]"
    have "take (Suc n) ?ws = ?ws" "Suc n \<le> length ?ws" using Cons.prems by simp_all
    with Cons.IH [of "Suc n" ?ws "[]"] Nil Cons.prems show ?thesis by (simp add: widen_def)
  next
    case (Cons w ys')
    let ?ws = "take n ws @ [max w (length t)]"
    have "take (Suc n) ?ws = ?ws" "Suc n \<le> length ?ws" using Cons.prems by simp_all
    with Cons.IH [of "Suc n" ?ws ys'] Cons Cons.prems show ?thesis by (simp add: widen_def nth_append list_update_append)
  qed
qed simp

lemma fold_widen: "fold widen (enumerate 0 plain) ws = columns ws (map length plain)"
  using fold_widen_from [of 0 "[]" plain ws] by simp

definition table_of :: "utext list \<Rightarrow> (utext list \<times> utext list) list \<Rightarrow> table" where
  "table_of header rows = fold (\<lambda>(cells, plain). table_row cells plain) rows (table_new header)"

text \<open>The width of each column: the longest of its heading and its cells.\<close>

definition column_widths :: "utext list list \<Rightarrow> nat \<Rightarrow> nat list" where
  "column_widths ls n = map (\<lambda>j. Max (set (map (\<lambda>l. length (l ! j)) ls))) [0..<n]"

fun line_layout :: "nat list \<Rightarrow> utext list \<Rightarrow> utext" where
  "line_layout ws [] = []"
| "line_layout ws [p] = p"
| "line_layout ws (p # ps) = pad p (hd ws) False @ [SPACE, SPACE] @ line_layout (tl ws) ps"

lemma length_columns: "length (columns ws ps) = max (length ws) (length ps)"
  by (induction ws ps rule: columns.induct) auto

lemma nth_columns: "j < length ws \<Longrightarrow> length ps = length ws \<Longrightarrow> columns ws ps ! j = max (ws ! j) (ps ! j)"
  by (induction ws ps arbitrary: j rule: columns.induct) (auto simp: nth_Cons split: nat.split)

lemma fold_columns:
  assumes "\<forall>l \<in> set ls. length l = n" "length l0 = n"
  shows "fold (\<lambda>l ws. columns ws (map length l)) ls (column_widths (l0 # pre) n) = column_widths ((l0 # pre) @ ls) n"
  using assms(1)
proof (induction ls arbitrary: pre)
  case (Cons l ls)
  have mx: "max (Max (insert b S)) a = Max (insert b (insert a S))" if "finite S" for a b :: nat and S
    using that by (subst insert_commute) (simp add: max.commute)
  have "columns (column_widths (l0 # pre) n) (map length l) = column_widths ((l0 # pre) @ [l]) n"
    using Cons.prems by (intro nth_equalityI) (auto simp: column_widths_def length_columns nth_columns mx simp del: Max_insert)
  then show ?case using Cons.IH [of "pre @ [l]"] Cons.prems by simp
qed simp

lemma table_of_fields:
  assumes "\<forall>r \<in> set rows. length (snd r) = length header"
  shows "table_of header rows =
    \<lparr>tb_header = header, tb_rows = map fst rows, tb_widths = column_widths (header # map snd rows) (length header)\<rparr>"
proof -
  have "fold (\<lambda>(cells, plain). table_row cells plain) rows t = t\<lparr>tb_rows := tb_rows t @ map fst rows,
      tb_widths := fold (\<lambda>l ws. columns ws (map length l)) (map snd rows) (tb_widths t)\<rparr>" for t
    by (induction rows arbitrary: t) (auto simp: table_row_def fold_widen)
  moreover have "map length header = column_widths [header] (length header)"
    by (intro nth_equalityI) (simp_all add: column_widths_def)
  ultimately show ?thesis using assms fold_columns [of "map snd rows" "length header" header "[]"]
    by (auto simp: table_of_def table_new_def)
qed

lemma layout_enumerate:
  "join_with [SPACE, SPACE] (map (\<lambda>(idx, p). pad p (W idx) (idx = n + length ps - 1)) (enumerate n ps)) = line_layout (map W [n..<n + length ps]) ps"
proof (induction ps arbitrary: n rule: induct_list012)
  case (3 p q ps)
  have "line_layout (map W [n..<n + length (p # q # ps)]) (p # q # ps) =
      pad p (W n) False @ [SPACE, SPACE] @ line_layout (map W [Suc n..<Suc n + length (q # ps)]) (q # ps)"
    by (simp add: upt_conv_Cons del: upt_Suc)
  then show ?case using 3(2) [of "Suc n"] by simp
qed (simp_all add: pad_def)

lemma shows_pad_styled: "shows_as t p \<Longrightarrow> shows_as (pad_styled t w l) (pad p w l)"
  by (auto simp: pad_styled_def pad_def shows_width Let_def intro!: shows_append shows_plain)

lemma shows_row:
  assumes "list_all2 shows_as cells plain"
  shows "shows_as (join_with [SPACE, SPACE] (map (\<lambda>(idx, cell). pad_styled cell (W idx) (idx = length plain - 1)) (enumerate 0 cells)))
    (line_layout (map W [0..<length plain]) plain)"
proof -
  have "list_all2 shows_as (map (\<lambda>(idx, cell). pad_styled cell (W idx) (idx = length plain - 1)) (enumerate 0 cells))
      (map (\<lambda>(idx, p). pad p (W idx) (idx = 0 + length plain - 1)) (enumerate 0 plain))"
    using assms by (auto simp: list_all2_conv_all_nth nth_enumerate_eq intro: shows_pad_styled)
  from shows_join [OF this, of "[SPACE, SPACE]"] show ?thesis unfolding layout_enumerate by simp
qed

theorem table_layout:
  assumes "paints (snd u)" and "\<forall>h \<in> set header. ESC \<notin> set h"
    and "\<forall>(cells, plain) \<in> set rows. length plain = length header \<and> list_all2 shows_as cells plain"
  shows "list_all2 shows_as (table_print u (table_of header rows))
    (map (line_layout (column_widths (header # map snd rows) (length header))) (header # map snd rows))"
proof -
  define t where "t = table_of header rows"
  have len: "\<forall>r \<in> set rows. length (snd r) = length header" using assms(3) by auto
  note fields = table_of_fields [OF len, folded t_def]
  have ws: "map (table_width t) [0..<length header] = column_widths (header # map snd rows) (length header)"
    by (intro nth_equalityI) (simp_all add: table_width_def fields column_widths_def)
  have "ESC \<notin> set (join_with [SPACE, SPACE] ts)" if "\<forall>t \<in> set ts. ESC \<notin> set t" for ts
    using that by (induction "[SPACE, SPACE]" ts rule: join_with.induct) auto
  moreover have "\<forall>t \<in> set (map (\<lambda>(idx, cell). pad cell (table_width t idx) (idx = 0 + length header - 1)) (enumerate 0 header)). ESC \<notin> set t"
    using assms(2) by (auto simp: pad_def in_set_enumerate_eq)
  ultimately have "ESC \<notin> set (join_with [SPACE, SPACE] (map (\<lambda>(idx, cell). pad cell (table_width t idx) (idx = 0 + length header - 1)) (enumerate 0 header)))"
    by blast
  from shows_styled [OF assms(1) shows_plain [OF this], of Dimmed]
  have "shows_as (label u (join_with [SPACE, SPACE] (map (\<lambda>(idx, cell). pad cell (table_width t idx) (idx = length header - 1)) (enumerate 0 header))))
      (line_layout (map (table_width t) [0..<length header]) header)"
    using layout_enumerate [of "table_width t" 0 header] by (simp add: label_def)
  moreover have "\<forall>r \<in> set rows. shows_as (join_with [SPACE, SPACE] (map (\<lambda>(idx, cell). pad_styled cell (table_width t idx) (idx = length header - 1)) (enumerate 0 (fst r))))
      (line_layout (map (table_width t) [0..<length header]) (snd r))"
  proof
    fix r assume "r \<in> set rows"
    then have "length (snd r) = length header" "list_all2 shows_as (fst r) (snd r)" using assms(3) by auto
    with shows_row [OF this(2), of "table_width t"] show "shows_as (join_with [SPACE, SPACE] (map (\<lambda>(idx, cell). pad_styled cell (table_width t idx) (idx = length header - 1)) (enumerate 0 (fst r))))
      (line_layout (map (table_width t) [0..<length header]) (snd r))" by simp
  qed
  moreover have "tb_header t = header" "tb_rows t = map fst rows" by (simp_all add: fields)
  ultimately show ?thesis
    unfolding t_def [symmetric] by (simp add: table_print_def Let_def ws list_all2_map1 list_all2_map2 list_all2_same)
qed

text \<open>A column starts at the same place of every line: behind the widths of the columns before it and two
  spaces for each.\<close>

lemma layout_column:
  assumes "j < length ps" "length ps = length ws" "\<forall>i < length ps. length (ps ! i) \<le> ws ! i"
  shows "take (length (ps ! j)) (drop (sum_list (take j ws) + 2 * j) (line_layout ws ps)) = ps ! j"
  using assms
proof (induction ws ps arbitrary: j rule: line_layout.induct)
  case (3 ws p q ps)
  obtain w ws' where ws: "ws = w # ws'" using 3(3) by (cases ws) auto
  have p: "length p \<le> w" using 3(4) by (auto simp: ws)
  show ?case
  proof (cases j)
    case (Suc k)
    have "\<forall>i < length (q # ps). length ((q # ps) ! i) \<le> ws' ! i" using 3(4) by (force simp: ws)
    then have "take (length ((q # ps) ! k)) (drop (sum_list (take k ws') + 2 * k) (line_layout ws' (q # ps))) = (q # ps) ! k"
      using 3 Suc ws by simp
    moreover have "drop (sum_list (take j ws) + 2 * j) (line_layout ws (p # q # ps)) = drop (sum_list (take k ws') + 2 * k) (line_layout ws' (q # ps))"
      using p by (simp add: Suc ws pad_def)
    ultimately show ?thesis using Suc by simp
  qed (simp add: pad_def)
qed simp_all

lemma length_le_column:
  "l \<in> set ls \<Longrightarrow> j < n \<Longrightarrow> length (l ! j) \<le> column_widths ls n ! j"
  by (simp add: column_widths_def)

lemma bar_width: "length (bar (s\<lparr>ui_colour := False\<rparr>, paint) scaled ratio width) = width"
  by (simp add: bar_def colour_def Let_def)

end
