(* ===== verification/Output.thy ===== *)
theory Output
  imports Commands Terminal
begin

text \<open>
  What the commands print for a reader: the table of record sets and the report of an edit
  (\<^verbatim>\<open>src/commands/record.rs\<close>), the findings of a check (\<^verbatim>\<open>src/commands/zone.rs\<close>), and the answer and the
  traffic of a server (\<^verbatim>\<open>src/commands/inspect.rs\<close>). Names, values and paths are ASCII. Each function
  returns the lines it prints.
\<close>

section \<open>Record sets\<close>

definition change_str :: "change \<Rightarrow> string" where
  "change_str c = (case c of Created \<Rightarrow> ''created'' | Extended \<Rightarrow> ''extended'' | Replaced \<Rightarrow> ''replaced''
     | Removed \<Rightarrow> ''removed'' | change.Unchanged \<Rightarrow> ''unchanged'')"

definition entry_rows :: "ui \<Rightarrow> string \<Rightarrow> record_entry \<Rightarrow> (utext list \<times> utext list) list" where
  "entry_rows u origin r =
     (let name = uc (fqdn (en_name r) origin);
          ttl = uc (case en_ttl r of None \<Rightarrow> ''-'' | Some t \<Rightarrow> show_nat (unat t) @ ''s'')
      in map (\<lambda>(idx, v).
           let (shown_name, shown_type, shown_ttl) = (if idx = 0 then (name, uc (en_type r), ttl) else ([], [], []))
           in ([accent u shown_name, ui_record_type u shown_type, muted u shown_ttl, uc v], [shown_name, shown_type, shown_ttl, uc v]))
         (enumerate 0 (en_values r)))"

definition RECORD_HEADER :: "utext list" where
  "RECORD_HEADER = [uc ''NAME'', uc ''TYPE'', uc ''TTL'', uc ''VALUE'']"

definition record_footer :: "string \<Rightarrow> record_entry list \<Rightarrow> utext" where
  "record_footer config rs = uc (show_nat (length rs) @ '' record set(s), '' @
     show_nat (sum_list (map (\<lambda>r. length (en_values r)) rs)) @ '' value(s) in '' @ config)"

definition print_table :: "ui \<Rightarrow> string \<Rightarrow> string \<Rightarrow> record_entry list \<Rightarrow> utext list" where
  "print_table u origin config rs =
     (if rs = [] then [bang u @ uc '' no records in '' @ muted u (uc config)]
      else table_print u (fold (\<lambda>(cells, plain). table_row cells plain) (concat (map (entry_rows u origin) rs)) (table_new RECORD_HEADER)) @
        [muted u (record_footer config rs)])"

definition ARROW :: utext where "ARROW = [32, 0x2192, 32]"

definition report_edit :: "ui \<Rightarrow> config_editor \<Rightarrow> change \<Rightarrow> record_entry option \<Rightarrow> u32 option \<Rightarrow> utext list" where
  "report_edit u ed change entry sn =
     (let origin = unwrap_or ''<unset>'' (origin_of (ed_doc ed));
          (symbol, verb) = (case change of
              Created \<Rightarrow> (tick u, good u (uc ''created'')) | Extended \<Rightarrow> (tick u, good u (uc ''extended''))
            | Replaced \<Rightarrow> (tick u, good u (uc ''replaced'')) | Removed \<Rightarrow> (tick u, warn u (uc ''removed''))
            | change.Unchanged \<Rightarrow> (bang u, muted u (uc ''unchanged'')))
      in [symbol @ [32] @ verb @ (case entry of
            Some e \<Rightarrow> [32] @ accent u (uc (fqdn (en_name e) origin)) @ [32] @ ui_record_type u (uc (en_type e)) @ ARROW @
              join_with (uc '', '') (map uc (en_values e))
          | None \<Rightarrow> [])] @
         (case sn of Some n \<Rightarrow> [muted u (uc ''  '') @ uc '' SOA serial'' @ ARROW @ accent u (uc (show_nat (unat n)))] | None \<Rightarrow> []) @
         (if verbose u then [label u (uc ''  config:'') @ [32] @ uc (ed_path ed)] else []))"

section \<open>Findings, answers and traffic\<close>

definition join_items :: "ui \<Rightarrow> utext list \<Rightarrow> utext" where
  "join_items u items = (if items = [] then muted u (uc ''none'') else join_with (uc '', '') items)"

text \<open>The text of a finding is an argument.\<close>

definition print_findings :: "ui \<Rightarrow> (diagnostic \<Rightarrow> utext) \<Rightarrow> zone \<Rightarrow> utext list" where
  "print_findings u note Z =
     (if diagnostics Z = [] then []
      else ui_section u (uc ''ZONE FINDINGS'') @ map (\<lambda>d. [32, 32] @ bang u @ [32] @ note d) (diagnostics Z) @ [[]])"

definition flags :: "ui \<Rightarrow> bool \<Rightarrow> bool \<Rightarrow> bool \<Rightarrow> utext" where
  "flags u authoritative truncated recursion_available =
     (let fs = (if authoritative then [good u (uc ''aa'')] else []) @ (if truncated then [warn u (uc ''tc'')] else []) @
            (if recursion_available then [muted u (uc ''ra'')] else [])
      in if fs = [] then muted u (uc ''none'') else join_with [32] fs)"

definition answer_hint :: "string \<Rightarrow> string" where
  "answer_hint code =
     (if code = ''NOERROR'' then ''the name exists but has no records of this type (NODATA)''
      else if code = ''NXDOMAIN'' then ''the name does not exist in this zone''
      else if code = ''REFUSED'' then ''the server is not authoritative for this name''
      else ''no answer records were returned'')"

text \<open>A record of an answer as the DNS crate prints its parts: name, time to live, type and data.\<close>

definition print_section :: "ui \<Rightarrow> string \<Rightarrow> (string \<times> u32 \<times> string \<times> string) list \<Rightarrow> utext list" where
  "print_section u title rs =
     (if rs = [] then []
      else ui_section u (uc title) @ table_print u (fold (\<lambda>(name, ttl, ty, d).
          let ttl = show_nat (unat ttl) @ ''s''
          in table_row [accent u (uc name), muted u (uc ttl), ui_record_type u (uc ty), uc d] [uc name, uc ttl, uc ty, uc d])
        rs (table_new [uc ''NAME'', uc ''TTL'', uc ''TYPE'', uc ''DATA''])))"

definition trim_matches :: "char set \<Rightarrow> string \<Rightarrow> string" where
  "trim_matches cs s = rev (dropWhile (\<lambda>c. c \<in> cs) (rev (dropWhile (\<lambda>c. c \<in> cs) s)))"

definition positive :: "f64 \<Rightarrow> bool" where
  "positive x = (case x of NaN \<Rightarrow> False | Infinite negative \<Rightarrow> \<not> negative | Finite q \<Rightarrow> 0 < q)"

definition breakdown_label :: "string \<Rightarrow> string \<Rightarrow> string option" where
  "breakdown_label series key =
     Option.bind (strip_prefix series key) (\<lambda>rest.
     Option.bind (strip_prefix ''{'' rest) (\<lambda>rest.
     map_option (\<lambda>(_, v). trim_matches {CHR 0x22, CHR ''}''} v) (split_once ''='' rest)))"

definition breakdown_rows :: "string \<Rightarrow> (string \<times> f64) list \<Rightarrow> (string \<times> f64) list" where
  "breakdown_rows series samples =
     List.map_filter (\<lambda>(key, v). Option.bind (breakdown_label series key) (\<lambda>l. if positive v then Some (l, v) else None)) samples"

text \<open>The division of doubles, the rounding of a bar and the printing of a percentage are arguments.\<close>

definition print_breakdown :: "ui \<Rightarrow> (f64 \<Rightarrow> f64 \<Rightarrow> f64) \<Rightarrow> (f64 \<Rightarrow> nat \<Rightarrow> nat) \<Rightarrow> (f64 \<Rightarrow> string) \<Rightarrow> string \<Rightarrow> (string \<times> f64) list \<Rightarrow> string \<Rightarrow> f64
    \<Rightarrow> utext list" where
  "print_breakdown u quot scaled percent title samples series all_queries =
     (let rows = breakdown_rows series samples in
      if rows = [] then []
      else ui_section u (uc title) @ table_print u (fold (\<lambda>(l, v).
          let share = (if positive all_queries then quot v all_queries else Finite 0);
              styled_label = (if title = ''RESPONSE CODES'' then ui_rcode u (uc (to_uppercase l)) else accent u (uc l));
              pct = uc (percent share @ ''%''); n = uc (show_nat (count_u64 v))
          in table_row [styled_label, n, pct, bar u scaled share 16] [uc l, n, pct, []])
        rows (table_new [uc ''LABEL'', uc ''COUNT'', uc ''SHARE'', []])))"

section \<open>Record tables, with and without colour\<close>

definition plain_entry :: "record_entry \<Rightarrow> bool" where
  "plain_entry r \<longleftrightarrow> (\<forall>s \<in> set ([en_name r, en_type r] @ en_values r). CHR 0x1B \<notin> set s)"

text \<open>The cells of a record set as they are read.\<close>

definition entry_cells :: "string \<Rightarrow> record_entry \<Rightarrow> utext list list" where
  "entry_cells origin r = map (\<lambda>(idx, v).
     (if idx = 0 then [uc (fqdn (en_name r) origin), uc (en_type r), uc (case en_ttl r of None \<Rightarrow> ''-'' | Some t \<Rightarrow> show_nat (unat t) @ ''s'')]
      else [[], [], []]) @ [uc v]) (enumerate 0 (en_values r))"

lemma ESC_uc: "ESC \<in> set (uc s) \<longleftrightarrow> CHR 0x1B \<in> set s"
proof -
  have "(of_char c :: nat) = 27 \<longleftrightarrow> c = CHR 0x1B" for c
    using of_char_eq_iff [of c "CHR 0x1B", where 'a = nat] by simp
  then show ?thesis unfolding uc_def set_map image_iff by metis
qed

lemma shows_uc: "CHR 0x1B \<notin> set s \<Longrightarrow> shows_as (uc s) (uc s)"
  by (simp add: shows_plain ESC_uc)

lemma plain_decimal: "CHR 0x1B \<notin> set (show_nat n)"
  using show_nat_digits [of n] by force

lemma entry_rows_shown:
  assumes "paints (snd u)" "plain_entry r" "CHR 0x1B \<notin> set origin"
  shows "map snd (entry_rows u origin r) = entry_cells origin r"
    and "\<forall>(cells, plain) \<in> set (entry_rows u origin r). length plain = length RECORD_HEADER \<and> list_all2 shows_as cells plain"
proof -
  show "map snd (entry_rows u origin r) = entry_cells origin r"
    by (auto simp: entry_rows_def entry_cells_def Let_def)
  have name: "CHR 0x1B \<notin> set (fqdn (en_name r) origin)" and ty: "CHR 0x1B \<notin> set (en_type r)"
    and ttl: "CHR 0x1B \<notin> set (case en_ttl r of None \<Rightarrow> ''-'' | Some t \<Rightarrow> show_nat (unat t) @ ''s'')"
    using assms plain_decimal by (auto simp: plain_entry_def fqdn_def split: option.split)
  have v: "CHR 0x1B \<notin> set v" if "(idx, v) \<in> set (enumerate 0 (en_values r))" for idx v
    using assms(2) that by (auto simp: plain_entry_def in_set_enumerate_eq)
  show "\<forall>(cells, plain) \<in> set (entry_rows u origin r). length plain = length RECORD_HEADER \<and> list_all2 shows_as cells plain"
    using assms(1) name ty ttl v
    by (auto simp: entry_rows_def RECORD_HEADER_def Let_def style_defs split: if_splits intro!: shows_styled shows_record_type shows_uc shows_Nil)
qed

text \<open>What a reader sees of the record sets is one text, whatever the colours: the cells under their headings,
  each column as wide as its widest cell.\<close>

theorem record_table_shown:
  assumes "paints (snd u)" "\<forall>r \<in> set rs. plain_entry r" "CHR 0x1B \<notin> set origin" "CHR 0x1B \<notin> set config" "rs \<noteq> []"
  shows "map visible (print_table u origin config rs) =
    (let ls = RECORD_HEADER # concat (map (entry_cells origin) rs) in map (line_layout (column_widths ls 4)) ls @ [record_footer config rs])"
proof -
  define rows where "rows = concat (map (entry_rows u origin) rs)"
  have cells: "map snd rows = concat (map (entry_cells origin) rs)"
    using entry_rows_shown(1) [OF assms(1)] assms(2,3) by (simp add: rows_def map_concat cong: map_cong)
  have "\<forall>(cells, plain) \<in> set rows. length plain = length RECORD_HEADER \<and> list_all2 shows_as cells plain"
    using entry_rows_shown(2) [OF assms(1)] assms(2,3) unfolding rows_def by fastforce
  moreover have "\<forall>h \<in> set RECORD_HEADER. ESC \<notin> set h" by (simp add: RECORD_HEADER_def ESC_uc)
  ultimately have "list_all2 shows_as (table_print u (table_of RECORD_HEADER rows))
      (map (line_layout (column_widths (RECORD_HEADER # map snd rows) (length RECORD_HEADER))) (RECORD_HEADER # map snd rows))"
    using table_layout [OF assms(1)] by blast
  then have "map visible (table_print u (table_of RECORD_HEADER rows)) =
      map (line_layout (column_widths (RECORD_HEADER # map snd rows) (length RECORD_HEADER))) (RECORD_HEADER # map snd rows)"
    by (intro nth_equalityI) (auto simp: list_all2_conv_all_nth shows_visible)
  moreover have "visible (muted u (record_footer config rs)) = record_footer config rs"
    using assms(1,4) plain_decimal by (auto simp: muted_def record_footer_def intro!: shows_visible shows_styled shows_uc)
  moreover have "length RECORD_HEADER = 4" by (simp add: RECORD_HEADER_def)
  ultimately show ?thesis
    using assms(5) by (simp add: print_table_def rows_def [symmetric] table_of_def [symmetric] cells Let_def)
qed

section \<open>From the counters of the server to the report of its traffic\<close>

text \<open>A sample as the server writes it. Counters are written in decimal; the printing of a double, for gauges
  and for seconds, is an argument.\<close>

definition QUOTE :: string where "QUOTE = [CHR 0x22]"

definition sample_key :: "sample \<Rightarrow> string" where
  "sample_key s = (case s of (name, labels, _) \<Rightarrow>
     name @ (if labels = [] then [] else ''{'' @ concat (map (\<lambda>(k, v). k @ ''='' @ QUOTE @ v @ QUOTE) labels) @ ''}''))"

definition GAUGES :: "string list" where
  "GAUGES = [''dns_uptime_seconds'', ''dns_zone_records'', ''dns_ratelimit_slots'', ''dns_ratelimit_active'']"

definition reading_text :: "(reading \<Rightarrow> string) \<Rightarrow> sample \<Rightarrow> string" where
  "reading_text number s = (case s of (name, _, r) \<Rightarrow>
     case r of Whole w \<Rightarrow> if name \<in> set GAUGES then number r else show_nat (unat w) | Fraction _ _ \<Rightarrow> number r)"

text \<open>Which comment lines stand before a sample is left open.\<close>

definition exposition :: "(reading \<Rightarrow> string) \<Rightarrow> (nat \<Rightarrow> string list) \<Rightarrow> sample list \<Rightarrow> string" where
  "exposition number comments ss =
     exposition_text (map (\<lambda>(i, s). (comments i, sample_key s, reading_text number s)) (enumerate 0 ss))"

text \<open>The samples of a scrape, those of the metrics and of the lifecycle, and the body the server sends with them.\<close>

definition served_samples :: "string \<Rightarrow> (nat \<Rightarrow> string) \<Rightarrow> nat \<Rightarrow> (nat \<times> nat) option \<Rightarrow> ('c, 'd) admin_state \<Rightarrow> sample list" where
  "served_samples version seconds now limiter a =
     render_prometheus version seconds now limiter (as_metrics a) @ render_lifecycle now (as_lifecycle a)"

definition metrics_text :: "(reading \<Rightarrow> string) \<Rightarrow> (nat \<Rightarrow> string list) \<Rightarrow> 'd http_response \<Rightarrow> string" where
  "metrics_text number comments r = (case ht_body r of Exposition ss \<Rightarrow> exposition number comments ss | _ \<Rightarrow> [])"

definition scrape :: "string \<Rightarrow> (nat \<Rightarrow> string) \<Rightarrow> nat \<Rightarrow> (nat \<times> nat) option \<Rightarrow> ip_addr \<Rightarrow> ('c, 'd) admin_state \<Rightarrow> 'c \<Rightarrow> 'd http_response" where
  "scrape version seconds now limiter peer a ctx = fst (router version seconds now limiter (endpoint_of ''/metrics'') peer None a ctx)"

lemma scrape_body:
  "ht_status (scrape version seconds now limiter peer a ctx) = 200"
  "metrics_text number comments (scrape version seconds now limiter peer a ctx) = exposition number comments (served_samples version seconds now limiter a)"
  by (simp_all add: scrape_def metrics_text_def router_def endpoint_of_def metrics_endpoint_def reply_def phase_header_def served_samples_def)

text \<open>What is known of doubles: a counter up to \<^verbatim>\<open>2^53\<close> is read back exactly, any counter is read as something,
  and a double is printed without white space and read as something.\<close>

definition reads_numbers :: "(string \<Rightarrow> f64 option) \<Rightarrow> (reading \<Rightarrow> string) \<Rightarrow> bool" where
  "reads_numbers parse_f64 number \<longleftrightarrow>
     (\<forall>n. parse_f64 (show_nat n) \<noteq> None \<and> (n \<le> 2 ^ 53 \<longrightarrow> parse_f64 (show_nat n) = Some (Finite (of_nat n)))) \<and>
     (\<forall>r. number r \<noteq> [] \<and> (\<forall>c \<in> set (number r). \<not> is_whitespace c) \<and> parse_f64 (number r) \<noteq> None)"

text \<open>Iterating over an ordered map gives its entries in the order of their keys.\<close>

definition btree_entries :: "(string \<rightharpoonup> 'v) \<Rightarrow> (string \<times> 'v) list \<Rightarrow> bool" where
  "btree_entries m xs \<longleftrightarrow> sorted (map fst xs) \<and> distinct (map fst xs) \<and> map_of xs = m"

definition RCODE_LABELS :: "string list" where
  "RCODE_LABELS = map fst TRACKED_RCODES @ [''other'']"

lemma breakdown_rows_iff:
  assumes "btree_entries m xs"
  shows "(l, v) \<in> set (breakdown_rows series xs) \<longleftrightarrow> (\<exists>key. m key = Some v \<and> breakdown_label series key = Some l \<and> positive v)"
proof -
  have "m key = Some v \<longleftrightarrow> (key, v) \<in> set xs" for key v using assms by (auto simp: btree_entries_def)
  then show ?thesis by (force simp: breakdown_rows_def List.map_filter_def bind_eq_Some_conv split: if_splits)
qed

lemma reading_text_number:
  assumes "reads_numbers parse_f64 number"
  shows "reading_text number s \<noteq> [] \<and> (\<forall>c \<in> set (reading_text number s). \<not> is_whitespace c) \<and> parse_f64 (reading_text number s) \<noteq> None"
proof -
  obtain name labels r where s: "s = (name, labels, r)" by (cases s) auto
  have "show_nat n \<noteq> [] \<and> (\<forall>c \<in> set (show_nat n). \<not> is_whitespace c) \<and> parse_f64 (show_nat n) \<noteq> None" for n
  proof -
    have "show_nat n \<noteq> []" by (subst show_nat.simps) simp
    then show ?thesis using assms show_nat_plain [of n] by (simp add: reads_numbers_def)
  qed
  then show ?thesis using assms by (cases r) (auto simp: s reading_text_def reads_numbers_def)
qed

definition series_name :: "string \<Rightarrow> bool" where
  "series_name name \<longleftrightarrow> name \<noteq> [] \<and> list_all (\<lambda>c. \<not> is_whitespace c) name \<and> hd name \<noteq> CHR ''#''"

lemma series_key:
  assumes "series_name name" "\<forall>(k, v) \<in> set labels. plain_line k \<and> plain_line v"
  shows "plain_line (sample_key (name, labels, r)) \<and> sample_key (name, labels, r) \<noteq> [] \<and>
    \<not> is_whitespace (hd (sample_key (name, labels, r))) \<and> \<not> is_whitespace (last (sample_key (name, labels, r))) \<and>
    hd (sample_key (name, labels, r)) \<noteq> CHR ''#''"
proof -
  have n: "name \<noteq> []" "\<forall>c \<in> set name. \<not> is_whitespace c" "hd name \<noteq> CHR ''#''" using assms by (auto simp: series_name_def list_all_iff)
  then have "\<not> is_whitespace (hd name)" "\<not> is_whitespace (last name)" by simp_all
  moreover have "plain_line name" using n(2) by (auto simp: plain_line_def CR_def LF_def is_whitespace_def)
  moreover have "\<not> is_whitespace (CHR ''}'')" by (simp add: is_whitespace_def)
  moreover have "plain_line (CHR ''{'' # s) \<longleftrightarrow> plain_line s" "plain_line (CHR ''='' # s) \<longleftrightarrow> plain_line s" "plain_line ''}''" "plain_line QUOTE" "plain_line []"
    "plain_line (a @ b) \<longleftrightarrow> plain_line a \<and> plain_line b" "plain_line (concat ls) \<longleftrightarrow> (\<forall>l \<in> set ls. plain_line l)" for s a b ls
    by (auto simp: plain_line_def CR_def LF_def QUOTE_def)
  ultimately show ?thesis using n(1,3) assms(2) by (auto simp: sample_key_def split_beta)
qed

lemmas render_defs = served_samples_def render_prometheus_def render_info_def render_queries_def render_rate_limit_def render_latency_def
  render_lifecycle_def

lemma sample_lines:
  assumes num: "reads_numbers parse_f64 number" and "plain_line version" "\<forall>n. plain_line (seconds n)"
    and "s \<in> set (served_samples version seconds now limiter a)"
  shows "sample_line (sample_key s) (reading_text number s) \<and> parse_f64 (reading_text number s) \<noteq> None"
proof -
  obtain name labels r where s: "s = (name, labels, r)" by (cases s) auto
  have pl: "plain_line ''version''" "plain_line ''transport''" "plain_line ''rcode''" "plain_line ''le''" "plain_line ''udp''" "plain_line ''tcp''"
    "plain_line ''other''" "plain_line ''+Inf''" "\<forall>(l, _) \<in> set TRACKED_RCODES. plain_line l"
    by (simp_all add: plain_line_def CR_def LF_def TRACKED_RCODES_def)
  have tr: "plain_line l" if "(i, l, c) \<in> set (enumerate 0 TRACKED_RCODES)" for i l c
    using pl(9) that by (auto simp: in_set_enumerate_eq dest!: nth_mem)
  have "\<forall>(k, v) \<in> set labels. plain_line k \<and> plain_line v"
    using assms(2-4) pl(1-8) tr by (auto simp: s render_defs split: option.splits)
  moreover have "list_all series_name [''dns_build_info'', ''dns_uptime_seconds'', ''dns_zone_records'', ''dns_queries_total'',
      ''dns_queries_by_transport_total'', ''dns_responses_total'', ''dns_rate_limited_total'', ''dns_send_errors_total'',
      ''dns_ratelimit_slots'', ''dns_ratelimit_active'', ''dns_query_duration_seconds_bucket'', ''dns_query_duration_seconds_sum'',
      ''dns_query_duration_seconds_count'', ''dns_shutdown_phase'', ''dns_shutdown_deadline_seconds'']"
    by (simp add: series_name_def is_whitespace_def)
  then have "series_name name"
    using assms(4) by (auto simp: s render_defs split: option.splits)
  ultimately show ?thesis using series_key [of name labels r] reading_text_number [OF num, of s] by (simp add: s sample_line_def)
qed

text \<open>The samples of the response codes among all of them.\<close>

definition response_samples :: "metrics \<Rightarrow> sample list" where
  "response_samples m = map (\<lambda>(l, c). (''dns_responses_total'', [(''rcode'', l)], Whole c)) (zip RCODE_LABELS (responses m))"

lemma filter_responses:
  assumes "length (responses (as_metrics a)) = length RCODE_LABELS"
  shows "filter (\<lambda>s. fst s = ''dns_responses_total'') (served_samples version seconds now limiter a) = response_samples (as_metrics a)"
proof -
  obtain c0 c1 c2 c3 c4 c5 c6 where "responses (as_metrics a) = [c0, c1, c2, c3, c4, c5, c6]"
    using assms by (auto simp: RCODE_LABELS_def TRACKED_RCODES_def length_Suc_conv)
  then show ?thesis
    by (auto simp: render_defs response_samples_def RCODE_LABELS_def TRACKED_RCODES_def filter_empty_conv split_beta split: option.split)
qed

lemma response_label:
  "l \<in> set RCODE_LABELS \<Longrightarrow> breakdown_label ''dns_responses_total'' (sample_key (''dns_responses_total'', [(''rcode'', l)], r)) = Some l"
  by (auto simp: RCODE_LABELS_def TRACKED_RCODES_def breakdown_label_def sample_key_def QUOTE_def strip_prefix_def split_once.simps trim_matches_def)

lemma other_label:
  assumes "s \<in> set (served_samples version seconds now limiter a)" "fst s \<noteq> ''dns_responses_total''"
  shows "breakdown_label ''dns_responses_total'' (sample_key s) = None"
  using assms by (auto simp: render_defs breakdown_label_def strip_prefix_def sample_key_def split: option.splits)

lemma response_keys_distinct:
  "length (responses m) = length RCODE_LABELS \<Longrightarrow> distinct (map sample_key (response_samples m))"
proof -
  assume len: "length (responses m) = length RCODE_LABELS"
  have "map sample_key (response_samples m) = map (\<lambda>l. sample_key (''dns_responses_total'', [(''rcode'', l)], Whole 0)) (map fst (zip RCODE_LABELS (responses m)))"
    by (simp add: response_samples_def sample_key_def split_beta)
  also have "\<dots> = map (\<lambda>l. sample_key (''dns_responses_total'', [(''rcode'', l)], Whole 0)) RCODE_LABELS" using len by simp
  finally show ?thesis by (simp add: RCODE_LABELS_def TRACKED_RCODES_def sample_key_def)
qed

lemma rows_of_labels:
  assumes "\<And>l c. (l, c) \<in> set Z \<Longrightarrow> F l c = G c" "\<And>l c. (l, c) \<in> set Z \<Longrightarrow> K l c = Some l" "\<And>c. positive (G c) \<longleftrightarrow> c \<noteq> (0 :: u64)"
  shows "(\<exists>p \<in> set Z. v = F (fst p) (snd p) \<and> K (fst p) (snd p) = Some l \<and> positive v) \<longleftrightarrow> (\<exists>c. (l, c) \<in> set Z \<and> v = G c \<and> c \<noteq> 0)"
  using assms by fastforce

lemma map_of_filter_key: "P k \<Longrightarrow> map_of (filter (\<lambda>(k, _). P k) xs) k = map_of xs k"
  by (induction xs) auto

lemma scraped_exposition:
  assumes num: "reads_numbers parse_f64 number" and "plain_line version" "\<forall>n. plain_line (seconds n)" "\<forall>i. \<forall>c \<in> set (comments i). plain_line c"
    and ss_def: "ss = served_samples version seconds now limiter a"
  shows "parse_prometheus parse_f64 (exposition number comments ss) =
    map_of (rev (map (\<lambda>s. (sample_key s, the (parse_f64 (reading_text number s)))) ss))"
proof -
  let ?ts = "map (\<lambda>(i, s). (comments i, sample_key s, reading_text number s)) (enumerate 0 ss)"
  have "\<forall>(cs, key, n) \<in> set ?ts. (\<forall>c \<in> set cs. plain_line c) \<and> sample_line key n \<and> parse_f64 n \<noteq> None"
    using sample_lines [OF num assms(2,3)] assms(4) by (fastforce simp: in_set_enumerate_eq ss_def dest: nth_mem)
  moreover have "map (\<lambda>(_, key, n). (key, the (parse_f64 n))) ?ts = map (\<lambda>s. (sample_key s, the (parse_f64 (reading_text number s)))) (map snd (enumerate 0 ss))"
    by (simp add: split_beta comp_def del: map_snd_enumerate)
  ultimately show ?thesis using scraped_samples [of ?ts parse_f64] by (simp add: exposition_def)
qed

text \<open>C35: what \<^verbatim>\<open>vega status\<close> shows under its response codes is what the server counted. The body read is the one
  the router answers \<^verbatim>\<open>GET /metrics\<close> with, the lifecycle series included. Whatever comments stand in it, the rows of the breakdown are the codes the server answered with at least once, each with
  its counter, as long as the counters stay within the integers a double holds exactly.\<close>

theorem status_shows_responses:
  assumes "reads_numbers parse_f64 number" and "plain_line version" "\<forall>n. plain_line (seconds n)" "\<forall>i. \<forall>c \<in> set (comments i). plain_line c"
    and "length (responses (as_metrics a)) = length RCODE_LABELS" "\<forall>c \<in> set (responses (as_metrics a)). unat c \<le> 2 ^ 53"
    and "let r = scrape version seconds now limiter peer a ctx in
      request (ask ''/metrics'') = Inr \<lparr>rs_status = ht_status r, rs_body = metrics_text number comments r\<rparr>"
    and "btree_entries (sn_samples (fetch json no_json parse_f64 ask)) xs"
  shows "set (breakdown_rows ''dns_responses_total'' xs) =
    {(l, Finite (of_nat (unat c))) |l c. (l, c) \<in> set (zip RCODE_LABELS (responses (as_metrics a))) \<and> c \<noteq> 0}"
proof -
  define m where "m = as_metrics a"
  note len = assms(5) [folded m_def] and small = assms(6) [folded m_def]
  note fr = filter_responses [OF assms(5), of version seconds now limiter, folded m_def]
  let ?ss = "served_samples version seconds now limiter a"
  let ?val = "\<lambda>s. (sample_key s, the (parse_f64 (reading_text number s)))"
  let ?lab = "breakdown_label ''dns_responses_total''"
  have lab: "?lab (sample_key s) \<noteq> None \<longleftrightarrow> fst s = ''dns_responses_total''" if "s \<in> set ?ss" for s
  proof
    assume "fst s = ''dns_responses_total''"
    then have "s \<in> set (filter (\<lambda>s. fst s = ''dns_responses_total'') ?ss)" using that by (simp only: set_filter mem_Collect_eq simp_thms)
    then have "s \<in> set (response_samples m)" unfolding fr .
    then show "?lab (sample_key s) \<noteq> None" using response_label by (auto simp: response_samples_def dest: set_zip_leftD)
  qed (rule contrapos_np [OF _ other_label [OF that]])
  have sn: "sn_samples (fetch json no_json parse_f64 ask) = map_of (rev (map ?val ?ss))"
    using assms(7) scraped_exposition [OF assms(1-4) refl] by (simp add: fetch_def Let_def scrape_body)
  have rs: "filter (\<lambda>(k, _). ?lab k \<noteq> None) (rev (map ?val ?ss)) = rev (map ?val (response_samples m))"
    unfolding fr [symmetric] using lab
    by (simp add: filter_map comp_def cong: filter_cong flip: rev_filter)
  have dist: "distinct (map fst (rev (map ?val (response_samples m))))"
    using response_keys_distinct [OF len] by (simp add: comp_def flip: rev_map)
  have "sn_samples (fetch json no_json parse_f64 ask) key = Some v \<longleftrightarrow> (key, v) \<in> set (map ?val (response_samples m))"
    if "?lab key \<noteq> None" for key v
    unfolding sn using map_of_filter_key [of "\<lambda>k. ?lab k \<noteq> None" key "rev (map ?val ?ss)", OF that] map_of_eq_Some_iff [OF dist, of key v]
    unfolding rs by (simp only: set_rev)
  then have rows: "(l, v) \<in> set (breakdown_rows ''dns_responses_total'' xs) \<longleftrightarrow>
      (\<exists>s \<in> set (response_samples m). v = the (parse_f64 (reading_text number s)) \<and> ?lab (sample_key s) = Some l \<and> positive v)" for l v
    unfolding breakdown_rows_iff [OF assms(8)] by fastforce
  have val: "the (parse_f64 (reading_text number (''dns_responses_total'', [(''rcode'', l)], Whole c))) = Finite (of_nat (unat c))"
    and key: "?lab (sample_key (''dns_responses_total'', [(''rcode'', l)], Whole c)) = Some l"
    if "(l, c) \<in> set (zip RCODE_LABELS (responses m))" for l c
    using assms(1) small set_zip_rightD [OF that] response_label [OF set_zip_leftD [OF that]]
    by (simp_all add: reading_text_def GAUGES_def reads_numbers_def)
  have pos: "positive (Finite (of_nat (unat c))) \<longleftrightarrow> c \<noteq> 0" for c :: u64
    using unat_gt_0 [of c] by (simp add: positive_def del: of_nat_unat)
  have "(l, v) \<in> set (breakdown_rows ''dns_responses_total'' xs) \<longleftrightarrow>
      (\<exists>c. (l, c) \<in> set (zip RCODE_LABELS (responses m)) \<and> v = Finite (of_nat (unat c)) \<and> c \<noteq> 0)" for l v
    unfolding rows response_samples_def set_map bex_simps using rows_of_labels [OF val key pos] by (simp only: split_beta)
  then show ?thesis by (auto simp: m_def)
qed

definition demo_f64 :: "string \<Rightarrow> f64 option" where
  "demo_f64 s = map_option (\<lambda>n. Finite (of_nat n)) (parse_digits 0 s)"

definition demo_scraped :: metrics where
  "demo_scraped = (metrics_new 0)\<lparr>responses := [5, 0, 2, 0, 0, 0, 0]\<rparr>"

lemma demo_reads: "reads_numbers demo_f64 (\<lambda>_. ''0'')"
  by (simp add: reads_numbers_def demo_f64_def parse_show_nat is_whitespace_def digit_value_def)

definition demo_state :: "(unit, unit) admin_state" where
  "demo_state = admin_new demo_scraped"

definition demo_ask :: "string \<Rightarrow> string option" where
  "demo_ask path = Some (response_text ''HTTP/1.1'' 200 ''OK'' []
     (exposition (\<lambda>_. ''0'') (\<lambda>_. []) (served_samples [] (\<lambda>_. []) 0 None demo_state)))"

lemma btree_entries_exist: "finite (dom m) \<Longrightarrow> \<exists>xs. btree_entries m xs"
proof
  let ?xs = "map (\<lambda>k. (k, the (m k))) (sorted_list_of_set (dom m))"
  assume fin: "finite (dom m)"
  then have "map_of ?xs = m" by (auto simp: map_of_map_restrict restrict_map_def fun_eq_iff domIff)
  then show "btree_entries m ?xs" using fin by (simp add: btree_entries_def comp_def)
qed

lemma demo_answer:
  "request (demo_ask ''/metrics'') = Inr \<lparr>rs_status = 200, rs_body = exposition (\<lambda>_. ''0'') (\<lambda>_. []) (served_samples [] (\<lambda>_. []) 0 None demo_state)\<rparr>"
proof -
  let ?body = "exposition (\<lambda>_. ''0'') (\<lambda>_. []) (served_samples [] (\<lambda>_. []) 0 None demo_state)"
  have "render_lifecycle 0 (as_lifecycle demo_state) = [(''dns_shutdown_phase'', [], Whole 0)]"
    by (simp add: render_lifecycle_def demo_state_def admin_new_def lifecycle_new_def phase_of_def from_bits_def deadline_in_def)
  then have "served_samples [] (\<lambda>_. []) 0 None demo_state = render_prometheus [] (\<lambda>_. []) 0 None demo_scraped @ [(''dns_shutdown_phase'', [], Whole 0)]"
    by (simp add: served_samples_def demo_state_def admin_new_def)
  then have "length ?body \<le> 4000"
    by (simp add: exposition_def exposition_text_def render_prometheus_def render_info_def render_queries_def render_rate_limit_def
      render_latency_def demo_scraped_def metrics_new_def TRACKED_RCODES_def LATENCY_BUCKETS_def sample_key_def reading_text_def GAUGES_def QUOTE_def show_nat.simps)
  then have "length (the (demo_ask ''/metrics'')) \<le> MAX_BODY"
    using length_show_nat [of 200] by (simp add: demo_ask_def response_text_def MAX_BODY_def CRLF_def)
  moreover have "parse (the (demo_ask ''/metrics'')) = Inr \<lparr>rs_status = 200, rs_body = ?body\<rparr>"
    unfolding demo_ask_def option.sel by (rule parse_response) (simp_all add: plain_line_def CR_def LF_def is_whitespace_def)
  ultimately show ?thesis by (simp add: request_def ok_or_def demo_ask_def)
qed

theorem status_shows_responses_witness:
  "\<exists>xs. btree_entries (sn_samples (fetch (\<lambda>_. None :: unit option) () demo_f64 demo_ask)) xs \<and>
     set (breakdown_rows ''dns_responses_total'' xs) = {(''noerror'', Finite 5), (''refused'', Finite 2)}"
proof -
  let ?s = "fetch (\<lambda>_. None :: unit option) () demo_f64 demo_ask"
  have "finite (dom (sn_samples ?s))"
    by (simp add: fetch_def Let_def demo_answer parse_prometheus_def fold_upds finite_dom_map_of dom_map_add)
  then obtain xs where xs: "btree_entries (sn_samples ?s) xs" using btree_entries_exist by blast
  have m: "length (responses (as_metrics demo_state)) = length RCODE_LABELS" "\<forall>c \<in> set (responses (as_metrics demo_state)). unat c \<le> 2 ^ 53"
    by (simp_all add: demo_state_def admin_new_def demo_scraped_def RCODE_LABELS_def TRACKED_RCODES_def)
  have pl: "plain_line []" by (simp add: plain_line_def)
  have got: "let r = scrape [] (\<lambda>_. []) 0 None (V4 0) demo_state () in
      request (demo_ask ''/metrics'') = Inr \<lparr>rs_status = ht_status r, rs_body = metrics_text (\<lambda>_. ''0'') (\<lambda>_. []) r\<rparr>"
    by (simp add: Let_def scrape_body demo_answer)
  have "set (breakdown_rows ''dns_responses_total'' xs) =
      {(l, Finite (of_nat (unat c))) |l c. (l, c) \<in> set (zip RCODE_LABELS (responses (as_metrics demo_state))) \<and> c \<noteq> 0}"
    by (rule status_shows_responses [OF demo_reads pl _ _ m got xs]) (simp_all add: pl)
  also have "\<dots> = {(''noerror'', Finite 5), (''refused'', Finite 2)}"
    by (auto simp: demo_state_def admin_new_def demo_scraped_def RCODE_LABELS_def TRACKED_RCODES_def)
  finally show ?thesis using xs by blast
qed

end
