(* ===== verification/Panels.thy ===== *)
theory Panels
  imports Output Handler_Theorems
begin

text \<open>
  The panels of \<^verbatim>\<open>vega query\<close> and \<^verbatim>\<open>vega status\<close> (\<^verbatim>\<open>src/commands/inspect.rs\<close>, with the names of response
  codes and transports of \<^verbatim>\<open>src/dnsclient.rs\<close>), line by line, and what they tell a reader of the server: the
  counters under the traffic are the server's own, and the hint on an answer without records is true of the
  answers with AA, but not of referrals nor of a refusal by the rate limiter.
\<close>

section \<open>The answer to a query\<close>

text \<open>The response codes that the sources name only here are known by their IANA numbers.\<close>

definition rcode_name :: "response_code \<Rightarrow> string" where
  "rcode_name c = (case c of
       NoError \<Rightarrow> ''NOERROR'' | FormErr \<Rightarrow> ''FORMERR'' | ServFail \<Rightarrow> ''SERVFAIL'' | NXDomain \<Rightarrow> ''NXDOMAIN''
     | NotImp \<Rightarrow> ''NOTIMP'' | Refused \<Rightarrow> ''REFUSED'' | BADVERS \<Rightarrow> ''BADVERS''
     | OtherCode k \<Rightarrow>
         if k = 6 then ''YXDOMAIN'' else if k = 7 then ''YXRRSET'' else if k = 8 then ''NXRRSET''
         else if k = 9 then ''NOTAUTH'' else if k = 10 then ''NOTZONE'' else if k = 16 then ''BADSIG''
         else if k = 17 then ''BADKEY'' else if k = 18 then ''BADTIME'' else if k = 19 then ''BADMODE''
         else if k = 20 then ''BADNAME'' else if k = 21 then ''BADALG'' else if k = 22 then ''BADTRUNC''
         else if k = 23 then ''BADCOOKIE'' else ''UNKNOWN'')"

definition transport_str :: "client_transport \<Rightarrow> string" where
  "transport_str t = (case t of Over_Udp \<Rightarrow> ''udp'' | Over_Tcp \<Rightarrow> ''tcp'')"

text \<open>A decoded response, its records as the DNS crate prints their parts.\<close>

record dns_message =
  ms_code :: response_code
  ms_authoritative :: bool
  ms_truncation :: bool
  ms_recursion_available :: bool
  ms_answers :: "(string \<times> u32 \<times> string \<times> string) list"
  ms_authorities :: "(string \<times> u32 \<times> string \<times> string) list"
  ms_additionals :: "(string \<times> u32 \<times> string \<times> string) list"

definition outcome_rcode :: "dns_message outcome \<Rightarrow> string" where
  "outcome_rcode oc = rcode_name (ms_code (oc_message oc))"

definition is_noerror :: "dns_message outcome \<Rightarrow> bool" where
  "is_noerror oc \<longleftrightarrow> ms_code (oc_message oc) = NoError"

text \<open>The server's address and the time taken come as they are printed.\<close>

definition print_answer :: "ui \<Rightarrow> string \<Rightarrow> string \<Rightarrow> string \<Rightarrow> dns_message outcome \<Rightarrow> utext list" where
  "print_answer u name server millis oc =
     (let m = oc_message oc; sent = uc (transport_str (oc_transport oc)) in
      ui_section u (uc ''QUERY'') @
      [ui_field u (uc ''name'') (accent u (uc name)) 16,
       ui_field u (uc ''server'') (uc server) 16,
       ui_field u (uc ''transport'')
         (if oc_retried_over_tcp oc then sent @ [SPACE] @ muted u (uc ''(retried after truncation)'') else sent) 16,
       ui_field u (uc ''rcode'') (ui_rcode u (uc (outcome_rcode oc))) 16,
       ui_field u (uc ''flags'') (flags u (ms_authoritative m) (ms_truncation m) (ms_recursion_available m)) 16,
       ui_field u (uc ''time'') (uc (millis @ '' ms'')) 16,
       ui_field u (uc ''size'') (uc (show_nat (oc_size oc) @ '' bytes'')) 16] @
      print_section u ''ANSWER'' (ms_answers m) @
      print_section u ''AUTHORITY'' (ms_authorities m) @
      (if verbose u then print_section u ''ADDITIONAL'' (ms_additionals m) else []) @
      (if ms_answers m = [] then [[], bang u @ [SPACE] @ muted u (uc (answer_hint (outcome_rcode oc)))] else []))"

section \<open>The status of a server\<close>

text \<open>Division and printing of doubles, the members of the build document and the wording of an error are
  arguments.\<close>

record 'j printers =
  pt_quotient :: "f64 \<Rightarrow> f64 \<Rightarrow> f64"
  pt_millis :: "f64 \<Rightarrow> string"
  pt_rate :: "f64 \<Rightarrow> string"
  pt_latency :: "f64 \<Rightarrow> string"
  pt_percent :: "f64 \<Rightarrow> string"
  pt_scaled :: "f64 \<Rightarrow> nat \<Rightarrow> nat"
  pt_double :: "f64 \<Rightarrow> string"
  pt_version :: "'j \<Rightarrow> string option"
  pt_reloads :: "'j \<Rightarrow> u64 option"
  pt_error :: "http_error \<Rightarrow> string"

definition snapshot_queries :: "('j, f64) snapshot \<Rightarrow> f64" where
  "snapshot_queries s = unwrap_or (Finite 0) (sn_samples s ''dns_queries_total'')"

definition field_of :: "'a option \<Rightarrow> ('a \<Rightarrow> utext) \<Rightarrow> utext list" where
  "field_of x f = (case x of None \<Rightarrow> [] | Some a \<Rightarrow> [f a])"

definition shown_count :: "f64 \<Rightarrow> utext" where
  "shown_count x = uc (show_nat (count_u64 x))"

definition print_server :: "ui \<Rightarrow> 'j printers \<Rightarrow> string \<Rightarrow> ('j, f64) snapshot \<Rightarrow> utext list" where
  "print_server u P addr s =
     ui_section u (uc ''SERVER'') @
     [ui_field u (uc ''admin'') (accent u (uc addr)) 16,
      ui_field u (uc ''health'') (if sn_healthy s then tick u @ uc '' healthy'' else cross u @ uc '' unhealthy'') 16,
      ui_field u (uc ''ready'') (if sn_ready s then tick u @ uc '' serving'' else bang u @ uc '' not accepting traffic'') 16] @
     field_of (pt_version P (sn_build s)) (\<lambda>v. ui_field u (uc ''version'') (accent u (uc v)) 16) @
     field_of (sn_samples s ''dns_uptime_seconds'') (\<lambda>t. ui_field u (uc ''uptime'') (uc (duration (pt_millis P) t)) 16) @
     field_of (pt_reloads P (sn_build s)) (\<lambda>n. ui_field u (uc ''reloads'') (uc (show_nat (unat n))) 16) @
     field_of (sn_samples s ''dns_zone_records'') (\<lambda>n. ui_field u (uc ''zone records'') (accent u (shown_count n)) 16)"

definition mean_latency :: "(f64 \<Rightarrow> f64 \<Rightarrow> f64) \<Rightarrow> (string \<rightharpoonup> f64) \<Rightarrow> f64 option" where
  "mean_latency quot samples =
     Option.bind (samples ''dns_query_duration_seconds_sum'') (\<lambda>total.
     Option.bind (samples ''dns_query_duration_seconds_count'') (\<lambda>n.
     if positive n then Some (quot total n) else None))"

definition print_traffic :: "ui \<Rightarrow> 'j printers \<Rightarrow> ('j, f64) snapshot \<Rightarrow> utext list" where
  "print_traffic u P s =
     (let queries = snapshot_queries s;
          dropped = unwrap_or (Finite 0) (sn_samples s ''dns_rate_limited_total'');
          send_errors = unwrap_or (Finite 0) (sn_samples s ''dns_send_errors_total'')
      in ui_section u (uc ''TRAFFIC'') @
         [ui_field u (uc ''queries'') (accent u (shown_count queries)) 16] @
         (case sn_samples s ''dns_uptime_seconds'' of
            Some t \<Rightarrow> if positive t then [ui_field u (uc ''average'') (uc (pt_rate P (pt_quotient P queries t) @ '' qps'')) 16] else []
          | None \<Rightarrow> []) @
         field_of (mean_latency (pt_quotient P) (sn_samples s)) (\<lambda>l. ui_field u (uc ''mean latency'') (uc (pt_latency P l @ '' ms'')) 16) @
         [ui_field u (uc ''rate limited'') (if positive dropped then warn u (shown_count dropped) else uc ''0'') 16,
          ui_field u (uc ''send errors'') (if positive send_errors then bad u (shown_count send_errors) else uc ''0'') 16])"

text \<open>The lines of \<^verbatim>\<open>status\<close> and its verdict; the samples are given in the order of their map.\<close>

definition print_status :: "ui \<Rightarrow> 'j printers \<Rightarrow> string \<Rightarrow> ('j, f64) snapshot \<Rightarrow> (string \<times> f64) list \<Rightarrow> utext list \<times> bool" where
  "print_status u P addr s samples =
     (case sn_error s of
        Some e \<Rightarrow> ([cross u @ [SPACE] @ accent u (uc addr) @ uc '' is unreachable: '' @ uc (pt_error P e)], False)
      | None \<Rightarrow>
          (let breakdown = (\<lambda>title series. print_breakdown u (pt_quotient P) (pt_scaled P) (pt_percent P) title samples series (snapshot_queries s))
           in (print_server u P addr s @ print_traffic u P s @
               breakdown ''RESPONSE CODES'' ''dns_responses_total'' @
               breakdown ''TRANSPORT'' ''dns_queries_by_transport_total'' @
               (if verbose u then ui_section u (uc ''RAW METRICS'') @
                  map (\<lambda>(key, v). label u (uc key) @ [SPACE] @ uc (pt_double P v)) samples else []),
               sn_healthy s \<and> sn_ready s)))"

section \<open>What the panels say of the server\<close>

text \<open>The verdict printed is the one the command returns.\<close>

lemma print_status_verdict:
  "snd (print_status u P addr (fetch json no_json parse_f64 ask) samples) = status_command json no_json parse_f64 ask"
  by (simp add: print_status_def status_command_def Let_def split: option.split)

text \<open>A code that the server tracks is shown by \<^verbatim>\<open>query\<close> under the name that \<^verbatim>\<open>status\<close> shows its counter under, and
  no two of the codes have one name.\<close>

lemma rcode_names_agree: "(l, c) \<in> set TRACKED_RCODES \<Longrightarrow> to_uppercase l = rcode_name c"
proof -
  have "list_all (\<lambda>(l, c). to_uppercase l = rcode_name c) TRACKED_RCODES" by code_simp
  then show "(l, c) \<in> set TRACKED_RCODES \<Longrightarrow> to_uppercase l = rcode_name c" by (auto simp: list_all_iff)
qed

lemma rcode_name_inj: "rcode_name c = rcode_name d \<Longrightarrow> rcode_name c \<noteq> ''UNKNOWN'' \<Longrightarrow> c = d"
  by (auto simp: rcode_name_def split: response_code.splits if_splits)

lemma map_of_only: "(k, v) \<in> set xs \<Longrightarrow> \<forall>(k', v') \<in> set xs. k' = k \<longrightarrow> v' = v \<Longrightarrow> map_of xs k = Some v"
  by (induction xs) auto

text \<open>The three counters of the traffic panel, as they are rendered.\<close>

definition traffic_counters :: "metrics \<Rightarrow> (string \<times> u64) list" where
  "traffic_counters m = [(''dns_queries_total'', queries_total m), (''dns_rate_limited_total'', rate_limited_total m),
     (''dns_send_errors_total'', send_errors_total m)]"

lemma traffic_rendered:
  assumes "(name, w) \<in> set (traffic_counters (as_metrics a))"
  shows "(name, [], Whole w) \<in> set (served_samples version seconds now limiter a)"
    and "s \<in> set (served_samples version seconds now limiter a) \<Longrightarrow> sample_key s = name \<Longrightarrow> s = (name, [], Whole w)"
  using assms by (auto simp: traffic_counters_def render_defs sample_key_def split: option.splits)

lemma scraped_counter:
  assumes "reads_numbers parse_f64 number" and "plain_line version" "\<forall>n. plain_line (seconds n)" "\<forall>i. \<forall>c \<in> set (comments i). plain_line c"
    and "let r = scrape version seconds now limiter peer a ctx in
      request (ask ''/metrics'') = Inr \<lparr>rs_status = ht_status r, rs_body = metrics_text number comments r\<rparr>"
    and "(name, w) \<in> set (traffic_counters (as_metrics a))" "unat w \<le> 2 ^ 53"
  shows "sn_samples (fetch json no_json parse_f64 ask) name = Some (Finite (of_nat (unat w)))"
proof -
  let ?ss = "served_samples version seconds now limiter a"
  let ?val = "\<lambda>s. (sample_key s, the (parse_f64 (reading_text number s)))"
  have v: "?val (name, [], Whole w) = (name, Finite (of_nat (unat w)))"
    using assms(1,6,7) by (auto simp: traffic_counters_def sample_key_def reading_text_def GAUGES_def reads_numbers_def)
  have "(name, Finite (of_nat (unat w))) \<in> set (rev (map ?val ?ss))"
    using imageI [OF traffic_rendered(1) [OF assms(6), of version seconds now limiter], of ?val] v by simp
  moreover have "\<forall>(k', v') \<in> set (rev (map ?val ?ss)). k' = name \<longrightarrow> v' = Finite (of_nat (unat w))"
    using traffic_rendered(2) [OF assms(6)] v by fastforce
  ultimately show ?thesis
    using assms(5) scraped_exposition [OF assms(1-4) refl, where a = a] by (simp add: fetch_def Let_def scrape_body map_of_only del: of_nat_unat)
qed

text \<open>The traffic panel prints the server's own counters, as long as they stay within the integers a double
  holds exactly.\<close>

lemma traffic_panel_counts:
  assumes "reads_numbers parse_f64 number" and "plain_line version" "\<forall>n. plain_line (seconds n)" "\<forall>i. \<forall>c \<in> set (comments i). plain_line c"
    and "let r = scrape version seconds now limiter peer a ctx in
      request (ask ''/metrics'') = Inr \<lparr>rs_status = ht_status r, rs_body = metrics_text number comments r\<rparr>"
    and "\<forall>(_, w) \<in> set (traffic_counters (as_metrics a)). unat w \<le> 2 ^ 53" and "\<not> colour u"
  shows "{ui_field u (uc ''queries'') (uc (show_nat (unat (queries_total (as_metrics a))))) 16,
      ui_field u (uc ''rate limited'') (uc (show_nat (unat (rate_limited_total (as_metrics a))))) 16,
      ui_field u (uc ''send errors'') (uc (show_nat (unat (send_errors_total (as_metrics a))))) 16}
    \<subseteq> set (print_traffic u P (fetch json no_json parse_f64 ask))"
proof -
  let ?s = "fetch json no_json parse_f64 ask"
  have c: "sn_samples ?s name = Some (Finite (of_nat (unat w)))" if "(name, w) \<in> set (traffic_counters (as_metrics a))" for name w
    by (rule scraped_counter [where ask = ask, OF assms(1-5) that]) (use assms(6) that in auto)
  have s: "sn_samples ?s ''dns_queries_total'' = Some (Finite (of_nat (unat (queries_total (as_metrics a)))))"
    "sn_samples ?s ''dns_rate_limited_total'' = Some (Finite (of_nat (unat (rate_limited_total (as_metrics a)))))"
    "sn_samples ?s ''dns_send_errors_total'' = Some (Finite (of_nat (unat (send_errors_total (as_metrics a)))))"
    by (rule c, simp add: traffic_counters_def)+
  have n: "shown_count (Finite (of_nat (unat w))) = uc (show_nat (unat w))" for w :: u64
    using unat_less_pow [of w] by (simp add: shown_count_def count_u64_def del: of_nat_unat)
  have z: "\<not> positive (Finite (of_nat (unat w))) \<Longrightarrow> show_nat (unat w) = ''0''" for w :: u64
  proof -
    have "show_nat 0 = ''0''" by code_simp
    then show "\<not> positive (Finite (of_nat (unat w))) \<Longrightarrow> show_nat (unat w) = ''0''" by (simp add: positive_def del: of_nat_unat)
  qed
  have f: "accent u (shown_count (Finite (of_nat (unat w)))) = uc (show_nat (unat w))"
    "(if positive (Finite (of_nat (unat w))) then warn u (shown_count (Finite (of_nat (unat w)))) else uc ''0'') = uc (show_nat (unat w))"
    "(if positive (Finite (of_nat (unat w))) then bad u (shown_count (Finite (of_nat (unat w)))) else uc ''0'') = uc (show_nat (unat w))" for w :: u64
    using assms(7) z [of w] unfolding n by (auto simp: styled_def style_defs del: of_nat_unat)
  show ?thesis
    unfolding print_traffic_def snapshot_queries_def Let_def s unwrap_or_simps f by simp
qed

section \<open>The hint on an answer without records\<close>

abbreviation (input) NODATA_HINT :: string where
  "NODATA_HINT \<equiv> ''the name exists but has no records of this type (NODATA)''"

abbreviation (input) NXDOMAIN_HINT :: string where
  "NXDOMAIN_HINT \<equiv> ''the name does not exist in this zone''"

abbreviation (input) REFUSED_HINT :: string where
  "REFUSED_HINT \<equiv> ''the server is not authoritative for this name''"

text \<open>On an answer with AA and without records the hint is true: it denies the name exactly when the name is a
  name error of the zone. Under a delegation the hint is always the one for NODATA.\<close>

lemma hint_of_answer:
  assumes "hickory_ok E" and "iter_ok iter" and "from_config E iter seed cfg = Inr (act_zone (h_active h))"
    and "is_lower n" and "length n \<le> 127" and "suffix (lower_origin (act_zone (h_active h))) n"
    and "resolve_builtin E build (h_metrics h) (h_active h) n t src = None"
    and "t \<noteq> RT_ANY" and "t = RT_SOA \<longrightarrow> n \<noteq> lower_origin (act_zone (h_active h))"
    and "r_answers (handler_resolve E build h n t src) = []"
  shows "answer_hint (rcode_name (r_code (handler_resolve E build h n t src))) =
    (if r_authoritative (handler_resolve E build h n t src) \<and> name_error (act_zone (h_active h)) n then NXDOMAIN_HINT else NODATA_HINT)"
proof -
  define Z where "Z = act_zone (h_active h)"
  have g: "served_query (E, Z) n" using from_config_served [OF assms(1-6)] by (simp add: Z_def)
  have r: "handler_resolve E build h n t src = resolved_of Z (lookup E Z n t)"
    using from_config_contains [OF assms(1-4)] assms(6-9) by (auto simp: handler_resolve_def Let_def Z_def)
  have nx: "lookup E Z n t = NxDomain \<longleftrightarrow> name_error Z n" using served_lookup [OF g, of t] by (simp add: spec_lookup_NxDomain)
  show ?thesis
    using nx assms(10) unfolding r Z_def [symmetric]
    by (cases "lookup E Z n t") (auto simp: resolved_of_def resolved_defs rcode_name_def answer_hint_def split: if_splits)
qed

text \<open>So a referral is read out as a name that exists: here for a name the zone does not have.\<close>

lemma referral_read_as_nodata:
  "let n = [octets ''q'', octets ''sub'', octets ''ex'']; r = handler_resolve demo_hickory [] demo_handler n RT_A (V4 0) in
     \<not> zone_exists demo_hickory demo_zone n \<and> r_answers r = [] \<and> answer_hint (rcode_name (r_code r)) = NODATA_HINT"
proof -
  let ?n = "[octets ''q'', octets ''sub'', octets ''ex'']"
  have suf: "suffix (lower_origin demo_zone) ?n" by (simp add: demo_zone_origin suffix_Cons)
  have g: "served_query (demo_hickory, demo_zone) ?n"
    using from_config_served [OF demo_hickory_ok iter_id demo_zone_builds demo_names(2)] suf by simp
  obtain au ad where l: "lookup demo_hickory demo_zone ?n RT_A = Referral [] au ad"
    using served.cut_referral [OF g, of RT_A] demo_name_cut by auto
  have "contains demo_hickory demo_zone ?n"
    using from_config_contains [OF demo_hickory_ok iter_id demo_zone_builds demo_names(2)] suf by simp
  then have "handler_resolve demo_hickory [] demo_handler ?n RT_A (V4 0) = resolved_of demo_zone (Referral [] au ad)"
    using demo_no_builtin by (simp add: handler_resolve_def Let_def demo_handler_zone l)
  then show ?thesis
    using demo_name_absent by (simp add: Let_def resolved_of_def resolved_defs rcode_name_def answer_hint_def)
qed

text \<open>And a query over TCP that the rate limiter turns away is read out as one for another server's name.\<close>

lemma limited_read_as_foreign:
  assumes "\<not> fst (check_limiter rq now outcome h)" and "rq_protocol rq = Proto_Tcp"
  shows "\<exists>r. fst (Handler.dispatch E build rq now outcome h) = Some r \<and> r_answers r = [] \<and> answer_hint (rcode_name (r_code r)) = REFUSED_HINT"
  using assms by (auto simp: Handler.dispatch_def refused_def rcode_name_def answer_hint_def split: prod.split)

end
