(* ===== verification/Spec2Isabelle.thy ===== *)
theory Spec2Isabelle
  imports Reload_Steps Typed Process Cli Panels
begin

text \<open>
  \<^bold>\<open>A verification of the authoritative DNS server under \<^verbatim>\<open>src/src\<close>\<close>

  \<^bold>\<open>The program.\<close> The server holds one zone. \<^verbatim>\<open>config.rs\<close> resolves command line, environment and file to
  a configuration; \<^verbatim>\<open>zone.rs\<close> builds an immutable arena from it, in the name order of \<^verbatim>\<open>canonical.rs\<close>, with
  every value passing the gate of \<^verbatim>\<open>rdata.rs\<close>; \<^verbatim>\<open>handler.rs\<close> answers each request from the zone it loads
  once, behind the limiter of \<^verbatim>\<open>ratelimit.rs\<close>, and counts it in \<^verbatim>\<open>metrics.rs\<close>. \<^verbatim>\<open>main.rs\<close> binds the sockets,
  publishes the phases of \<^verbatim>\<open>lifecycle.rs\<close> and runs the shutdown on the signals of \<^verbatim>\<open>shutdown.rs\<close>.
  \<^verbatim>\<open>admin.rs\<close> serves probes, metrics and \<^verbatim>\<open>POST /reload\<close>, which \<^verbatim>\<open>reload.rs\<close> carries out by swapping the
  zone under the running handler. The subcommands of \<^verbatim>\<open>cli.rs\<close>, routed by \<^verbatim>\<open>main.rs\<close>, live under
  \<^verbatim>\<open>commands/\<close>: they edit the config file through \<^verbatim>\<open>editor.rs\<close>, check the zone it describes, and ask a running
  server over the clients \<^verbatim>\<open>http.rs\<close>, \<^verbatim>\<open>dnsclient.rs\<close> and \<^verbatim>\<open>healthcheck.rs\<close>; \<^verbatim>\<open>tomlparse.rs\<close> words a parse
  error and \<^verbatim>\<open>ui.rs\<close> lays out what they print.

  \<^bold>\<open>Theories, in the order they build on each other.\<close>

  \<^item> \<open>Prelude\<close>: results, options, slices, saturating words, ASCII text; the simp rules the rest shares.
  \<^item> \<open>Canonical\<close> (\<^verbatim>\<open>canonical.rs\<close>): the sort key as written, its equivalence with RFC 4034 6.1 order, and
    the contract \<open>name_order_key\<close> the zone layout uses.
  \<^item> \<open>Hickory\<close>: the third-party functions the sources call, one record argument \<open>E\<close>, the documented laws
    \<open>hickory_ok\<close> as a hypothesis, and the concrete instance \<open>demo_hickory\<close> that satisfies them.
  \<^item> \<open>Config\<close>, \<open>Rdata\<close> (\<^verbatim>\<open>config.rs\<close>, \<^verbatim>\<open>rdata.rs\<close>): both raw tiers, \<open>merge\<close> with every refusal, and the length
    gate. Reading and deserialising the file are arguments of \<open>resolve_config\<close>.
  \<^item> \<open>Zone_Data\<close>, \<open>Zone_Lookup\<close>, \<open>Zone_Build\<close> (\<^verbatim>\<open>zone.rs\<close>): arenas, spans, flags and suffix hashes; probe,
    closest-encloser bisection, wildcard synthesis, CNAME chase and referrals, and the assertions of
    \<^verbatim>\<open>debug_assert_invariants\<close>; the build from \<open>insert_spec\<close> to \<open>finish\<close>. The hash seed and the iteration
    order of the scratch \<^verbatim>\<open>HashMap\<close> are arguments (\<open>iter_ok\<close>: a permutation).
  \<^item> \<open>Zone_Entries\<close>, \<open>Zone_Layout\<close>, \<open>Zone_Arena\<close>, \<open>Zone_Correct\<close>, \<open>Zone_Referral\<close>, \<open>Zone_Content\<close>: what each
    stage of the build establishes, ending in \<open>built\<close>; \<open>Zone_Refine\<close>: lookups on a well-formed zone equal
    the reference algorithm \<open>spec_lookup\<close> on owner names; \<open>Zone_Theorems\<close>, \<open>Zone_Rules\<close>: the properties.
  \<^item> \<open>Ratelimit\<close> (\<^verbatim>\<open>ratelimit.rs\<close>): packed slot words, the bands of the wrapping 32-bit clock, the bounded
    compare-exchange loop, and the interleaving of threads on a slot.
  \<^item> \<open>Metrics\<close> (\<^verbatim>\<open>metrics.rs\<close>): wrapping counters, the histogram and the exposition as samples.
  \<^item> \<open>Handler\<close>, \<open>Handler_Theorems\<close> (\<^verbatim>\<open>handler.rs\<close>): the gates in order, built-in names, ANY, the zone answer, the
    plain-UDP size bound, EDNS and accounting. \<open>zone_store\<close> is what the handler needs of a zone,
    interpreted as \<open>served\<close>. Sending is an argument that may fail. \<open>Typed\<close>: the types of the records that the
    lookup, the built-in names and the handler put into a response, layer by layer.
  \<^item> \<open>Lifecycle\<close>, \<open>Shutdown\<close> (\<^verbatim>\<open>lifecycle.rs\<close>, \<^verbatim>\<open>shutdown.rs\<close>, \<^verbatim>\<open>main.rs\<close>): the phase cell (contract
    \<open>phase_cell\<close>, interpreted as \<open>life\<close>) with its compare-exchange loop under interleaving; signals, and the
    sequence of \<^verbatim>\<open>serve\<close> and \<^verbatim>\<open>Shutdown::run\<close> as a step relation with time.
  \<^item> \<open>Admin\<close> (\<^verbatim>\<open>admin.rs\<close>): every endpoint, authorisation, the drain gate, and the contract \<open>reload_hook\<close>.
  \<^item> \<open>Reload\<close>, \<open>Reload_Steps\<close> (\<^verbatim>\<open>reload.rs\<close>, start-up in \<^verbatim>\<open>main.rs\<close>): the gates, the swap and the drift report
    as one function, interpreted as \<open>vega\<close>; concurrent calls with queries and the drain as a step relation.
  \<^item> \<open>Process\<close> (\<^verbatim>\<open>main.rs\<close>): what start-up binds and in which order, the timings it announces, the log filter,
    and the process around the shutdown: main task, watchdog thread and exit code as a step relation.
  \<^item> \<open>Editor\<close>, \<open>Editor_Save\<close>, \<open>Editor_Write\<close> (\<^verbatim>\<open>editor.rs\<close>): edits of record sets; the replacement of the file by
    concurrent writers as a step relation over the files of a directory and what of them is on the medium; and
    \<^verbatim>\<open>write_atomically\<close> as one process runs it, with the files left on every error, which is a run of that relation.
  \<^item> \<open>Zone_Findings\<close> (\<^verbatim>\<open>zone.rs\<close>): which diagnostics a build leaves, for any configuration.
  \<^item> \<open>Calendar\<close>, \<open>Serial\<close>, \<open>Tomlparse\<close> (\<^verbatim>\<open>commands/mod.rs\<close>, \<^verbatim>\<open>tomlparse.rs\<close>): dates from days, the next SOA serial,
    and the position and the text of a parse error.
  \<^item> \<open>Commands\<close> (\<^verbatim>\<open>commands/record.rs\<close>, \<^verbatim>\<open>commands/zone.rs\<close>): every subcommand on the config file, as a function from
    the files to its result or error and the files at the point where it returned.
  \<^item> \<open>Client\<close> (\<^verbatim>\<open>http.rs\<close>, \<^verbatim>\<open>dnsclient.rs\<close>, \<^verbatim>\<open>healthcheck.rs\<close>, \<^verbatim>\<open>commands/inspect.rs\<close>): the parse of a response, the probe,
    status and reload, the scrape of the metrics, the DNS query with its retry over TCP and its framing.
  \<^item> \<open>Cli\<close> (\<^verbatim>\<open>main.rs\<close>, \<^verbatim>\<open>cli.rs\<close>): renamed variables, the search path, routing and exit codes.
  \<^item> \<open>Terminal\<close>, \<open>Output\<close>, \<open>Panels\<close> (\<^verbatim>\<open>ui.rs\<close> and the printing of \<^verbatim>\<open>commands/\<close>): styles, padded tables, durations; the
    tables, reports and breakdowns, and the panels of \<^verbatim>\<open>query\<close> and \<^verbatim>\<open>status\<close>, as lists of lines.

  \<^bold>\<open>What is shown.\<close> For every zone that builds: every query is answered as the reference algorithm
  answers it, so no hash collision, index or bisection step changes an answer; the names and records are
  exactly the declared ones; a delegation with no other around it answers for its subtree with exactly its
  declared NS set; the refused configurations are refused. For the limiter: while the clock readings span at most a
  minute no interleaving admits more than the capacity and the refill of that span, and an uncontended check is an
  ideal token bucket across wraps. For the handler: every question is answered as the reference says, and at or below a
  delegation with a referral and without AA, with the one exception of ANY for a name that the zone does not have
  there (\<open>any_below_cut_denied\<close>); data only behind the gates, silence only for rate-limited UDP, responses to one question
  within 512 octets where the client offered no EDNS, every request in exactly the counters it belongs to, every
  record of the type its section allows. For the process: phases never go back and the loop that enters them ends, the drain precedes the listeners' end
  and the admin server goes last, a signalled process is gone within the time it announced whatever hangs,
  and its exit code tells how it went. For reloads: all or nothing, serialised, the origin and the fixed settings
  kept, and a silent report means a restart would change nothing. For the editor: one record set edited,
  creation undone by removal, and a config file that is whole at every moment, after a power cut too. For the tools: a check
  passes exactly for the zones served as written, a run touches one file at most and one that fails no file there was, an edit
  is saved with its serial or nothing is, dates are those of the calendar, a parse error is shown as the parser's
  message and the place, without the line of the file; probe, status and reload report what the server does, the response codes and the
  traffic shown are those the server counted, and a table reads the same in colour and without.

  \<^bold>\<open>Termination and bounds.\<close> Every definition is total. The climb to the apex is bounded by the labels of
  the name, which its measure argument covers; the CNAME chase by \<open>MAX_CNAME_DEPTH\<close>, as in the source; the
  compare-exchange of the limiter by \<open>CAS_ATTEMPTS\<close>; no other loop has fuel. The loops over text (\<open>lines\<close>,
  \<open>floor_boundary\<close>, \<open>visible_width\<close>) end by the length that is left. Word arithmetic is at the source's width
  where it can wrap; the date arithmetic is exact up to the year its 32-bit result allows.

  \<^bold>\<open>What is not modelled.\<close> What belongs to other crates, and enters as an argument with its documented laws:
  the TOML and JSON parsers, the argument parser, the paint of a text, hickory's codec and server, axum,
  sockets and timeouts. Wire encoding belongs to hickory; sizes are counted on the uncompressed form.
  Arithmetic and printing of doubles, which only displays use. The scheduler: the one thing assumed of it is
  that the watchdog's sleep ends on time. \<^verbatim>\<open>testutil.rs\<close>, which only tests use. Log lines, JSON
  output, error prose and the panel of \<^verbatim>\<open>check\<close> that only repeats fields: the facts they render are the values
  the commands return. Text in configurations is ASCII.
\<close>

end
